theory Spec2Isabelle
  imports Main "HOL-Library.Multiset"
begin

section \<open>Thread count of the image build: \<open>compute_image_thread_count\<close>\<close>

text \<open>
  The object format of the target triple, as \<open>llvm::Triple::ObjectFormatType\<close> lists it.
  \<open>Triple::isOSBinFormatCOFF\<close> tests for \<open>COFF\<close>.
\<close>

datatype ObjectFormatType =
  UnknownObjectFormat | COFF | DXContainer | ELF | GOFF | MachO | SPIRV | Wasm | XCOFF

record Triple =
  object_format :: ObjectFormatType

definition isOSBinFormatCOFF :: "Triple \<Rightarrow> bool" where
  "isOSBinFormatCOFF t = (object_format t = COFF)"

text \<open>
  \<open>struct ModuleInfo\<close>. The counters are \<open>size_t\<close>; they count objects held in memory
  and are natural numbers here.
\<close>

record ModuleInfo =
  triple :: Triple
  globals :: nat
  funcs :: nat
  bbs :: nat
  insts :: nat
  clones :: nat
  weight :: nat

text \<open>
  What \<open>compute_image_thread_count\<close> reads besides its argument: whether the build
  defines \<open>_P32\<close>, the value of \<open>jl_cpu_threads()\<close> (an \<open>int\<close>), and the two
  environment variables (\<open>None\<close> when \<open>getenv\<close> returns a null pointer).
\<close>

record Env =
  P32 :: bool
  cpu_threads :: int
  JULIA_IMAGE_THREADS :: "string option"
  JULIA_CPU_THREADS :: "string option"

text \<open>The two messages the function prints with \<open>jl_safe_printf\<close>, with the text of the
  offending value.\<close>

datatype warning =
  InvalidImageThreads string
| InvalidCpuThreads string

subsection \<open>The C library's \<open>strtoul\<close> in base 10\<close>

text \<open>
  \<open>strtoul(s, &endptr, 10)\<close> as ISO C defines it, for a 64-bit \<open>unsigned long\<close>:
  white space is skipped, one sign is accepted, the longest run of decimal digits is
  converted. Without any digit the value is 0 and \<open>endptr\<close> is \<open>s\<close> itself. A value
  beyond \<open>ULONG_MAX\<close> is returned as \<open>ULONG_MAX\<close>; a minus sign negates the value in
  \<open>unsigned long\<close>. The result is the value and the rest of the string at \<open>endptr\<close>.
\<close>

definition ULONG_MAX :: nat where
  "ULONG_MAX = 2 ^ 64 - 1"

definition isspace :: "char \<Rightarrow> bool" where
  "isspace c = (c \<in> set [CHR '' '', CHR 0x09, CHR 0x0A, CHR 0x0B, CHR 0x0C, CHR 0x0D])"

definition isdigit :: "char \<Rightarrow> bool" where
  "isdigit c = (48 \<le> (of_char c :: nat) \<and> (of_char c :: nat) \<le> 57)"

definition digit_value :: "char \<Rightarrow> nat" where
  "digit_value c = of_char c - 48"

definition strtoul10 :: "string \<Rightarrow> nat \<times> string" where
  "strtoul10 s =
     (let s1 = dropWhile isspace s;
          neg = (s1 \<noteq> [] \<and> hd s1 = CHR ''-'');
          s2 = (if s1 \<noteq> [] \<and> (hd s1 = CHR ''-'' \<or> hd s1 = CHR ''+'') then tl s1 else s1);
          ds = takeWhile isdigit s2;
          v = foldl (\<lambda>a c. 10 * a + digit_value c) 0 ds
      in if ds = [] then (0, s)
         else (if ULONG_MAX < v then ULONG_MAX
               else if neg then (2 ^ 64 - v) mod 2 ^ 64
               else v,
               dropWhile isdigit s2))"

subsection \<open>The function\<close>

text \<open>\<open>jl_cpu_threads() / 2\<close> is a division of \<open>int\<close>, which truncates towards zero.\<close>

definition half_int :: "int \<Rightarrow> int" where
  "half_int x = (if x < 0 then - ((- x) div 2) else x div 2)"

text \<open>Lines 1431 to 1437: the default before any environment variable is read. The
  variable \<open>threads\<close> is an \<open>unsigned\<close>.\<close>

definition default_threads :: "ModuleInfo \<Rightarrow> Env \<Rightarrow> nat" where
  "default_threads info env =
     (let threads = nat (max (half_int (cpu_threads env)) 1);
          max_threads = globals info div 100
      in if max_threads < threads then max_threads else threads)"

text \<open>
  Lines 1439 to 1452: \<open>JULIA_IMAGE_THREADS\<close>. The result is the new value of \<open>threads\<close>,
  the flag \<open>env_threads_set\<close> and the warnings printed. The assignment
  \<open>threads = requested\<close> stores an \<open>unsigned long\<close> in an \<open>unsigned\<close> of 32 bits.
\<close>

definition apply_env_threads :: "string option \<Rightarrow> nat \<Rightarrow> nat \<times> bool \<times> warning list" where
  "apply_env_threads env_threads threads =
     (case env_threads of
        None \<Rightarrow> (threads, False, [])
      | Some s \<Rightarrow>
          (let (requested, endptr) = strtoul10 s
           in if endptr \<noteq> [] \<or> requested = 0 then (threads, False, [InvalidImageThreads s])
              else (requested mod 2 ^ 32, True, [])))"

text \<open>Lines 1454 to 1466: \<open>JULIA_CPU_THREADS\<close>, read only when the first variable did
  not set the count and more than one thread is left.\<close>

definition apply_fallback :: "string option \<Rightarrow> bool \<Rightarrow> nat \<Rightarrow> nat \<times> warning list" where
  "apply_fallback fallbackenv env_threads_set threads =
     (if \<not> env_threads_set \<and> 1 < threads then
        (case fallbackenv of
           None \<Rightarrow> (threads, [])
         | Some s \<Rightarrow>
             (let (requested, endptr) = strtoul10 s
              in if endptr \<noteq> [] \<or> requested = 0 then (threads, [InvalidCpuThreads s])
                 else if requested < threads then (requested, [])
                 else (threads, [])))
      else (threads, []))"

definition compute_image_thread_count :: "ModuleInfo \<Rightarrow> Env \<Rightarrow> nat \<times> warning list" where
  "compute_image_thread_count info env =
     (if P32 env then (1, [])
      else if isOSBinFormatCOFF (triple info) \<and> 64000 < globals info then (1, [])
      else if weight info < 1000 then (1, [])
      else
        (let threads = default_threads info env;
             (threads1, env_threads_set, w1) = apply_env_threads (JULIA_IMAGE_THREADS env) threads;
             (threads2, w2) = apply_fallback (JULIA_CPU_THREADS env) env_threads_set threads1
         in (max threads2 1, w1 @ w2)))"

subsection \<open>Concrete inputs\<close>

definition info_ex :: ModuleInfo where
  "info_ex = \<lparr>triple = \<lparr>object_format = ELF\<rparr>, globals = 1000, funcs = 40, bbs = 200,
     insts = 2000, clones = 40, weight = 2240\<rparr>"

definition env_ex :: Env where
  "env_ex = \<lparr>P32 = False, cpu_threads = 8, JULIA_IMAGE_THREADS = None, JULIA_CPU_THREADS = None\<rparr>"

section \<open>Archive members written by \<open>jl_dump_native_impl\<close>\<close>

text \<open>\<open>struct AOTOutputs\<close>: the four buffers one compiled module yields.\<close>

record AOTOutputs =
  out_unopt :: string
  out_opt :: string
  out_obj :: string
  out_asm :: string

datatype dump_error = OutputIndexOutOfRange

text \<open>\<open>Twine(i)\<close> for a \<open>size_t\<close> prints the number in decimal.\<close>

definition digit_char :: "nat \<Rightarrow> char" where
  "digit_char d = ''0123456789'' ! d"

fun decimal :: "nat \<Rightarrow> string" where
  "decimal n = (if n < 10 then [digit_char n] else decimal (n div 10) @ [digit_char (n mod 10)])"

declare decimal.simps [simp del]

text \<open>The loop over the shards at lines 1762 to 1765, from index \<open>i\<close> on: the member
  names and buffers in the order they are pushed. Reading \<open>data_outputs[i]\<close> outside the
  vector is the error.\<close>

fun shard_members ::
  "(AOTOutputs \<Rightarrow> string) \<Rightarrow> string \<Rightarrow> string \<Rightarrow> AOTOutputs list \<Rightarrow> nat \<Rightarrow> nat \<Rightarrow>
   dump_error + (string \<times> string) list" where
  "shard_members field prefix suffix data_outputs i 0 = Inr []"
| "shard_members field prefix suffix data_outputs i (Suc k) =
     (if i < length data_outputs then
        (case shard_members field prefix suffix data_outputs (Suc i) k of
           Inl e \<Rightarrow> Inl e
         | Inr ms \<Rightarrow>
             Inr ((''text'' @ prefix @ ''#'' @ decimal i @ suffix, field (data_outputs ! i)) # ms))
      else Inl OutputIndexOutOfRange)"

text \<open>
  The macro \<open>WRITE_ARCHIVE(fname, field, prefix, suffix)\<close>: nothing when the file name is
  null, else the list of archive members handed to \<open>writeArchive\<close>. \<open>z\<close> tells whether
  the system image buffer was supplied.
\<close>

definition WRITE_ARCHIVE ::
  "string option \<Rightarrow> (AOTOutputs \<Rightarrow> string) \<Rightarrow> string \<Rightarrow> string \<Rightarrow> nat \<Rightarrow>
   AOTOutputs list \<Rightarrow> AOTOutputs list \<Rightarrow> bool \<Rightarrow> AOTOutputs list \<Rightarrow>
   dump_error + (string \<times> (string \<times> string) list) option" where
  "WRITE_ARCHIVE fname field prefix suffix threads data_outputs metadata_outputs z sysimg_outputs =
     (case fname of
        None \<Rightarrow> Inr None
      | Some f \<Rightarrow>
          (case shard_members field prefix suffix data_outputs 0 threads of
             Inl e \<Rightarrow> Inl e
           | Inr ms \<Rightarrow>
               if metadata_outputs = [] then Inl OutputIndexOutOfRange
               else if z \<and> sysimg_outputs = [] then Inl OutputIndexOutOfRange
               else Inr (Some (f,
                 ms @ [(''metadata'' @ prefix @ suffix, field (metadata_outputs ! 0))] @
                 (if z then [(''sysimg'' @ prefix @ suffix, field (sysimg_outputs ! 0))] else [])))))"

text \<open>The four uses of the macro at lines 1778 to 1781, in their order.\<close>

record DumpNames =
  unopt_bc_fname :: "string option"
  bc_fname :: "string option"
  obj_fname :: "string option"
  asm_fname :: "string option"

definition write_archives ::
  "DumpNames \<Rightarrow> nat \<Rightarrow> AOTOutputs list \<Rightarrow> AOTOutputs list \<Rightarrow> bool \<Rightarrow> AOTOutputs list \<Rightarrow>
   (dump_error + (string \<times> (string \<times> string) list) option) list" where
  "write_archives names threads data_outputs metadata_outputs z sysimg_outputs =
     [WRITE_ARCHIVE (unopt_bc_fname names) out_unopt ''_unopt'' ''.bc'' threads data_outputs metadata_outputs z sysimg_outputs,
      WRITE_ARCHIVE (bc_fname names) out_opt ''_opt'' ''.bc'' threads data_outputs metadata_outputs z sysimg_outputs,
      WRITE_ARCHIVE (obj_fname names) out_obj '''' ''.o'' threads data_outputs metadata_outputs z sysimg_outputs,
      WRITE_ARCHIVE (asm_fname names) out_asm '''' ''.s'' threads data_outputs metadata_outputs z sysimg_outputs]"

definition outs_ex :: "AOTOutputs list" where
  "outs_ex = [\<lparr>out_unopt = ''u0'', out_opt = ''p0'', out_obj = ''o0'', out_asm = ''a0''\<rparr>,
              \<lparr>out_unopt = ''u1'', out_opt = ''p1'', out_obj = ''o1'', out_asm = ''a1''\<rparr>]"

section \<open>Modules and global values\<close>

text \<open>
  The part of an LLVM module the partitioning and the materialization read and write.
  A global value is identified by its position in the module's store (the pointer in the
  code); a position holding \<open>None\<close> is a value that has been erased. The four index
  tables \<open>jl_fvars\<close>, \<open>jl_gvars\<close>, \<open>jl_fvar_idxs\<close> and \<open>jl_gvar_idxs\<close> are kept
  apart from the store: \<open>get_fvars_gvars\<close> removes them before anything else is done.
\<close>

datatype LinkageTypes =
  ExternalLinkage | AvailableExternallyLinkage | LinkOnceAnyLinkage | LinkOnceODRLinkage
| WeakAnyLinkage | WeakODRLinkage | AppendingLinkage | InternalLinkage | PrivateLinkage
| ExternalWeakLinkage | CommonLinkage

datatype VisibilityTypes = DefaultVisibility | HiddenVisibility | ProtectedVisibility

datatype ValueKind = FunctionVal | GlobalVariableVal | GlobalAliasVal

text \<open>
  \<open>gv_blocks\<close> holds the number of instructions of each basic block of a function (empty
  for a function without body), \<open>gv_initializer\<close> tells whether a variable has an
  initializer, \<open>gv_operands\<close> lists the global values the body, the initializer or the
  aliasee refers to. \<open>gv_users\<close> is the sequence of global values that
  \<open>ConstantUses<GlobalValue>\<close> enumerates for this value; that class is defined outside
  this file and its result is taken as given.
\<close>

record GlobalValue =
  gv_kind :: ValueKind
  gv_name :: string
  gv_linkage :: LinkageTypes
  gv_visibility :: VisibilityTypes
  gv_dso_local :: bool
  gv_function_ty :: bool
  gv_blocks :: "nat list"
  gv_initializer :: bool
  gv_always_inline :: bool
  gv_mv_clones :: "string option"
  gv_operands :: "nat list"
  gv_users :: "nat list"

definition isDeclaration :: "GlobalValue \<Rightarrow> bool" where
  "isDeclaration G =
     (case gv_kind G of
        FunctionVal \<Rightarrow> gv_blocks G = []
      | GlobalVariableVal \<Rightarrow> \<not> gv_initializer G
      | GlobalAliasVal \<Rightarrow> False)"

definition hasLocalLinkage :: "GlobalValue \<Rightarrow> bool" where
  "hasLocalLinkage G = (gv_linkage G = InternalLinkage \<or> gv_linkage G = PrivateLinkage)"

record Module =
  m_values :: "GlobalValue option list"
  jl_fvars :: "nat list option"
  jl_gvars :: "nat list option"
  jl_fvar_idxs :: "nat list option"
  jl_gvar_idxs :: "nat list option"

definition ids_of_kind :: "Module \<Rightarrow> ValueKind \<Rightarrow> nat list" where
  "ids_of_kind M k =
     filter (\<lambda>i. case m_values M ! i of None \<Rightarrow> False | Some G \<Rightarrow> gv_kind G = k)
       [0 ..< length (m_values M)]"

text \<open>\<open>M.functions()\<close>, \<open>M.globals()\<close>, \<open>M.aliases()\<close> and \<open>M.global_values()\<close>.\<close>

definition m_functions :: "Module \<Rightarrow> nat list" where
  "m_functions M = ids_of_kind M FunctionVal"

definition m_globals :: "Module \<Rightarrow> nat list" where
  "m_globals M = ids_of_kind M GlobalVariableVal"

definition m_aliases :: "Module \<Rightarrow> nat list" where
  "m_aliases M = ids_of_kind M GlobalAliasVal"

definition global_values :: "Module \<Rightarrow> nat list" where
  "global_values M = m_functions M @ m_globals M @ m_aliases M"

definition value_at :: "Module \<Rightarrow> nat \<Rightarrow> GlobalValue option" where
  "value_at M i = (if i < length (m_values M) then m_values M ! i else None)"

definition set_value :: "Module \<Rightarrow> nat \<Rightarrow> GlobalValue option \<Rightarrow> Module" where
  "set_value M i v = M\<lparr>m_values := (m_values M)[i := v]\<rparr>"

text \<open>\<open>M.getNamedValue(name)\<close>: the value the symbol table holds under the name. A
  value without a name is not in the symbol table.\<close>

definition getNamedValue :: "Module \<Rightarrow> string \<Rightarrow> nat option" where
  "getNamedValue M name =
     (if name = [] then None
      else List.find (\<lambda>i. case m_values M ! i of None \<Rightarrow> False | Some G \<Rightarrow> gv_name G = name)
             [0 ..< length (m_values M)])"

section \<open>Weights\<close>

record FunctionInfo =
  f_weight :: nat
  f_bbs :: nat
  f_insts :: nat
  f_clones :: nat

text \<open>
  \<open>APInt(val.size() * 4, val, 16)\<close>: LLVM reads an optional sign and then hexadecimal
  digits into an integer of four bits per character of the string; a minus sign
  negates the value in that width. Strings it rejects give \<open>None\<close>.
\<close>

definition getDigit :: "char \<Rightarrow> nat option" where
  "getDigit c =
     (let r = (of_char c :: nat)
      in if 48 \<le> r \<and> r \<le> 57 then Some (r - 48)
         else if 65 \<le> r \<and> r \<le> 70 then Some (r - 65 + 10)
         else if 97 \<le> r \<and> r \<le> 102 then Some (r - 97 + 10)
         else None)"

fun read_digits :: "nat \<Rightarrow> string \<Rightarrow> nat option" where
  "read_digits acc [] = Some acc"
| "read_digits acc (c # cs) =
     (case getDigit c of None \<Rightarrow> None | Some d \<Rightarrow> read_digits (16 * acc + d) cs)"

definition APInt_hex :: "string \<Rightarrow> nat option" where
  "APInt_hex val =
     (if val = [] then None
      else
        let isNeg = (hd val = CHR ''-'');
            p = (if hd val = CHR ''-'' \<or> hd val = CHR ''+'' then tl val else val)
        in if p = [] then None
           else (case read_digits 0 p of
                   None \<Rightarrow> None
                 | Some v \<Rightarrow>
                     Some (if isNeg then (2 ^ (4 * length val) - v) mod 2 ^ (4 * length val)
                           else v)))"

fun countPopulation :: "nat \<Rightarrow> nat" where
  "countPopulation n = (if n = 0 then 0 else n mod 2 + countPopulation (n div 2))"

declare countPopulation.simps [simp del]

definition getFunctionWeight :: "GlobalValue \<Rightarrow> FunctionInfo option" where
  "getFunctionWeight F =
     (let nbbs = length (gv_blocks F);
          ninsts = sum_list (gv_blocks F)
      in case (case gv_mv_clones F of
                 None \<Rightarrow> Some 1
               | Some val \<Rightarrow> map_option (\<lambda>v. countPopulation v + 1) (APInt_hex val)) of
           None \<Rightarrow> None
         | Some nclones \<Rightarrow>
             Some \<lparr>f_weight = (1 + ninsts + nbbs) * nclones, f_bbs = nbbs, f_insts = ninsts,
                   f_clones = nclones\<rparr>)"

definition canPartition :: "GlobalValue \<Rightarrow> bool" where
  "canPartition G = (\<not> (gv_kind G = FunctionVal \<and> gv_always_inline G))"

text \<open>The weight \<open>partitionModule\<close> gives a global value when it makes its node
  (lines 841 to 845).\<close>

definition node_weight :: "GlobalValue \<Rightarrow> nat option" where
  "node_weight G =
     (if gv_kind G = FunctionVal then map_option f_weight (getFunctionWeight G) else Some 1)"

section \<open>Partitioning: \<open>partitionModule\<close>\<close>

text \<open>
  The model follows the build without assertions (\<open>JL_NDEBUG\<close>): \<open>assert\<close> and the body
  of \<open>verify_partitioning\<close> expand to nothing. Where the code would then read through a
  null pointer or an end iterator, index a vector outside its bounds or take the top of
  an empty queue, the model returns an error. The counters of type \<open>size_t\<close> and
  \<open>unsigned\<close> count objects in memory and are natural numbers.
\<close>

datatype partition_error =
  MissingTable | InvalidClonesAttribute | UseNotPartitioned | FindFailed | EmptyQueue
| PartitionOutOfRange | MissingValue

subsection \<open>\<open>StringMap\<close>\<close>

text \<open>
  A \<open>StringMap\<close> is an association list with one entry per key. The code iterates over
  such maps in hash order; the two loops that do so either sort what they collect or
  act on each entry independently of the others, and the model iterates in list order.
\<close>

type_synonym 'v StringMap = "(string \<times> 'v) list"

definition sm_insert :: "string \<Rightarrow> 'v \<Rightarrow> 'v StringMap \<Rightarrow> 'v StringMap" where
  \<comment> \<open>\<open>m.insert({k, v})\<close> keeps an entry that is already there\<close>
  "sm_insert k v m = (if map_of m k = None then m @ [(k, v)] else m)"

definition sm_assign :: "string \<Rightarrow> 'v \<Rightarrow> 'v StringMap \<Rightarrow> 'v StringMap" where
  \<comment> \<open>\<open>m[k] = v\<close>\<close>
  "sm_assign k v m =
     (if map_of m k = None then m @ [(k, v)]
      else map (\<lambda>(k', v'). if k' = k then (k', v) else (k', v')) m)"

record Partition =
  p_globals :: "bool StringMap"
  p_fvars :: "nat StringMap"
  p_gvars :: "nat StringMap"
  p_weight :: nat

subsection \<open>\<open>get_fvars_gvars\<close>\<close>

text \<open>The \<open>DenseMap\<close> from a global value to its position in a table: a later
  position overwrites an earlier one.\<close>

fun index_map :: "nat list \<Rightarrow> nat \<Rightarrow> (nat \<rightharpoonup> nat) \<Rightarrow> (nat \<rightharpoonup> nat)" where
  "index_map [] i m = m"
| "index_map (gv # gvs) i m = index_map gvs (Suc i) (m(gv \<mapsto> i))"

definition get_fvars_gvars ::
  "Module \<Rightarrow> partition_error + (Module \<times> (nat \<rightharpoonup> nat) \<times> (nat \<rightharpoonup> nat))" where
  "get_fvars_gvars M =
     (case (jl_fvars M, jl_gvars M, jl_fvar_idxs M, jl_gvar_idxs M) of
        (Some fvars_init, Some gvars_init, Some _, Some _) \<Rightarrow>
          Inr (M\<lparr>jl_fvars := None, jl_gvars := None, jl_fvar_idxs := None, jl_gvar_idxs := None\<rparr>,
               index_map fvars_init 0 Map.empty, index_map gvars_init 0 Map.empty)
      | _ \<Rightarrow> Inl MissingTable)"

subsection \<open>The union-find structure \<open>Partitioner\<close>\<close>

text \<open>The field \<open>merged\<close> of the structure is a counter that is never read; it is left
  out.\<close>

record Node =
  n_GV :: nat
  n_parent :: nat
  n_size :: nat
  n_weight :: nat

record Partitioner =
  nodes :: "Node list"
  node_map :: "nat \<rightharpoonup> nat"

definition make :: "Partitioner \<Rightarrow> nat \<Rightarrow> nat \<Rightarrow> Partitioner \<times> nat" where
  "make P GV w =
     (let idx = length (nodes P)
      in (P\<lparr>nodes := nodes P @ [\<lparr>n_GV = GV, n_parent = idx, n_size = 1, n_weight = w\<rparr>],
            node_map := (node_map P)(GV \<mapsto> idx)\<rparr>, idx))"

text \<open>\<open>find\<close> with its path halving. \<open>None\<close> stands for a loop that does not end or
  that leaves the vector.\<close>

partial_function (option) find_uf :: "Node list \<Rightarrow> nat \<Rightarrow> (Node list \<times> nat) option" where
  "find_uf ns idx =
     (if idx < length ns \<and> n_parent (ns ! idx) < length ns then
        if n_parent (ns ! idx) \<noteq> idx then
          find_uf (ns[idx := (ns ! idx)\<lparr>n_parent := n_parent (ns ! n_parent (ns ! idx))\<rparr>])
            (n_parent (ns ! n_parent (ns ! idx)))
        else Some (ns, idx)
      else None)"

declare find_uf.simps [code]

definition merge_uf :: "Node list \<Rightarrow> nat \<Rightarrow> nat \<Rightarrow> (Node list \<times> nat) option" where
  "merge_uf ns x y =
     (case find_uf ns x of
        None \<Rightarrow> None
      | Some (ns1, x1) \<Rightarrow>
          (case find_uf ns1 y of
             None \<Rightarrow> None
           | Some (ns2, y1) \<Rightarrow>
               if x1 = y1 then Some (ns2, x1)
               else
                 let x2 = (if n_size (ns2 ! x1) < n_size (ns2 ! y1) then y1 else x1);
                     y2 = (if n_size (ns2 ! x1) < n_size (ns2 ! y1) then x1 else y1);
                     ns3 = ns2[y2 := (ns2 ! y2)\<lparr>n_parent := x2\<rparr>];
                     ns4 = ns3[x2 := (ns3 ! x2)\<lparr>n_size := n_size (ns3 ! x2) + n_size (ns3 ! y2),
                                                n_weight := n_weight (ns3 ! x2) + n_weight (ns3 ! y2)\<rparr>]
                 in Some (ns4, x2)))"

subsection \<open>The loops of \<open>partitionModule\<close>\<close>

text \<open>Lines 834 to 846: one node for every definition that can be partitioned, which
  also gets external linkage and hidden visibility.\<close>

fun make_nodes ::
  "nat list \<Rightarrow> Module \<times> Partitioner \<Rightarrow> partition_error + (Module \<times> Partitioner)" where
  "make_nodes [] (M, P) = Inr (M, P)"
| "make_nodes (g # gs) (M, P) =
     (case value_at M g of
        None \<Rightarrow> Inl MissingValue
      | Some G \<Rightarrow>
          if isDeclaration G then make_nodes gs (M, P)
          else if \<not> canPartition G then make_nodes gs (M, P)
          else
            (case node_weight G of
               None \<Rightarrow> Inl InvalidClonesAttribute
             | Some w \<Rightarrow>
                 make_nodes gs
                   (set_value M g
                      (Some (G\<lparr>gv_linkage := ExternalLinkage, gv_visibility := HiddenVisibility\<rparr>)),
                    fst (make P g w))))"

text \<open>Lines 849 to 858: the inner loop over the uses of node \<open>i\<close>, and the outer loop
  over the nodes.\<close>

definition users_of :: "Module \<Rightarrow> nat \<Rightarrow> nat list" where
  "users_of M g = (case value_at M g of None \<Rightarrow> [] | Some G \<Rightarrow> gv_users G)"

fun merge_uses ::
  "(nat \<rightharpoonup> nat) \<Rightarrow> nat \<Rightarrow> nat list \<Rightarrow> Node list \<Rightarrow> partition_error + Node list" where
  "merge_uses nm i [] ns = Inr ns"
| "merge_uses nm i (val # vals) ns =
     (case nm val of
        None \<Rightarrow> Inl UseNotPartitioned
      | Some idx \<Rightarrow>
          (case merge_uf ns i idx of
             None \<Rightarrow> Inl FindFailed
           | Some (ns', r) \<Rightarrow> merge_uses nm i vals ns'))"

fun merge_all ::
  "Module \<Rightarrow> (nat \<rightharpoonup> nat) \<Rightarrow> nat list \<Rightarrow> Node list \<Rightarrow> partition_error + Node list" where
  "merge_all M nm [] ns = Inr ns"
| "merge_all M nm (i # is) ns =
     (case merge_uses nm i (users_of M (n_GV (ns ! i))) ns of
        Inl e \<Rightarrow> Inl e
      | Inr ns' \<Rightarrow> merge_all M nm is ns')"

text \<open>
  The priority queue of partitions with the comparison \<open>pcomp\<close>. \<open>std::priority_queue\<close>
  yields as top an element that \<open>pcomp\<close> puts below no other element of the queue; which
  one among several is left to the library, and the model takes the first in the
  queue's list.
\<close>

definition pcomp :: "Partition list \<Rightarrow> nat \<Rightarrow> nat \<Rightarrow> bool" where
  "pcomp parts p1 p2 = (p_weight (parts ! p2) < p_weight (parts ! p1))"

definition pq_top :: "Partition list \<Rightarrow> nat list \<Rightarrow> nat option" where
  "pq_top parts pq = List.find (\<lambda>t. \<forall>q \<in> set pq. \<not> pcomp parts t q) pq"

definition pq_pop :: "nat \<Rightarrow> nat list \<Rightarrow> nat list" where
  "pq_pop t pq = remove1 t pq"

definition pq_push :: "nat \<Rightarrow> nat list \<Rightarrow> nat list" where
  "pq_push p pq = pq @ [p]"

text \<open>Lines 870 to 876. \<open>std::sort\<close> puts the indices in an order of descending
  weight; the order among equal weights is left to the library.\<close>

definition sorted_idxs :: "Node list \<Rightarrow> nat list" where
  "sorted_idxs ns = rev (sort_key (\<lambda>i. n_weight (ns ! i)) [0 ..< length ns])"

text \<open>What lines 887 to 892 and 904 to 909 do to a partition for a node.\<close>

definition add_to_partition ::
  "Module \<Rightarrow> (nat \<rightharpoonup> nat) \<Rightarrow> (nat \<rightharpoonup> nat) \<Rightarrow> nat \<Rightarrow> Partition \<Rightarrow> Partition" where
  "add_to_partition M fvars gvars GV P =
     (let name = (case value_at M GV of None \<Rightarrow> [] | Some G \<Rightarrow> gv_name G);
          P1 = P\<lparr>p_globals := sm_insert name True (p_globals P)\<rparr>;
          P2 = (case fvars GV of None \<Rightarrow> P1
                | Some k \<Rightarrow> P1\<lparr>p_fvars := sm_assign name k (p_fvars P1)\<rparr>)
      in (case gvars GV of None \<Rightarrow> P2
          | Some k \<Rightarrow> P2\<lparr>p_gvars := sm_assign name k (p_gvars P2)\<rparr>))"

text \<open>The body of the loop at lines 879 to 913 for the index \<open>i\<close>.\<close>

definition assign_root ::
  "Module \<Rightarrow> (nat \<rightharpoonup> nat) \<Rightarrow> (nat \<rightharpoonup> nat) \<Rightarrow> nat \<Rightarrow> Node list \<times> Partition list \<times> nat list \<Rightarrow>
   partition_error + (Node list \<times> Partition list \<times> nat list)" where
  "assign_root M fvars gvars root st =
     (case st of (ns, parts, pq) \<Rightarrow>
        if n_weight (ns ! root) \<noteq> 0 then
          (case pq_top parts pq of
             None \<Rightarrow> Inl EmptyQueue
           | Some p \<Rightarrow>
               let node = ns ! root;
                   pq1 = pq_pop p pq;
                   P = add_to_partition M fvars gvars (n_GV node) (parts ! p);
                   P' = P\<lparr>p_weight := p_weight P + n_weight node\<rparr>
               in Inr (ns[root := node\<lparr>n_weight := 0, n_size := p\<rparr>], parts[p := P'],
                       pq_push p pq1))
        else Inr st)"

definition assign_child ::
  "Module \<Rightarrow> (nat \<rightharpoonup> nat) \<Rightarrow> (nat \<rightharpoonup> nat) \<Rightarrow> nat \<Rightarrow> nat \<Rightarrow> Node list \<times> Partition list \<times> nat list \<Rightarrow>
   partition_error + (Node list \<times> Partition list \<times> nat list)" where
  "assign_child M fvars gvars root i st =
     (case st of (ns, parts, pq) \<Rightarrow>
        if root \<noteq> i then
          (let node = ns ! i;
               p = n_size (ns ! root)
           in if p < length parts then
                Inr (ns[i := node\<lparr>n_weight := 0, n_size := p\<rparr>],
                     parts[p := add_to_partition M fvars gvars (n_GV node) (parts ! p)], pq)
              else Inl PartitionOutOfRange)
        else Inr st)"

definition assign_step ::
  "Module \<Rightarrow> (nat \<rightharpoonup> nat) \<Rightarrow> (nat \<rightharpoonup> nat) \<Rightarrow> nat \<Rightarrow> Node list \<times> Partition list \<times> nat list \<Rightarrow>
   partition_error + (Node list \<times> Partition list \<times> nat list)" where
  "assign_step M fvars gvars i st =
     (case st of (ns, parts, pq) \<Rightarrow>
        (case find_uf ns i of
           None \<Rightarrow> Inl FindFailed
         | Some (ns1, root) \<Rightarrow>
             (case assign_root M fvars gvars root (ns1, parts, pq) of
                Inl e \<Rightarrow> Inl e
              | Inr st1 \<Rightarrow> assign_child M fvars gvars root i st1)))"

fun assign_all ::
  "Module \<Rightarrow> (nat \<rightharpoonup> nat) \<Rightarrow> (nat \<rightharpoonup> nat) \<Rightarrow> nat list \<Rightarrow> Node list \<times> Partition list \<times> nat list \<Rightarrow>
   partition_error + (Node list \<times> Partition list \<times> nat list)" where
  "assign_all M fvars gvars [] st = Inr st"
| "assign_all M fvars gvars (i # is) st =
     (case assign_step M fvars gvars i st of
        Inl e \<Rightarrow> Inl e
      | Inr st' \<Rightarrow> assign_all M fvars gvars is st')"

definition empty_partition :: Partition where
  "empty_partition = \<lparr>p_globals = [], p_fvars = [], p_gvars = [], p_weight = 0\<rparr>"

text \<open>Lines 786 to 858: the tables are taken out, the nodes are made and merged. The
  result is the module, the two maps from a global value to its table index, and the
  nodes of the union-find structure.\<close>

definition partition_setup ::
  "Module \<Rightarrow> partition_error + (Module \<times> (nat \<rightharpoonup> nat) \<times> (nat \<rightharpoonup> nat) \<times> Node list)" where
  "partition_setup M =
     (case get_fvars_gvars M of
        Inl e \<Rightarrow> Inl e
      | Inr (M1, fvars, gvars) \<Rightarrow>
          (case make_nodes (global_values M1) (M1, \<lparr>nodes = [], node_map = Map.empty\<rparr>) of
             Inl e \<Rightarrow> Inl e
           | Inr (M2, P) \<Rightarrow>
               (case merge_all M2 (node_map P) [0 ..< length (nodes P)] (nodes P) of
                  Inl e \<Rightarrow> Inl e
                | Inr ns \<Rightarrow> Inr (M2, fvars, gvars, ns))))"

text \<open>Lines 860 to 868: the partitions, all empty, and the queue that holds them all.\<close>

definition assign_init :: "Node list \<Rightarrow> nat \<Rightarrow> Node list \<times> Partition list \<times> nat list" where
  "assign_init ns threads = (ns, replicate threads empty_partition, [0 ..< threads])"

text \<open>The function: the module as it leaves the function, and the partitions.\<close>

definition partitionModule ::
  "Module \<Rightarrow> nat \<Rightarrow> partition_error + (Module \<times> Partition list)" where
  "partitionModule M threads =
     (case partition_setup M of
        Inl e \<Rightarrow> Inl e
      | Inr (M2, fvars, gvars, ns) \<Rightarrow>
          (case assign_all M2 fvars gvars (sorted_idxs ns) (assign_init ns threads) of
             Inl e \<Rightarrow> Inl e
           | Inr (ns', parts, pq) \<Rightarrow> Inr (M2, parts)))"

subsection \<open>A concrete module\<close>

text \<open>A function \<open>f\<close> with two blocks and the clones attribute \<open>5\<close>, a variable \<open>g\<close>
  used by the initializer of the variable \<open>h\<close>, and a declared function \<open>d\<close>.\<close>

definition gv0 :: GlobalValue where
  "gv0 = \<lparr>gv_kind = GlobalVariableVal, gv_name = [], gv_linkage = InternalLinkage,
     gv_visibility = DefaultVisibility, gv_dso_local = False, gv_function_ty = False,
     gv_blocks = [], gv_initializer = False, gv_always_inline = False, gv_mv_clones = None,
     gv_operands = [], gv_users = []\<rparr>"

definition gv_f :: GlobalValue where
  "gv_f = gv0\<lparr>gv_kind := FunctionVal, gv_name := ''f'', gv_function_ty := True,
     gv_blocks := [3, 2], gv_mv_clones := Some ''5''\<rparr>"

definition gv_g :: GlobalValue where
  "gv_g = gv0\<lparr>gv_name := ''g'', gv_initializer := True, gv_users := [2]\<rparr>"

definition gv_h :: GlobalValue where
  "gv_h = gv0\<lparr>gv_name := ''h'', gv_initializer := True, gv_operands := [1]\<rparr>"

definition gv_d :: GlobalValue where
  "gv_d = gv0\<lparr>gv_kind := FunctionVal, gv_name := ''d'', gv_function_ty := True,
     gv_linkage := ExternalLinkage\<rparr>"

definition mod_ex :: Module where
  "mod_ex = \<lparr>m_values = [Some gv_f, Some gv_g, Some gv_h, Some gv_d],
     jl_fvars = Some [0], jl_gvars = Some [2, 1], jl_fvar_idxs = Some [0],
     jl_gvar_idxs = Some [0, 1]\<rparr>"

section \<open>Materialization of a partition\<close>

text \<open>
  \<open>materializePreserved\<close> works on the module a thread reads back from the serialized
  bytes, which is the module \<open>partitionModule\<close> has left. Bodies, initializers and uses
  are in the model from the start, so \<open>materializeAll\<close> changes nothing here. A global
  value the code creates is put at the end of the store; the positions of all others
  stay. The field \<open>gv_users\<close> is read by \<open>partitionModule\<close> only and is not kept up to
  date here; the uses of a value are its occurrences in the fields \<open>gv_operands\<close>.
\<close>

datatype materialize_error = NullValue

text \<open>Lines 1130 to 1143. \<open>Preserve\<close> holds the values found for the names with the flag
  set. A name without a value gives a null pointer: with the flag set it is put into
  \<open>Preserve\<close>, where it equals no value and is left out here; without the flag it is
  dereferenced. \<open>setLinkage\<close> with a local linkage resets the visibility, as the assertion
  at line 1138 says.\<close>

fun preserve_loop ::
  "(string \<times> bool) list \<Rightarrow> Module \<times> nat list \<Rightarrow> materialize_error + (Module \<times> nat list)" where
  "preserve_loop [] (M, Preserve) = Inr (M, Preserve)"
| "preserve_loop ((name, flag) # rest) (M, Preserve) =
     (case getNamedValue M name of
        None \<Rightarrow> if flag then preserve_loop rest (M, Preserve) else Inl NullValue
      | Some GV \<Rightarrow>
          if \<not> flag then
            (case value_at M GV of
               None \<Rightarrow> Inl NullValue
             | Some G \<Rightarrow>
                 preserve_loop rest
                   (set_value M GV
                      (Some (G\<lparr>gv_linkage := InternalLinkage,
                               gv_visibility := DefaultVisibility\<rparr>)),
                    Preserve))
          else preserve_loop rest (M, Preserve @ [GV]))"

text \<open>\<open>Function::deleteBody\<close> drops the blocks with all their references and sets external
  linkage.\<close>

definition deleteBody :: "GlobalValue \<Rightarrow> GlobalValue" where
  "deleteBody F = F\<lparr>gv_blocks := [], gv_operands := [], gv_linkage := ExternalLinkage\<rparr>"

text \<open>\<open>GlobalVariable::setInitializer(nullptr)\<close>.\<close>

definition dropInitializer :: "GlobalValue \<Rightarrow> GlobalValue" where
  "dropInitializer GV = GV\<lparr>gv_initializer := False, gv_operands := []\<rparr>"

text \<open>Lines 1145 to 1156: the body of the loop over the functions.\<close>

definition strip_function :: "nat list \<Rightarrow> nat \<Rightarrow> Module \<Rightarrow> Module" where
  "strip_function Preserve f M =
     (case value_at M f of
        None \<Rightarrow> M
      | Some F \<Rightarrow>
          if isDeclaration F then M
          else if hasLocalLinkage F then M
          else if f \<in> set Preserve then M
          else set_value M f
                 (Some ((deleteBody F)\<lparr>gv_linkage := ExternalLinkage,
                          gv_visibility := HiddenVisibility, gv_dso_local := True\<rparr>)))"

text \<open>Lines 1158 to 1169: the body of the loop over the global variables.\<close>

definition strip_global :: "nat list \<Rightarrow> nat \<Rightarrow> Module \<Rightarrow> Module" where
  "strip_global Preserve g M =
     (case value_at M g of
        None \<Rightarrow> M
      | Some GV \<Rightarrow>
          if isDeclaration GV then M
          else if g \<in> set Preserve then M
          else if hasLocalLinkage GV then M
          else set_value M g
                 (Some ((dropInitializer GV)\<lparr>gv_linkage := ExternalLinkage,
                          gv_visibility := HiddenVisibility, gv_dso_local := True\<rparr>)))"

text \<open>The function made at lines 1184 to 1187, without a name, with one block that holds
  the instruction \<open>unreachable\<close>; and the variable made at line 1192, with the null value
  as its initializer.\<close>

definition new_function :: GlobalValue where
  "new_function =
     \<lparr>gv_kind = FunctionVal, gv_name = [], gv_linkage = ExternalLinkage,
      gv_visibility = DefaultVisibility, gv_dso_local = False, gv_function_ty = True,
      gv_blocks = [1], gv_initializer = False, gv_always_inline = False, gv_mv_clones = None,
      gv_operands = [], gv_users = []\<rparr>"

definition new_variable :: GlobalValue where
  "new_variable =
     \<lparr>gv_kind = GlobalVariableVal, gv_name = [], gv_linkage = ExternalLinkage,
      gv_visibility = DefaultVisibility, gv_dso_local = False, gv_function_ty = False,
      gv_blocks = [], gv_initializer = True, gv_always_inline = False, gv_mv_clones = None,
      gv_operands = [], gv_users = []\<rparr>"

definition add_value :: "Module \<Rightarrow> GlobalValue \<Rightarrow> Module \<times> nat" where
  "add_value M G = (M\<lparr>m_values := m_values M @ [Some G]\<rparr>, length (m_values M))"

text \<open>Lines 1178 to 1195: the body of the loop over the aliases. \<open>gv_function_ty\<close> of an
  alias is \<open>GA.getValueType()->isFunctionTy()\<close>; \<open>setAliasee\<close> makes the new function the
  only operand of the alias.\<close>

definition alias_step ::
  "nat list \<Rightarrow> nat \<Rightarrow> Module \<times> (nat \<times> nat) list \<Rightarrow> Module \<times> (nat \<times> nat) list" where
  "alias_step Preserve a st =
     (case st of (M, DeletedAliases) \<Rightarrow>
        (case value_at M a of
           None \<Rightarrow> (M, DeletedAliases)
         | Some GA \<Rightarrow>
             if a \<in> set Preserve then (M, DeletedAliases)
             else if hasLocalLinkage GA then (M, DeletedAliases)
             else if gv_function_ty GA then
               (case add_value M new_function of
                  (M1, F) \<Rightarrow>
                    (set_value M1 a (Some (GA\<lparr>gv_operands := [F]\<rparr>)), DeletedAliases @ [(a, F)]))
             else
               (case add_value M new_variable of
                  (M1, GV) \<Rightarrow> (M1, DeletedAliases @ [(a, GV)]))))"

text \<open>Lines 1199 to 1210. \<open>takeName\<close> moves the name of the alias to its replacement;
  \<open>replaceAllUsesWith\<close> puts the replacement wherever the alias is an operand;
  \<open>eraseFromParent\<close> removes the alias; then the replacement loses its body or its
  initializer.\<close>

definition takeName :: "Module \<Rightarrow> nat \<Rightarrow> nat \<Rightarrow> Module" where
  "takeName M r a =
     (case value_at M a of
        None \<Rightarrow> M
      | Some GA \<Rightarrow>
          (case value_at M r of
             None \<Rightarrow> M
           | Some R \<Rightarrow>
               set_value (set_value M r (Some (R\<lparr>gv_name := gv_name GA\<rparr>))) a
                 (Some (GA\<lparr>gv_name := []\<rparr>))))"

definition replaceAllUsesWith :: "Module \<Rightarrow> nat \<Rightarrow> nat \<Rightarrow> Module" where
  "replaceAllUsesWith M old new =
     M\<lparr>m_values :=
         map (map_option
                (\<lambda>G. G\<lparr>gv_operands := map (\<lambda>x. if x = old then new else x) (gv_operands G)\<rparr>))
           (m_values M)\<rparr>"

definition eraseFromParent :: "Module \<Rightarrow> nat \<Rightarrow> Module" where
  "eraseFromParent M a = set_value M a None"

definition strip_replacement :: "Module \<Rightarrow> nat \<Rightarrow> Module" where
  "strip_replacement M r =
     (case value_at M r of
        None \<Rightarrow> M
      | Some R \<Rightarrow>
          set_value M r
            (Some (if gv_kind R = FunctionVal then deleteBody R else dropInitializer R)))"

definition delete_step :: "nat \<times> nat \<Rightarrow> Module \<Rightarrow> Module" where
  "delete_step d M =
     (case d of (a, r) \<Rightarrow>
        strip_replacement (eraseFromParent (replaceAllUsesWith (takeName M r a) a r) a) r)"

definition materializePreserved :: "Module \<Rightarrow> Partition \<Rightarrow> materialize_error + Module" where
  "materializePreserved M P =
     (case preserve_loop (p_globals P) (M, []) of
        Inl e \<Rightarrow> Inl e
      | Inr (M1, Preserve) \<Rightarrow>
          (let M2 = fold (strip_function Preserve) (m_functions M1) M1;
               M3 = fold (strip_global Preserve) (m_globals M2) M2
           in case fold (alias_step Preserve) (m_aliases M3) (M3, []) of
                (M4, DeletedAliases) \<Rightarrow> Inr (fold delete_step DeletedAliases M4)))"

subsection \<open>A module with aliases\<close>

text \<open>A function \<open>f\<close> whose body refers to the alias \<open>af\<close> of the function \<open>g\<close>, and a
  variable \<open>v\<close> with its alias \<open>av\<close>, to which the initializer of the variable \<open>w\<close>
  refers.\<close>

definition mod_al :: Module where
  "mod_al =
     \<lparr>m_values =
        [Some (gv_f\<lparr>gv_linkage := ExternalLinkage, gv_mv_clones := None, gv_operands := [2, 4]\<rparr>),
         Some (gv0\<lparr>gv_kind := FunctionVal, gv_name := ''g'', gv_function_ty := True,
                  gv_blocks := [1], gv_users := [2]\<rparr>),
         Some (gv0\<lparr>gv_kind := GlobalAliasVal, gv_name := ''af'', gv_function_ty := True,
                  gv_linkage := ExternalLinkage, gv_operands := [1]\<rparr>),
         Some (gv0\<lparr>gv_name := ''v'', gv_initializer := True, gv_users := [4]\<rparr>),
         Some (gv0\<lparr>gv_kind := GlobalAliasVal, gv_name := ''av'', gv_operands := [3],
                  gv_users := [5]\<rparr>),
         Some (gv0\<lparr>gv_name := ''w'', gv_initializer := True, gv_operands := [4]\<rparr>)],
      jl_fvars = Some [0, 1], jl_gvars = Some [3], jl_fvar_idxs = Some [0, 1],
      jl_gvar_idxs = Some [0]\<rparr>"

section \<open>The union-find forest\<close>

text \<open>
  \<open>root_of ns i r\<close>: following the parent links from node \<open>i\<close> ends in the root \<open>r\<close>.
  \<open>uf_inv rk ns\<close>: every parent link stays inside the vector and leads to a node of
  larger rank \<open>rk\<close>. In \<open>partitionModule\<close> the weights serve as ranks: a root carries
  the weight of all nodes merged into it.
\<close>

inductive root_of :: "Node list \<Rightarrow> nat \<Rightarrow> nat \<Rightarrow> bool" for ns :: "Node list" where
  root: "i < length ns \<Longrightarrow> n_parent (ns ! i) = i \<Longrightarrow> root_of ns i i"
| step: "i < length ns \<Longrightarrow> n_parent (ns ! i) \<noteq> i \<Longrightarrow> root_of ns (n_parent (ns ! i)) r \<Longrightarrow>
         root_of ns i r"

definition uf_inv :: "(nat \<Rightarrow> nat) \<Rightarrow> Node list \<Rightarrow> bool" where
  "uf_inv rk ns \<longleftrightarrow>
     (\<forall>i < length ns. n_parent (ns ! i) < length ns \<and>
        (n_parent (ns ! i) \<noteq> i \<longrightarrow> rk i < rk (n_parent (ns ! i))))"

definition same_payload :: "Node list \<Rightarrow> Node list \<Rightarrow> bool" where
  "same_payload ns ns' \<longleftrightarrow>
     length ns' = length ns \<and>
     (\<forall>j < length ns. n_GV (ns' ! j) = n_GV (ns ! j) \<and> n_size (ns' ! j) = n_size (ns ! j) \<and>
        n_weight (ns' ! j) = n_weight (ns ! j))"

definition same_comp :: "Node list \<Rightarrow> nat \<Rightarrow> nat \<Rightarrow> bool" where
  "same_comp ns a b \<longleftrightarrow> (\<exists>r. root_of ns a r \<and> root_of ns b r)"

definition wt :: "Node list \<Rightarrow> nat \<Rightarrow> nat" where
  "wt ns i = n_weight (ns ! i)"

subsection \<open>One step of path halving\<close>

definition halve :: "Node list \<Rightarrow> nat \<Rightarrow> Node list" where
  "halve ns i = ns[i := (ns ! i)\<lparr>n_parent := n_parent (ns ! n_parent (ns ! i))\<rparr>]"

subsection \<open>\<open>merge\<close>\<close>

text \<open>During the merging the weights are the ranks, and every weight is positive.\<close>

definition minv :: "Node list \<Rightarrow> bool" where
  "minv ns \<longleftrightarrow> uf_inv (wt ns) ns \<and> (\<forall>i < length ns. 0 < n_weight (ns ! i))"

definition link :: "Node list \<Rightarrow> nat \<Rightarrow> nat \<Rightarrow> Node list" where
  "link ns x y =
     (ns[y := (ns ! y)\<lparr>n_parent := x\<rparr>])
       [x := (ns ! x)\<lparr>n_size := n_size (ns ! x) + n_size (ns ! y),
                      n_weight := n_weight (ns ! x) + n_weight (ns ! y)\<rparr>]"

section \<open>Well-formed inputs of the partitioning\<close>

text \<open>A definition that can be partitioned: what the loop at lines 834 to 846 makes a
  node for.\<close>

definition partitionable :: "Module \<Rightarrow> nat \<Rightarrow> bool" where
  "partitionable M g =
     (case value_at M g of None \<Rightarrow> False | Some G \<Rightarrow> \<not> isDeclaration G \<and> canPartition G)"

definition name_of :: "Module \<Rightarrow> nat \<Rightarrow> string" where
  "name_of M g = (case value_at M g of None \<Rightarrow> [] | Some G \<Rightarrow> gv_name G)"

definition partitionable_ids :: "Module \<Rightarrow> nat list" where
  "partitionable_ids M = filter (partitionable M) (global_values M)"

text \<open>
  What the code takes for granted about the module it partitions (its assertions say
  so): the four tables are there; the definitions to be partitioned have pairwise
  different names (the symbol table of a module keeps names unique, and \<open>add_output\<close>
  names every definition first); every user \<open>ConstantUses\<close> reports for such a
  definition is such a definition itself (the assertion at line 855); and the clones
  attribute of every function is a string \<open>APInt\<close> reads.
\<close>

definition wf_module :: "Module \<Rightarrow> bool" where
  "wf_module M \<longleftrightarrow>
     jl_fvars M \<noteq> None \<and> jl_gvars M \<noteq> None \<and> jl_fvar_idxs M \<noteq> None \<and> jl_gvar_idxs M \<noteq> None \<and>
     distinct (map (name_of M) (partitionable_ids M)) \<and>
     (\<forall>g \<in> set (partitionable_ids M). \<forall>v \<in> set (users_of M g). partitionable M v) \<and>
     (\<forall>g \<in> set (partitionable_ids M).
        case value_at M g of None \<Rightarrow> False | Some G \<Rightarrow> node_weight G \<noteq> None)"

text \<open>The index tables hold pairwise different definitions that can be partitioned (the
  assertions of \<open>get_fvars_gvars\<close> and of \<open>construct_vars\<close>).\<close>

definition wf_table :: "Module \<Rightarrow> nat list option \<Rightarrow> bool" where
  "wf_table M t =
     (case t of None \<Rightarrow> False | Some xs \<Rightarrow> distinct xs \<and> (\<forall>g \<in> set xs. partitionable M g))"

text \<open>Two modules that differ in linkage and visibility of their values only.\<close>

definition core :: "GlobalValue \<Rightarrow> GlobalValue" where
  "core G = G\<lparr>gv_linkage := ExternalLinkage, gv_visibility := DefaultVisibility\<rparr>"

definition same_shape :: "Module \<Rightarrow> Module \<Rightarrow> bool" where
  "same_shape M M' \<longleftrightarrow>
     length (m_values M') = length (m_values M) \<and>
     (\<forall>g. map_option core (value_at M' g) = map_option core (value_at M g))"

text \<open>The nodes made so far, for the module \<open>M\<close>.\<close>

definition nodes_ok :: "Module \<Rightarrow> Partitioner \<Rightarrow> bool" where
  "nodes_ok M P \<longleftrightarrow>
     (\<forall>i < length (nodes P).
        n_parent (nodes P ! i) = i \<and> 0 < n_weight (nodes P ! i) \<and>
        node_map P (n_GV (nodes P ! i)) = Some i \<and> partitionable M (n_GV (nodes P ! i))) \<and>
     (\<forall>g idx. node_map P g = Some idx \<longrightarrow> idx < length (nodes P) \<and> n_GV (nodes P ! idx) = g)"

section \<open>The assignment loop\<close>

text \<open>
  The state of the loop at lines 879 to 913 after the indices in \<open>D\<close> have been
  handled, for the nodes \<open>ns0\<close> the merging left and \<open>T\<close> partitions: the forest is
  the one of \<open>ns0\<close> up to path halving; a node not yet handled has its weight; a node
  handled has weight 0, holds the index of its partition in \<open>size\<close>, and so does its
  root; the queue holds every partition; and partition \<open>p\<close> holds exactly the names
  and table indices of the handled nodes with \<open>size = p\<close>, once each.
\<close>

definition node_name :: "Module \<Rightarrow> Node list \<Rightarrow> nat \<Rightarrow> string" where
  "node_name M ns0 j = name_of M (n_GV (ns0 ! j))"

definition assigned :: "nat set \<Rightarrow> Node list \<Rightarrow> nat \<Rightarrow> nat set" where
  "assigned D ns p = {j \<in> D. n_size (ns ! j) = p}"

definition table_entries ::
  "Module \<Rightarrow> (nat \<rightharpoonup> nat) \<Rightarrow> Node list \<Rightarrow> nat set \<Rightarrow> (string \<times> nat) set" where
  "table_entries M tab ns0 A = {(node_name M ns0 j, k) | j k. j \<in> A \<and> tab (n_GV (ns0 ! j)) = Some k}"

definition part_ok ::
  "Module \<Rightarrow> (nat \<rightharpoonup> nat) \<Rightarrow> (nat \<rightharpoonup> nat) \<Rightarrow> Node list \<Rightarrow> nat set \<Rightarrow> Partition \<Rightarrow> bool" where
  "part_ok M fvars gvars ns0 A P \<longleftrightarrow>
     set (p_globals P) = (\<lambda>j. (node_name M ns0 j, True)) ` A \<and>
     set (p_fvars P) = table_entries M fvars ns0 A \<and>
     set (p_gvars P) = table_entries M gvars ns0 A \<and>
     distinct (map fst (p_globals P)) \<and> distinct (map fst (p_fvars P)) \<and>
     distinct (map fst (p_gvars P))"

definition ainv ::
  "Module \<Rightarrow> (nat \<rightharpoonup> nat) \<Rightarrow> (nat \<rightharpoonup> nat) \<Rightarrow> Node list \<Rightarrow> nat \<Rightarrow> nat set \<Rightarrow>
   Node list \<times> Partition list \<times> nat list \<Rightarrow> bool" where
  "ainv M fvars gvars ns0 T D st \<longleftrightarrow>
     (case st of (ns, parts, pq) \<Rightarrow>
        length ns = length ns0 \<and> uf_inv (wt ns0) ns \<and>
        (\<forall>j r. root_of ns0 j r \<longrightarrow> root_of ns j r) \<and>
        (\<forall>j < length ns0. n_GV (ns ! j) = n_GV (ns0 ! j)) \<and>
        (\<forall>j < length ns0. j \<notin> D \<longrightarrow> n_weight (ns ! j) = n_weight (ns0 ! j)) \<and>
        (\<forall>j \<in> D. j < length ns0 \<and> n_weight (ns ! j) = 0 \<and> n_size (ns ! j) < T \<and>
           (\<forall>r. root_of ns0 j r \<longrightarrow> r \<in> D \<and> n_size (ns ! r) = n_size (ns ! j))) \<and>
        length parts = T \<and> set pq = {..< T} \<and>
        (\<forall>p < T. part_ok M fvars gvars ns0 (assigned D ns p) (parts ! p)))"

section \<open>The weight a root accumulates\<close>

text \<open>
  \<open>node_w M g\<close> is the weight the node of the global value \<open>g\<close> is made with, and
  \<open>comp_weight M ns r\<close> the sum of these weights over the nodes whose root is \<open>r\<close>: the
  weight of the connected component of \<open>r\<close>. \<open>sum_inv\<close>: every root carries the weight
  of its component.
\<close>

definition node_w :: "Module \<Rightarrow> nat \<Rightarrow> nat" where
  "node_w M g =
     (case value_at M g of
        None \<Rightarrow> 0
      | Some G \<Rightarrow> (case node_weight G of None \<Rightarrow> 0 | Some w \<Rightarrow> w))"

definition comp_weight :: "Module \<Rightarrow> Node list \<Rightarrow> nat \<Rightarrow> nat" where
  "comp_weight M ns r = (\<Sum>j \<in> {j. root_of ns j r}. node_w M (n_GV (ns ! j)))"

definition sum_inv :: "Module \<Rightarrow> Node list \<Rightarrow> bool" where
  "sum_inv M ns \<longleftrightarrow> (\<forall>r. root_of ns r r \<longrightarrow> n_weight (ns ! r) = comp_weight M ns r)"

text \<open>
  What \<open>partitionModule\<close> returns on a well-formed module, in terms of the global
  values: a map \<open>shard\<close> from every definition that can be partitioned to the index of
  its partition, such that partition \<open>p\<close> holds exactly the names of the definitions
  mapped to \<open>p\<close> and their table indices, and such that a definition and its users are
  mapped to the same partition.
\<close>

definition partition_result ::
  "Module \<Rightarrow> nat \<Rightarrow> Module \<Rightarrow> Partition list \<Rightarrow> (nat \<Rightarrow> nat) \<Rightarrow> nat list \<Rightarrow> nat list \<Rightarrow> bool" where
  "partition_result M T M2 parts shard F G \<longleftrightarrow>
      partitionModule M T = Inr (M2, parts) \<and> length parts = T \<and> same_shape M M2 \<and>
      jl_fvars M = Some F \<and> jl_gvars M = Some G \<and>
      (\<forall>g. partitionable M g \<longrightarrow> shard g < T) \<and>
      (\<forall>p < T. set (p_globals (parts ! p)) =
         (\<lambda>g. (name_of M g, True)) ` {g. partitionable M g \<and> shard g = p}) \<and>
      (\<forall>p < T. set (p_fvars (parts ! p)) =
         {(name_of M g, k) | g k. partitionable M g \<and> shard g = p \<and>
            index_map F 0 Map.empty g = Some k}) \<and>
      (\<forall>p < T. set (p_gvars (parts ! p)) =
         {(name_of M g, k) | g k. partitionable M g \<and> shard g = p \<and>
            index_map G 0 Map.empty g = Some k}) \<and>
      (\<forall>g. partitionable M g \<longrightarrow> (\<forall>v \<in> set (users_of M g). shard v = shard g)) \<and>
      (\<forall>g. partitionable M g \<longrightarrow>
         (\<exists>G'. value_at M2 g = Some G' \<and> gv_linkage G' = ExternalLinkage \<and>
               gv_visibility G' = HiddenVisibility)) \<and>
      (\<forall>p < T. distinct (map fst (p_globals (parts ! p)))) \<and>
      (\<forall>p < T. distinct (map fst (p_fvars (parts ! p))) \<and> distinct (map fst (p_gvars (parts ! p))))"

section \<open>The phases of the materialization\<close>

text \<open>
  \<open>stripped V V'\<close>: the value \<open>V'\<close> is \<open>V\<close>, or it is the function or variable \<open>V\<close>
  turned into a declaration without operands. \<open>strip_rel\<close>: two modules related so,
  value by value. \<open>is_placeholder\<close>: a value made for an alias, up to its name and its
  operands. \<open>rho\<close>: the replacements of \<open>replaceAllUsesWith\<close>, one after the other.
\<close>

definition stripped :: "GlobalValue \<Rightarrow> GlobalValue \<Rightarrow> bool" where
  "stripped V V' \<longleftrightarrow>
     V' = V \<or>
     (gv_kind V \<noteq> GlobalAliasVal \<and> gv_kind V' = gv_kind V \<and> gv_name V' = gv_name V \<and>
      gv_operands V' = [] \<and> isDeclaration V')"

definition strip_rel :: "Module \<Rightarrow> Module \<Rightarrow> bool" where
  "strip_rel M M' \<longleftrightarrow>
     length (m_values M') = length (m_values M) \<and>
     (\<forall>j. case value_at M j of
            None \<Rightarrow> value_at M' j = None
          | Some V \<Rightarrow> (\<exists>V'. value_at M' j = Some V' \<and> stripped V V'))"

definition is_placeholder :: "GlobalValue \<Rightarrow> bool" where
  "is_placeholder R \<longleftrightarrow>
     (gv_kind R = FunctionVal \<and> \<not> gv_initializer R) \<or>
     (gv_kind R = GlobalVariableVal \<and> gv_blocks R = [])"

definition rho :: "(nat \<times> nat) list \<Rightarrow> nat \<Rightarrow> nat" where
  "rho ds x = fold (\<lambda>d y. if y = fst d then snd d else y) ds x"

text \<open>The state of the loop over the aliases of the module \<open>B\<close>: a new value for every
  alias in \<open>DeletedAliases\<close>, behind the values of \<open>B\<close>; no other value has changed.\<close>

definition alias_inv :: "nat list \<Rightarrow> Module \<Rightarrow> Module \<times> (nat \<times> nat) list \<Rightarrow> bool" where
  "alias_inv Preserve B st \<longleftrightarrow>
     (case st of (M, Del) \<Rightarrow>
        length (m_values M) = length (m_values B) + length Del \<and>
        map snd Del = [length (m_values B) ..< length (m_values B) + length Del] \<and>
        distinct (map fst Del) \<and>
        (\<forall>j < length (m_values B). j \<notin> fst ` set Del \<longrightarrow> value_at M j = value_at B j) \<and>
        (\<forall>d \<in> set Del.
           fst d \<notin> set Preserve \<and>
           (\<exists>GA GA' R. value_at B (fst d) = Some GA \<and> gv_kind GA = GlobalAliasVal \<and>
              value_at M (fst d) = Some GA' \<and> gv_name GA' = gv_name GA \<and>
              value_at M (snd d) = Some R \<and> is_placeholder R)))"

text \<open>The state of the last loop, for the module \<open>B\<close> it starts with: the pairs \<open>dn\<close> are
  done, the pairs \<open>ps\<close> are still to do.\<close>

definition del_inv :: "Module \<Rightarrow> (nat \<times> nat) list \<Rightarrow> (nat \<times> nat) list \<Rightarrow> Module \<Rightarrow> bool" where
  "del_inv B dn ps M \<longleftrightarrow>
     (\<forall>d \<in> set ps. \<exists>GA R. value_at M (fst d) = Some GA \<and> gv_name GA = name_of B (fst d) \<and>
        value_at M (snd d) = Some R \<and> is_placeholder R) \<and>
     (\<forall>d \<in> set dn. value_at M (fst d) = None \<and>
        (\<exists>R. value_at M (snd d) = Some R \<and> gv_name R = name_of B (fst d) \<and>
           gv_kind R \<noteq> GlobalAliasVal \<and> gv_blocks R = [] \<and> \<not> gv_initializer R \<and>
           gv_operands R = [])) \<and>
     (\<forall>j V. value_at M j = Some V \<longrightarrow> (\<forall>d \<in> set dn. fst d \<notin> set (gv_operands V))) \<and>
     (\<forall>j. j \<notin> fst ` set (dn @ ps) \<longrightarrow> j \<notin> snd ` set (dn @ ps) \<longrightarrow>
        value_at M j =
          map_option (\<lambda>V. V\<lparr>gv_operands := map (rho dn) (gv_operands V)\<rparr>) (value_at B j))"

section \<open>Properties of the thread count\<close>

lemmas ctc_defs = compute_image_thread_count_def default_threads_def apply_env_threads_def apply_fallback_def

text \<open>
  Claim C9. When the total weight is below 1000, or the target is COFF with more than
  64000 globals, the function returns 1 and prints nothing, whatever the environment
  holds: the return comes before \<open>JULIA_IMAGE_THREADS\<close> is read, so a valid
  override cannot raise the count.
\<close>

theorem forced_single_thread_before_override:
  "weight info < 1000 \<or> (isOSBinFormatCOFF (triple info) \<and> 64000 < globals info) \<Longrightarrow>
   compute_image_thread_count info env = (1, [])"
  by (auto simp: compute_image_thread_count_def)

text \<open>
  Claim C6, amended. Without the two environment variables the count is 1 on a build
  with \<open>_P32\<close>, when the weight is below 1000, and for COFF with more than 64000
  globals; otherwise it is half the hardware threads (at least 1), capped by
  \<open>globals / 100\<close>, and at least 1 in the end.
\<close>

theorem thread_count_without_overrides:
  "JULIA_IMAGE_THREADS env = None \<Longrightarrow> JULIA_CPU_THREADS env = None \<Longrightarrow>
   compute_image_thread_count info env =
     (if P32 env \<or> weight info < 1000 \<or> (isOSBinFormatCOFF (triple info) \<and> 64000 < globals info)
      then 1
      else max (min (nat (max (half_int (cpu_threads env)) 1)) (globals info div 100)) 1, [])"
  by (auto simp: ctc_defs Let_def min_def max_def)

lemma compute_reached:
  assumes "\<not> P32 env" "1000 \<le> weight info"
      "\<not> (isOSBinFormatCOFF (triple info) \<and> 64000 < globals info)"
  shows "compute_image_thread_count info env =
     (let r1 = apply_env_threads (JULIA_IMAGE_THREADS env) (default_threads info env);
          r2 = apply_fallback (JULIA_CPU_THREADS env) (fst (snd r1)) (fst r1)
      in (max (fst r2) 1, snd (snd r1) @ snd r2))"
  using assms by (auto simp: compute_image_thread_count_def Let_def split: prod.splits)

lemma default_threads_env [simp]:
  "default_threads info (env\<lparr>JULIA_IMAGE_THREADS := x\<rparr>) = default_threads info env"
  by (simp add: default_threads_def)

lemma apply_env_threads_malformed:
  "strtoul10 s = (requested, endptr) \<Longrightarrow> endptr \<noteq> [] \<or> requested = 0 \<Longrightarrow>
   apply_env_threads (Some s) t = (t, False, [InvalidImageThreads s])"
  by (simp add: apply_env_threads_def)

lemma apply_env_threads_wellformed:
  "strtoul10 s = (requested, []) \<Longrightarrow> requested \<noteq> 0 \<Longrightarrow>
   apply_env_threads (Some s) t = (requested mod 2 ^ 32, True, [])"
  by (simp add: apply_env_threads_def)

lemma apply_env_threads_None: "apply_env_threads None t = (t, False, [])"
  by (simp add: apply_env_threads_def)

lemma apply_fallback_set: "apply_fallback fb True t = (t, [])"
  by (simp add: apply_fallback_def)

lemma apply_fallback_le: "fst (apply_fallback fb b t) \<le> t"
  by (simp add: apply_fallback_def split: option.splits prod.splits)

lemma apply_fallback_Some:
  "strtoul10 s = (requested, endptr) \<Longrightarrow>
   fst (apply_fallback (Some s) False t) =
     (if endptr = [] \<and> requested \<noteq> 0 \<and> 1 < t \<and> requested < t then requested else t)"
  by (simp add: apply_fallback_def)

text \<open>
  What the function does with the two variables, on the path that reaches them (no
  forced return of 1): a value of \<open>JULIA_IMAGE_THREADS\<close> with text after the number, or
  with the number 0, adds one warning and leaves the result what it is without the
  variable; a well-formed value is stored in the 32 bits of the count, which is made at
  least 1 at the end, so a value below \<open>2^32\<close> is the result; then \<open>JULIA_CPU_THREADS\<close>
  is neither read nor warned about; without an accepted \<open>JULIA_IMAGE_THREADS\<close> the
  fallback never raises the count and takes effect only when it is well-formed and
  smaller than a count above 1.
\<close>

lemma override_handling:
  assumes reach: "\<not> P32 env" "1000 \<le> weight info"
      "\<not> (isOSBinFormatCOFF (triple info) \<and> 64000 < globals info)"
  shows "(\<forall>s requested endptr.
            JULIA_IMAGE_THREADS env = Some s \<and> strtoul10 s = (requested, endptr) \<and>
            (endptr \<noteq> [] \<or> requested = 0) \<longrightarrow>
            compute_image_thread_count info env =
              (fst (compute_image_thread_count info (env\<lparr>JULIA_IMAGE_THREADS := None\<rparr>)),
               InvalidImageThreads s #
                 snd (compute_image_thread_count info (env\<lparr>JULIA_IMAGE_THREADS := None\<rparr>))))
       \<and> (\<forall>s requested.
            JULIA_IMAGE_THREADS env = Some s \<and> strtoul10 s = (requested, []) \<and> requested \<noteq> 0 \<longrightarrow>
            compute_image_thread_count info env = (max (requested mod 2 ^ 32) 1, []) \<and>
            (requested < 2 ^ 32 \<longrightarrow> fst (compute_image_thread_count info env) = requested))
       \<and> (JULIA_IMAGE_THREADS env = None \<longrightarrow>
            fst (compute_image_thread_count info env) \<le> max (default_threads info env) 1 \<and>
            (\<forall>s requested endptr.
               JULIA_CPU_THREADS env = Some s \<and> strtoul10 s = (requested, endptr) \<longrightarrow>
               fst (compute_image_thread_count info env) =
                 (if endptr = [] \<and> requested \<noteq> 0 \<and> 1 < default_threads info env \<and>
                     requested < default_threads info env
                  then requested else max (default_threads info env) 1)))"
proof (intro conjI allI impI)
  fix s requested endptr
  assume a: "JULIA_IMAGE_THREADS env = Some s \<and> strtoul10 s = (requested, endptr) \<and>
            (endptr \<noteq> [] \<or> requested = 0)"
  have r': "\<not> P32 (env\<lparr>JULIA_IMAGE_THREADS := None\<rparr>)" using reach by simp
  from a have e: "apply_env_threads (Some s) (default_threads info env) =
      (default_threads info env, False, [InvalidImageThreads s])"
    using apply_env_threads_malformed by blast
  show "compute_image_thread_count info env =
              (fst (compute_image_thread_count info (env\<lparr>JULIA_IMAGE_THREADS := None\<rparr>)),
               InvalidImageThreads s #
                 snd (compute_image_thread_count info (env\<lparr>JULIA_IMAGE_THREADS := None\<rparr>)))"
    using a e
    by (simp add: compute_reached [OF reach] compute_reached [OF r' reach(2,3)]
          apply_env_threads_None Let_def)
next
  fix s requested
  assume a: "JULIA_IMAGE_THREADS env = Some s \<and> strtoul10 s = (requested, []) \<and> requested \<noteq> 0"
  then have e: "apply_env_threads (Some s) (default_threads info env) =
      (requested mod 2 ^ 32, True, [])"
    using apply_env_threads_wellformed by blast
  show c: "compute_image_thread_count info env = (max (requested mod 2 ^ 32) 1, [])"
    using a e by (simp add: compute_reached [OF reach] apply_fallback_set Let_def)
  show "fst (compute_image_thread_count info env) = requested" if "requested < 2 ^ 32"
    using that a by (simp add: c max_def)
next
  assume n: "JULIA_IMAGE_THREADS env = None"
  have "fst (apply_fallback (JULIA_CPU_THREADS env) False (default_threads info env))
      \<le> default_threads info env"
    by (rule apply_fallback_le)
  then show "fst (compute_image_thread_count info env) \<le> max (default_threads info env) 1"
    using n by (simp add: compute_reached [OF reach] apply_env_threads_None Let_def max_def)
next
  fix s requested endptr
  assume n: "JULIA_IMAGE_THREADS env = None"
    and a: "JULIA_CPU_THREADS env = Some s \<and> strtoul10 s = (requested, endptr)"
  from a have "fst (apply_fallback (Some s) False (default_threads info env)) =
     (if endptr = [] \<and> requested \<noteq> 0 \<and> 1 < default_threads info env \<and>
         requested < default_threads info env then requested else default_threads info env)"
    using apply_fallback_Some by blast
  then show "fst (compute_image_thread_count info env) =
                 (if endptr = [] \<and> requested \<noteq> 0 \<and> 1 < default_threads info env \<and>
                     requested < default_threads info env
                  then requested else max (default_threads info env) 1)"
    using n a by (simp add: compute_reached [OF reach] apply_env_threads_None Let_def max_def)
qed

lemmas ex_defs = info_ex_def env_ex_def isOSBinFormatCOFF_def

lemmas strtoul_defs = strtoul10_def isspace_def isdigit_def digit_value_def ULONG_MAX_def

text \<open>
  The claim as the specification states it has two cases only. On a build with
  \<open>_P32\<close> the function returns 1 although neither case holds and the second case of
  the claim gives 4.
\<close>

theorem thread_count_claim_counterexample:
  "JULIA_IMAGE_THREADS (env_ex\<lparr>P32 := True\<rparr>) = None \<and>
   JULIA_CPU_THREADS (env_ex\<lparr>P32 := True\<rparr>) = None \<and>
   \<not> (weight info_ex < 1000 \<or> (isOSBinFormatCOFF (triple info_ex) \<and> 64000 < globals info_ex)) \<and>
   fst (compute_image_thread_count info_ex (env_ex\<lparr>P32 := True\<rparr>)) = 1 \<and>
   max (min (nat (max (half_int (cpu_threads (env_ex\<lparr>P32 := True\<rparr>))) 1)) (globals info_ex div 100)) 1 = 4"
  by (simp add: compute_image_thread_count_def ex_defs half_int_def)

theorem thread_count_without_overrides_witness:
  "JULIA_IMAGE_THREADS env_ex = None \<and> JULIA_CPU_THREADS env_ex = None \<and>
   compute_image_thread_count info_ex env_ex = (4, [])"
  using thread_count_without_overrides [of env_ex info_ex]
  by (simp add: ex_defs half_int_def)

theorem forced_single_thread_before_override_witness:
  "weight (info_ex\<lparr>weight := 999\<rparr>) < 1000 \<and>
   strtoul10 ''8'' = (8, []) \<and>
   compute_image_thread_count (info_ex\<lparr>weight := 999\<rparr>)
     (env_ex\<lparr>JULIA_IMAGE_THREADS := Some ''8''\<rparr>) = (1, [])"
  using forced_single_thread_before_override
    [of "info_ex\<lparr>weight := 999\<rparr>" "env_ex\<lparr>JULIA_IMAGE_THREADS := Some ''8''\<rparr>"]
  by (simp add: ex_defs strtoul_defs)

lemma override_handling_example:
  "compute_image_thread_count info_ex
     (env_ex\<lparr>JULIA_IMAGE_THREADS := Some ''3x'', JULIA_CPU_THREADS := Some ''2''\<rparr>) =
     (2, [InvalidImageThreads ''3x'']) \<and>
   compute_image_thread_count info_ex
     (env_ex\<lparr>JULIA_IMAGE_THREADS := Some ''16'', JULIA_CPU_THREADS := Some ''2''\<rparr>) = (16, [])"
proof -
  have s1: "strtoul10 ''3x'' = (3, ''x'')" by (simp add: strtoul_defs)
  have s2: "strtoul10 ''16'' = (16, [])" by (simp add: strtoul_defs)
  have s3: "strtoul10 ''2'' = (2, [])" by (simp add: strtoul_defs)
  have d: "default_threads info_ex env_ex = 4"
    by (simp add: default_threads_def ex_defs half_int_def)
  have r: "\<not> P32 env_ex" "1000 \<le> weight info_ex"
    "\<not> (isOSBinFormatCOFF (triple info_ex) \<and> 64000 < globals info_ex)"
    by (simp_all add: ex_defs)
  have n: "compute_image_thread_count info_ex (env_ex\<lparr>JULIA_CPU_THREADS := Some ''2''\<rparr>) = (2, [])"
    by (simp add: ctc_defs ex_defs half_int_def s3)
  show ?thesis
    using override_handling [of "env_ex\<lparr>JULIA_IMAGE_THREADS := Some ''3x'', JULIA_CPU_THREADS := Some ''2''\<rparr>" info_ex]
      override_handling [of "env_ex\<lparr>JULIA_IMAGE_THREADS := Some ''16'', JULIA_CPU_THREADS := Some ''2''\<rparr>" info_ex]
      r s1 s2 n
    by (simp add: env_ex_def)
qed

text \<open>
  Claim C8. The claim has every well-formed value of \<open>JULIA_IMAGE_THREADS\<close> replace the
  computed count. The code reads the value into an \<open>unsigned long\<close>, rejects 0 with a
  warning, and stores any other value in the 32-bit count without a check of its
  range. With the inputs \<open>info_ex\<close> and \<open>env_ex\<close> the count without the variable is 4.
  The value \<open>4294967296\<close> is read whole, is accepted without a warning, becomes 0 in
  the count, and the function returns 1; the value \<open>-1\<close> is accepted as 4294967295.
\<close>

theorem image_threads_override_truncated:
  "compute_image_thread_count info_ex env_ex = (4, []) \<and>
   strtoul10 ''4294967296'' = (4294967296, []) \<and>
   compute_image_thread_count info_ex
     (env_ex\<lparr>JULIA_IMAGE_THREADS := Some ''4294967296''\<rparr>) = (1, []) \<and>
   strtoul10 ''-1'' = (18446744073709551615, []) \<and>
   compute_image_thread_count info_ex
     (env_ex\<lparr>JULIA_IMAGE_THREADS := Some ''-1''\<rparr>) = (4294967295, [])"
proof -
  have s1: "strtoul10 ''4294967296'' = (4294967296, [])" by (simp add: strtoul_defs)
  have s2: "strtoul10 ''-1'' = (18446744073709551615, [])" by (simp add: strtoul_defs)
  have d: "default_threads info_ex env_ex = 4"
    by (simp add: default_threads_def ex_defs half_int_def)
  have r: "\<not> P32 env_ex" by (simp add: ex_defs)
  have 0: "compute_image_thread_count info_ex env_ex = (4, [])"
    by (simp add: ctc_defs ex_defs half_int_def)
  have 1: "compute_image_thread_count info_ex
     (env_ex\<lparr>JULIA_IMAGE_THREADS := Some ''4294967296''\<rparr>) = (1, [])"
    using r by (simp add: ctc_defs ex_defs half_int_def s1)
  have 2: "compute_image_thread_count info_ex
     (env_ex\<lparr>JULIA_IMAGE_THREADS := Some ''-1''\<rparr>) = (4294967295, [])"
    using r by (simp add: ctc_defs ex_defs half_int_def s2)
  from 0 s1 1 s2 2 show ?thesis by (intro conjI)
qed

section \<open>Properties of the archive member names\<close>

lemma shard_members_names:
  "shard_members field prefix suffix data_outputs i k = Inr ms \<Longrightarrow>
   map fst ms = map (\<lambda>j. ''text'' @ prefix @ ''#'' @ decimal j @ suffix) [i ..< i + k]"
proof (induction k arbitrary: i ms)
  case 0
  then show ?case by simp
next
  case (Suc k)
  then obtain ms' where ms': "shard_members field prefix suffix data_outputs (Suc i) k = Inr ms'"
    and ms: "ms = (''text'' @ prefix @ ''#'' @ decimal i @ suffix, field (data_outputs ! i)) # ms'"
    by (auto split: if_splits sum.splits)
  have "[i ..< i + Suc k] = i # [Suc i ..< Suc i + k]"
    by (simp add: upt_conv_Cons)
  with Suc.IH [OF ms'] ms show ?case by simp
qed

lemma shard_members_total:
  "i + k \<le> length data_outputs \<Longrightarrow> \<exists>ms. shard_members field prefix suffix data_outputs i k = Inr ms"
proof (induction k arbitrary: i)
  case 0
  then show ?case by simp
next
  case (Suc k)
  then have "\<exists>ms. shard_members field prefix suffix data_outputs (Suc i) k = Inr ms" by simp
  with Suc.prems show ?case by auto
qed

text \<open>
  Claim C10. For every output kind that is requested (a file name is given), with one
  output per shard, a metadata output and, when \<open>z\<close> is supplied, a system image
  output at hand, the archive lists one member per shard in ascending shard index, named
  \<open>text\<close>, the kind's infix, \<open>#\<close> and the index in decimal (followed by the kind's
  file extension), then the one metadata member, then the one \<open>sysimg\<close> member if and
  only if \<open>z\<close> was supplied.
\<close>

theorem archive_member_names:
  assumes "length data_outputs = threads" "metadata_outputs \<noteq> []" "z \<longrightarrow> sysimg_outputs \<noteq> []"
  shows "\<exists>ms. WRITE_ARCHIVE (Some f) field prefix suffix threads data_outputs metadata_outputs z
             sysimg_outputs = Inr (Some (f, ms)) \<and>
           map fst ms =
             map (\<lambda>i. ''text'' @ prefix @ ''#'' @ decimal i @ suffix) [0 ..< threads] @
             [''metadata'' @ prefix @ suffix] @
             (if z then [''sysimg'' @ prefix @ suffix] else [])"
proof -
  obtain ms where ms: "shard_members field prefix suffix data_outputs 0 threads = Inr ms"
    using shard_members_total [of 0 threads data_outputs field prefix suffix] assms(1) by auto
  from shard_members_names [OF ms] assms(2,3) ms show ?thesis
    by (simp add: WRITE_ARCHIVE_def)
qed

lemma decimal_small: "n < 10 \<Longrightarrow> decimal n = [digit_char n]"
  by (simp add: decimal.simps)

theorem archive_member_names_witness:
  "\<exists>ms. WRITE_ARCHIVE (Some ''sys.a'') out_opt ''_opt'' ''.bc'' 2 outs_ex [hd outs_ex] True [hd outs_ex]
           = Inr (Some (''sys.a'', ms)) \<and>
     map fst ms = [''text_opt#0.bc'', ''text_opt#1.bc'', ''metadata_opt.bc'', ''sysimg_opt.bc'']"
  using archive_member_names [of outs_ex 2 "[hd outs_ex]" True "[hd outs_ex]" "''sys.a''" out_opt "''_opt''" "''.bc''"]
  by (simp add: outs_ex_def upt_conv_Cons decimal_small digit_char_def)

section \<open>Properties of the weights\<close>

lemma countPopulation_0 [simp]: "countPopulation 0 = 0"
  by (simp add: countPopulation.simps)

lemma countPopulation_unfold: "countPopulation n = n mod 2 + countPopulation (n div 2)"
  by (subst countPopulation.simps) simp

lemma countPopulation_nibble:
  "countPopulation n =
     n mod 2 + n div 2 mod 2 + n div 4 mod 2 + n div 8 mod 2 + countPopulation (n div 16)"
proof -
  have 1: "n div 2 div 2 = n div 4" by (simp add: div_mult2_eq [symmetric])
  have 2: "n div 4 div 2 = n div 8" by (simp add: div_mult2_eq [symmetric])
  have 3: "n div 8 div 2 = n div 16" by (simp add: div_mult2_eq [symmetric])
  have "countPopulation n = n mod 2 + countPopulation (n div 2)"
    by (rule countPopulation_unfold)
  also have "countPopulation (n div 2) = n div 2 mod 2 + countPopulation (n div 4)"
    using countPopulation_unfold [of "n div 2"] by (simp only: 1)
  also have "countPopulation (n div 4) = n div 4 mod 2 + countPopulation (n div 8)"
    using countPopulation_unfold [of "n div 4"] by (simp only: 2)
  also have "countPopulation (n div 8) = n div 8 mod 2 + countPopulation (n div 16)"
    using countPopulation_unfold [of "n div 8"] by (simp only: 3)
  finally show ?thesis by simp
qed

text \<open>Appending one hexadecimal digit adds the one-bits of the digit.\<close>

lemma div_mult_add_nat: "(k * m * a + (d::nat)) div k = (if k = 0 then 0 else m * a + d div k)"
  by (simp add: mult.assoc)

lemma mod_2_mult_add_nat: "(2 * m * a + (x::nat)) mod 2 = x mod 2"
  by (simp add: mult.assoc)

lemma countPopulation_hex_digit:
  assumes "d < 16"
  shows "countPopulation (16 * a + d) = countPopulation a + countPopulation d"
proof -
  have d2: "(16 * a + d) div 2 = 8 * a + d div 2" using div_mult_add_nat [of 2 8 a d] by simp
  have d4: "(16 * a + d) div 4 = 4 * a + d div 4" using div_mult_add_nat [of 4 4 a d] by simp
  have d8: "(16 * a + d) div 8 = 2 * a + d div 8" using div_mult_add_nat [of 8 2 a d] by simp
  have 0: "(16 * a + d) mod 2 = d mod 2" using mod_2_mult_add_nat [of 8 a d] by simp
  have 1: "(16 * a + d) div 2 mod 2 = d div 2 mod 2"
    unfolding d2 using mod_2_mult_add_nat [of 4 a "d div 2"] by simp
  have 2: "(16 * a + d) div 4 mod 2 = d div 4 mod 2"
    unfolding d4 using mod_2_mult_add_nat [of 2 a "d div 4"] by simp
  have 3: "(16 * a + d) div 8 mod 2 = d div 8 mod 2"
    unfolding d8 by simp
  have 4: "(16 * a + d) div 16 = a" using assms by simp
  have 5: "d div 16 = 0" using assms by simp
  have "countPopulation (16 * a + d) =
      d mod 2 + d div 2 mod 2 + d div 4 mod 2 + d div 8 mod 2 + countPopulation a"
    by (subst countPopulation_nibble) (simp only: 0 1 2 3 4)
  moreover have "countPopulation d = d mod 2 + d div 2 mod 2 + d div 4 mod 2 + d div 8 mod 2"
    by (subst countPopulation_nibble) (simp only: 5 countPopulation_0 add_0_right)
  ultimately show ?thesis by simp
qed

lemma getDigit_less: "getDigit c = Some d \<Longrightarrow> d < 16"
  by (auto simp: getDigit_def Let_def split: if_splits)

lemma read_digits_population:
  "read_digits acc cs = Some v \<Longrightarrow>
   \<exists>ds. map getDigit cs = map Some ds \<and>
        countPopulation v = countPopulation acc + sum_list (map countPopulation ds)"
proof (induction cs arbitrary: acc)
  case Nil
  then show ?case by simp
next
  case (Cons c cs)
  then obtain d where d: "getDigit c = Some d" and r: "read_digits (16 * acc + d) cs = Some v"
    by (auto split: option.splits)
  from Cons.IH [OF r] obtain ds where ds: "map getDigit cs = map Some ds"
    "countPopulation v = countPopulation (16 * acc + d) + sum_list (map countPopulation ds)"
    by blast
  have "map getDigit (c # cs) = map Some (d # ds)" using d ds(1) by simp
  moreover have "countPopulation v = countPopulation acc + sum_list (map countPopulation (d # ds))"
    using ds(2) countPopulation_hex_digit [OF getDigit_less [OF d]] by simp
  ultimately show ?case by blast
qed

text \<open>
  Claim C5. The weight of a function is \<open>(1 + instructions + basic blocks)\<close> times the
  clone multiplicity; the multiplicity is 1 without the attribute \<open>julia.mv.clones\<close> and
  otherwise 1 plus the number of one-bits of the integer the hexadecimal attribute
  denotes; the function yields this record whenever the attribute is absent or is a
  string LLVM reads. A global value that is not a function gets the weight 1.
\<close>

theorem partition_weight_formula:
  "(gv_kind G = FunctionVal \<longrightarrow>
      (\<forall>info. getFunctionWeight G = Some info \<longrightarrow>
         node_weight G = Some (f_weight info) \<and>
         f_weight info = (1 + f_insts info + f_bbs info) * f_clones info \<and>
         f_insts info = sum_list (gv_blocks G) \<and>
         f_bbs info = length (gv_blocks G) \<and>
         (gv_mv_clones G = None \<longrightarrow> f_clones info = 1) \<and>
         (\<forall>val. gv_mv_clones G = Some val \<longrightarrow>
            (\<exists>v. APInt_hex val = Some v \<and> f_clones info = countPopulation v + 1))) \<and>
      (gv_mv_clones G = None \<or> (\<exists>val v. gv_mv_clones G = Some val \<and> APInt_hex val = Some v) \<longrightarrow>
         (\<exists>info. getFunctionWeight G = Some info))) \<and>
   (gv_kind G \<noteq> FunctionVal \<longrightarrow> node_weight G = Some 1)"
  by (auto simp: getFunctionWeight_def node_weight_def Let_def split: option.splits)

lemmas gv_ex_defs = gv0_def gv_f_def gv_g_def gv_h_def gv_d_def

lemma APInt_hex_5: "APInt_hex ''5'' = Some 5"
  by (simp add: APInt_hex_def getDigit_def)

lemma countPopulation_5: "countPopulation 5 = 2"
  by (subst countPopulation_nibble) simp

theorem partition_weight_formula_witness:
  "gv_kind gv_f = FunctionVal \<and> gv_mv_clones gv_f = Some ''5'' \<and> APInt_hex ''5'' = Some 5 \<and>
   getFunctionWeight gv_f = Some \<lparr>f_weight = 24, f_bbs = 2, f_insts = 5, f_clones = 3\<rparr> \<and>
   node_weight gv_f = Some 24 \<and> gv_kind gv_g \<noteq> FunctionVal \<and> node_weight gv_g = Some 1"
proof -
  have w: "getFunctionWeight gv_f = Some \<lparr>f_weight = 24, f_bbs = 2, f_insts = 5, f_clones = 3\<rparr>"
    by (simp add: getFunctionWeight_def gv_ex_defs APInt_hex_5 countPopulation_5)
  show ?thesis
    using partition_weight_formula [of gv_f] partition_weight_formula [of gv_g] w APInt_hex_5
    by (simp add: gv_ex_defs)
qed

section \<open>Properties of the union-find forest\<close>

subsection \<open>Roots\<close>

lemma root_of_bounds: "root_of ns i r \<Longrightarrow> i < length ns \<and> r < length ns \<and> n_parent (ns ! r) = r"
  by (induction rule: root_of.induct) auto

lemma root_of_fun: "root_of ns i r \<Longrightarrow> root_of ns i r' \<Longrightarrow> r = r'"
proof (induction arbitrary: r' rule: root_of.induct)
  case (root i)
  from root.prems root.hyps show ?case by (cases rule: root_of.cases) auto
next
  case (step i r)
  from step.prems step.hyps(1,2) have "root_of ns (n_parent (ns ! i)) r'"
    by (cases rule: root_of.cases) auto
  then show ?case by (rule step.IH)
qed

lemma root_of_stepI:
  "i < length ns \<Longrightarrow> n_parent (ns ! i) = p \<Longrightarrow> p \<noteq> i \<Longrightarrow> root_of ns p r \<Longrightarrow> root_of ns i r"
  using root_of.step [of i ns r] by simp

lemma root_of_self: "root_of ns r r' \<Longrightarrow> n_parent (ns ! r) = r \<Longrightarrow> r' = r"
  by (cases rule: root_of.cases) auto

lemma root_of_rank_le:
  assumes "root_of ns i r" and "uf_inv rk ns"
  shows "rk i \<le> rk r"
  using assms
proof (induction rule: root_of.induct)
  case (root i)
  then show ?case by simp
next
  case (step i r)
  then have "rk i < rk (n_parent (ns ! i))" by (simp add: uf_inv_def)
  with step show ?case by simp
qed

lemma root_of_rank_less:
  assumes r: "root_of ns i r" and inv: "uf_inv rk ns" and ne: "i \<noteq> r"
  shows "rk i < rk r"
  using r
proof (cases rule: root_of.cases)
  case root
  with ne show ?thesis by simp
next
  case step
  from inv step(1,2) have "rk i < rk (n_parent (ns ! i))" by (simp add: uf_inv_def)
  with root_of_rank_le [OF step(3) inv] show ?thesis by simp
qed

lemma root_of_ex:
  assumes inv: "uf_inv rk ns" and i: "i < length ns"
  shows "\<exists>r. root_of ns i r"
proof -
  define B where "B = Max (rk ` {..< length ns})"
  have bound: "rk j \<le> B" if "j < length ns" for j
    unfolding B_def using that by (intro Max_ge) auto
  show ?thesis using i
  proof (induction "B - rk i" arbitrary: i rule: less_induct)
    case less
    show ?case
    proof (cases "n_parent (ns ! i) = i")
      case True
      have "root_of ns i i" by (rule root_of.root) (use True less.prems in simp_all)
      then show ?thesis ..
    next
      case False
      let ?p = "n_parent (ns ! i)"
      from inv less.prems False have p: "?p < length ns" "rk i < rk ?p"
        by (auto simp: uf_inv_def)
      with bound [OF p(1)] have "B - rk ?p < B - rk i" by simp
      from less.hyps [OF this p(1)] obtain r where "root_of ns ?p r" by blast
      then have "root_of ns i r" using less.prems False root_of.step [of i ns r] by simp
      then show ?thesis ..
    qed
  qed
qed

lemma uf_inv_cong:
  "uf_inv rk ns \<Longrightarrow> (\<And>i. i < length ns \<Longrightarrow> rk' i = rk i) \<Longrightarrow> uf_inv rk' ns"
  by (simp add: uf_inv_def)

subsection \<open>Path halving keeps the forest\<close>

lemma halve_length [simp]: "length (halve ns i) = length ns"
  by (simp add: halve_def)

lemma halve_parent:
  "j < length ns \<Longrightarrow>
   n_parent (halve ns i ! j) = (if j = i then n_parent (ns ! n_parent (ns ! i)) else n_parent (ns ! j))"
  by (cases "j = i") (simp_all add: halve_def)

lemma halve_payload: "same_payload ns (halve ns i)"
  unfolding same_payload_def halve_def
proof (intro conjI allI impI)
  fix j assume "j < length ns"
  then show "n_GV (ns[i := (ns ! i)\<lparr>n_parent := n_parent (ns ! n_parent (ns ! i))\<rparr>] ! j) = n_GV (ns ! j)"
    "n_size (ns[i := (ns ! i)\<lparr>n_parent := n_parent (ns ! n_parent (ns ! i))\<rparr>] ! j) = n_size (ns ! j)"
    "n_weight (ns[i := (ns ! i)\<lparr>n_parent := n_parent (ns ! n_parent (ns ! i))\<rparr>] ! j) = n_weight (ns ! j)"
    by (cases "j = i"; simp)+
qed simp

lemma halve_inv:
  assumes inv: "uf_inv rk ns" and i: "i < length ns"
  shows "uf_inv rk (halve ns i)"
  unfolding uf_inv_def
proof (intro allI impI)
  fix j assume "j < length (halve ns i)"
  then have j: "j < length ns" by simp
  let ?p = "n_parent (ns ! i)"
  from inv i have p: "?p < length ns" by (simp add: uf_inv_def)
  from inv p have g: "n_parent (ns ! ?p) < length ns" by (simp add: uf_inv_def)
  show "n_parent (halve ns i ! j) < length (halve ns i) \<and>
        (n_parent (halve ns i ! j) \<noteq> j \<longrightarrow> rk j < rk (n_parent (halve ns i ! j)))"
  proof (cases "j = i")
    case False
    with inv j show ?thesis by (simp add: halve_parent uf_inv_def)
  next
    case True
    have "rk i < rk (n_parent (ns ! ?p))" if "n_parent (ns ! ?p) \<noteq> i"
    proof (cases "?p = i")
      case True
      with that show ?thesis by simp
    next
      case False
      with inv i have 1: "rk i < rk ?p" by (simp add: uf_inv_def)
      show ?thesis
      proof (cases "n_parent (ns ! ?p) = ?p")
        case True
        with 1 show ?thesis by simp
      next
        case False
        with inv p have "rk ?p < rk (n_parent (ns ! ?p))" by (simp add: uf_inv_def)
        with 1 show ?thesis by simp
      qed
    qed
    with True j g show ?thesis by (simp add: halve_parent)
  qed
qed

lemma halve_root_of:
  assumes inv: "uf_inv rk ns" and i: "i < length ns"
  shows "root_of ns j r \<Longrightarrow> root_of (halve ns i) j r"
proof (induction rule: root_of.induct)
  case (root j)
  then have "n_parent (halve ns i ! j) = j" by (auto simp: halve_parent)
  with root show ?case using root_of.root [of j "halve ns i"] by simp
next
  case (step j r)
  show ?case
  proof (cases "j = i")
    case False
    with step have "n_parent (halve ns i ! j) = n_parent (ns ! j)" by (simp add: halve_parent)
    with step show ?thesis
      using root_of_stepI [of j "halve ns i" "n_parent (ns ! j)" r] by simp
  next
    case True
    let ?p = "n_parent (ns ! i)"
    let ?g = "n_parent (ns ! ?p)"
    from step True have pi: "?p \<noteq> i" and rp: "root_of (halve ns i) ?p r" by auto
    from inv i have p: "?p < length ns" by (simp add: uf_inv_def)
    from inv i pi have 1: "rk i < rk ?p" by (simp add: uf_inv_def)
    have pp: "n_parent (halve ns i ! ?p) = ?g" using p pi by (simp add: halve_parent)
    have ii: "n_parent (halve ns i ! i) = ?g" using i by (simp add: halve_parent)
    show ?thesis
    proof (cases "?g = ?p")
      case True
      with rp ii pi i \<open>j = i\<close> show ?thesis
        using root_of_stepI [of i "halve ns i" ?p r] by simp
    next
      case False
      with inv p have 2: "rk ?p < rk ?g" by (simp add: uf_inv_def)
      from rp have "root_of (halve ns i) ?g r"
        by (cases rule: root_of.cases) (use pp False in auto)
      moreover have "?g \<noteq> i"
      proof
        assume "?g = i"
        then have "rk ?g = rk i" by simp
        with 1 2 show False by linarith
      qed
      ultimately show ?thesis using ii i \<open>j = i\<close>
        using root_of_stepI [of i "halve ns i" ?g r] by simp
    qed
  qed
qed

subsection \<open>\<open>find\<close>\<close>

lemma find_uf_correct:
  assumes inv: "uf_inv rk ns" and i: "i < length ns"
  shows "\<exists>ns' r. find_uf ns i = Some (ns', r) \<and> root_of ns i r \<and> uf_inv rk ns' \<and>
           same_payload ns ns' \<and> (\<forall>j r'. root_of ns j r' \<longrightarrow> root_of ns' j r')"
proof -
  define n where "n = length ns"
  define B where "B = Max (rk ` {..< n})"
  have bound: "rk j \<le> B" if "j < n" for j
    unfolding B_def using that by (intro Max_ge) auto
  have "uf_inv rk ns \<Longrightarrow> length ns = n \<Longrightarrow> i < n \<Longrightarrow>
      \<exists>ns' r. find_uf ns i = Some (ns', r) \<and> root_of ns i r \<and> uf_inv rk ns' \<and>
           same_payload ns ns' \<and> (\<forall>j r'. root_of ns j r' \<longrightarrow> root_of ns' j r')"
  proof (induction "B - rk i" arbitrary: i ns rule: less_induct)
    case less
    note inv = less.prems(1) and len = less.prems(2) and i = less.prems(3)
    let ?p = "n_parent (ns ! i)"
    from inv i len have p: "?p < length ns" by (simp add: uf_inv_def)
    show ?case
    proof (cases "?p = i")
      case True
      then have "find_uf ns i = Some (ns, i)"
        using i len by (subst find_uf.simps) simp
      moreover have "root_of ns i i" using True i len root_of.root [of i ns] by simp
      ultimately show ?thesis using inv by (auto simp: same_payload_def)
    next
      case False
      let ?g = "n_parent (ns ! ?p)"
      from inv p have g: "?g < length ns" by (simp add: uf_inv_def)
      from inv i len False have 1: "rk i < rk ?p" by (simp add: uf_inv_def)
      from inv p have 2: "rk ?p \<le> rk ?g" by (cases "?g = ?p") (auto simp: uf_inv_def less_imp_le)
      have f: "find_uf ns i = find_uf (halve ns i) ?g"
        using i len p False by (subst find_uf.simps) (simp add: halve_def)
      have inv': "uf_inv rk (halve ns i)" using inv i len by (intro halve_inv) auto
      have "B - rk ?g < B - rk i" using 1 2 bound [of ?g] g len by simp
      from less.hyps [OF this inv'] g len
      obtain ns' r where r: "find_uf (halve ns i) ?g = Some (ns', r)" "root_of (halve ns i) ?g r"
        "uf_inv rk ns'" "same_payload (halve ns i) ns'"
        "\<forall>j r'. root_of (halve ns i) j r' \<longrightarrow> root_of ns' j r'"
        by auto
      have hr: "root_of ns j r' \<Longrightarrow> root_of (halve ns i) j r'" for j r'
        using halve_root_of [OF inv] i len by auto
      have gi: "?g \<noteq> i"
      proof
        assume "?g = i"
        then have "rk ?g = rk i" by simp
        with 1 2 show False by linarith
      qed
      have "root_of (halve ns i) i r"
        using r(2) gi i len root_of_stepI [of i "halve ns i" ?g r] by (simp add: halve_parent)
      moreover obtain r0 where r0: "root_of ns i r0" using root_of_ex [OF inv] i len by auto
      ultimately have "r0 = r" using hr [OF r0] root_of_fun by blast
      with r0 have "root_of ns i r" by simp
      moreover have "same_payload ns ns'"
        using r(4) halve_payload [of ns i] by (auto simp: same_payload_def)
      ultimately show ?thesis using f r hr by auto
    qed
  qed
  with inv i show ?thesis by (simp add: n_def)
qed

subsection \<open>Linking two roots\<close>

lemma root_of_back:
  assumes inv: "uf_inv rk ns" and pres: "\<And>j r. root_of ns j r \<Longrightarrow> root_of ns' j r"
    and len: "length ns' = length ns" and r: "root_of ns' j r"
  shows "root_of ns j r"
proof -
  from r have "j < length ns" using root_of_bounds [of ns' j r] len by simp
  from root_of_ex [OF inv this] obtain r0 where r0: "root_of ns j r0" ..
  from pres [OF r0] r have "r0 = r" by (rule root_of_fun)
  with r0 show ?thesis by simp
qed

lemma same_payload_wt: "same_payload ns ns' \<Longrightarrow> i < length ns \<Longrightarrow> wt ns' i = wt ns i"
  by (simp add: same_payload_def wt_def)

lemma same_payload_trans: "same_payload a b \<Longrightarrow> same_payload b c \<Longrightarrow> same_payload a c"
  by (simp add: same_payload_def)

lemma same_payload_minv:
  assumes "minv ns" "uf_inv (wt ns) ns'" "same_payload ns ns'"
  shows "minv ns'"
proof -
  have "uf_inv (wt ns') ns'"
    using assms(2) by (rule uf_inv_cong) (use assms(3) in \<open>simp add: same_payload_def wt_def\<close>)
  with assms(1,3) show ?thesis by (simp add: minv_def same_payload_def)
qed

lemma link_length [simp]: "length (link ns x y) = length ns"
  by (simp add: link_def)

lemma link_nth:
  assumes "x < length ns" "y < length ns" "x \<noteq> y" "j < length ns"
  shows "link ns x y ! j =
     (if j = x then (ns ! x)\<lparr>n_size := n_size (ns ! x) + n_size (ns ! y),
                              n_weight := n_weight (ns ! x) + n_weight (ns ! y)\<rparr>
      else if j = y then (ns ! y)\<lparr>n_parent := x\<rparr> else ns ! j)"
  using assms by (simp add: link_def nth_list_update)

lemma link_minv:
  assumes m: "minv ns" and x: "x < length ns" "n_parent (ns ! x) = x"
    and y: "y < length ns" "n_parent (ns ! y) = y" and ne: "x \<noteq> y"
  shows "minv (link ns x y)"
  unfolding minv_def uf_inv_def
proof (intro conjI allI impI)
  fix i assume "i < length (link ns x y)"
  then have i: "i < length ns" by simp
  from m i have pi: "n_parent (ns ! i) < length ns" by (simp add: minv_def uf_inv_def)
  show "n_parent (link ns x y ! i) < length (link ns x y)"
    using i pi x y ne by (simp add: link_nth)
  show "0 < n_weight (link ns x y ! i)"
    using m i x y ne by (simp add: link_nth minv_def)
  assume np: "n_parent (link ns x y ! i) \<noteq> i"
  show "wt (link ns x y) i < wt (link ns x y) (n_parent (link ns x y ! i))"
  proof (cases "i = y")
    case True
    from m x have "0 < n_weight (ns ! x)" by (simp add: minv_def)
    with True x y ne show ?thesis by (simp add: wt_def link_nth)
  next
    case False
    with np i x y ne have ix: "i \<noteq> x" and p: "n_parent (ns ! i) \<noteq> i"
      by (auto simp: link_nth split: if_splits)
    from m i p have lt: "n_weight (ns ! i) < n_weight (ns ! n_parent (ns ! i))"
      by (simp add: minv_def uf_inv_def wt_def)
    from p y have py: "n_parent (ns ! i) \<noteq> y \<or> True" by simp
    have "n_weight (ns ! n_parent (ns ! i)) \<le> n_weight (link ns x y ! n_parent (ns ! i))"
      using pi x y ne by (simp add: link_nth)
    with lt False ix i x y ne show ?thesis by (simp add: wt_def link_nth)
  qed
qed

lemma link_root_of:
  assumes x: "x < length ns" "n_parent (ns ! x) = x"
    and y: "y < length ns" "n_parent (ns ! y) = y" and ne: "x \<noteq> y"
  shows "root_of ns j r \<Longrightarrow> root_of (link ns x y) j (if r = y then x else r)"
proof (induction rule: root_of.induct)
  case (root j)
  have xx: "root_of (link ns x y) x x"
    using x y ne root_of.root [of x "link ns x y"] by (simp add: link_nth)
  show ?case
  proof (cases "j = y")
    case True
    then show ?thesis
      using xx x y ne root_of_stepI [of y "link ns x y" x x] by (simp add: link_nth)
  next
    case False
    then show ?thesis
      using root x y ne root_of.root [of j "link ns x y"] by (simp add: link_nth)
  qed
next
  case (step j r)
  from step.hyps(2) y have jy: "j \<noteq> y" by auto
  have "n_parent (link ns x y ! j) = n_parent (ns ! j)"
    using step.hyps(1) jy x y ne by (simp add: link_nth)
  with step show ?case
    using root_of_stepI [of j "link ns x y" "n_parent (ns ! j)" "if r = y then x else r"]
    by simp
qed

lemma link_payload:
  assumes "x < length ns" "y < length ns" "x \<noteq> y" "j < length ns"
  shows "n_GV (link ns x y ! j) = n_GV (ns ! j)"
  using assms by (simp add: link_nth)

lemma merge_uf_correct:
  assumes m: "minv ns" and x: "x < length ns" and y: "y < length ns"
  shows "\<exists>ns' r. merge_uf ns x y = Some (ns', r) \<and> minv ns' \<and> length ns' = length ns \<and>
           (\<forall>j < length ns. n_GV (ns' ! j) = n_GV (ns ! j)) \<and>
           (\<forall>a b. same_comp ns a b \<longrightarrow> same_comp ns' a b) \<and> same_comp ns' x y"
proof -
  from m have inv: "uf_inv (wt ns) ns" by (simp add: minv_def)
  from find_uf_correct [OF inv x] obtain ns1 x1 where 1: "find_uf ns x = Some (ns1, x1)"
    "root_of ns x x1" "uf_inv (wt ns) ns1" "same_payload ns ns1"
    "\<forall>j r'. root_of ns j r' \<longrightarrow> root_of ns1 j r'" by blast
  have len1: "length ns1 = length ns" using 1(4) by (simp add: same_payload_def)
  from find_uf_correct [OF 1(3)] y len1 obtain ns2 y1 where 2: "find_uf ns1 y = Some (ns2, y1)"
    "root_of ns1 y y1" "uf_inv (wt ns) ns2" "same_payload ns1 ns2"
    "\<forall>j r'. root_of ns1 j r' \<longrightarrow> root_of ns2 j r'" by (metis (no_types))
  have p2: "same_payload ns ns2" using 1(4) 2(4) by (rule same_payload_trans)
  have len2: "length ns2 = length ns" using p2 by (simp add: same_payload_def)
  have m2: "minv ns2" using m 2(3) p2 by (rule same_payload_minv)
  have pres: "root_of ns j r \<Longrightarrow> root_of ns2 j r" for j r using 1(5) 2(5) by blast
  have gv2: "\<forall>j < length ns. n_GV (ns2 ! j) = n_GV (ns ! j)"
    using p2 by (simp add: same_payload_def)
  have rx: "root_of ns2 x x1" using pres [OF 1(2)] .
  have ry: "root_of ns2 y y1" using 2(2,5) by blast
  have sc: "same_comp ns a b \<Longrightarrow> same_comp ns2 a b" for a b
    unfolding same_comp_def using pres by blast
  show ?thesis
  proof (cases "x1 = y1")
    case True
    then have "merge_uf ns x y = Some (ns2, x1)" using 1(1) 2(1) by (simp add: merge_uf_def)
    moreover have "same_comp ns2 x y" using rx ry True by (auto simp: same_comp_def)
    ultimately show ?thesis using m2 len2 gv2 sc by blast
  next
    case False
    define x2 where "x2 = (if n_size (ns2 ! x1) < n_size (ns2 ! y1) then y1 else x1)"
    define y2 where "y2 = (if n_size (ns2 ! x1) < n_size (ns2 ! y1) then x1 else y1)"
    have xy: "x2 \<noteq> y2" "(x2 = x1 \<and> y2 = y1) \<or> (x2 = y1 \<and> y2 = x1)"
      using False by (auto simp: x2_def y2_def)
    have bx: "x1 < length ns2" "n_parent (ns2 ! x1) = x1" using root_of_bounds [OF rx] by auto
    have by': "y1 < length ns2" "n_parent (ns2 ! y1) = y1" using root_of_bounds [OF ry] by auto
    have b2: "x2 < length ns2" "n_parent (ns2 ! x2) = x2" "y2 < length ns2" "n_parent (ns2 ! y2) = y2"
      using bx by' by (auto simp: x2_def y2_def)
    have eq: "merge_uf ns x y = Some (link ns2 x2 y2, x2)"
      using 1(1) 2(1) False b2 xy(1)
      by (simp add: merge_uf_def link_def Let_def x2_def y2_def nth_list_update)
    have m3: "minv (link ns2 x2 y2)" using m2 b2 xy(1) by (intro link_minv)
    have lr: "root_of ns2 j r \<Longrightarrow> root_of (link ns2 x2 y2) j (if r = y2 then x2 else r)" for j r
      using b2 xy(1) by (intro link_root_of)
    have sc3: "same_comp ns2 a b \<Longrightarrow> same_comp (link ns2 x2 y2) a b" for a b
      unfolding same_comp_def using lr by blast
    have "root_of (link ns2 x2 y2) x x2" "root_of (link ns2 x2 y2) y x2"
      using lr [OF rx] lr [OF ry] xy by auto
    then have "same_comp (link ns2 x2 y2) x y" by (auto simp: same_comp_def)
    moreover have "\<forall>j < length ns. n_GV (link ns2 x2 y2 ! j) = n_GV (ns ! j)"
      using gv2 b2 xy(1) len2 by (simp add: link_payload)
    ultimately show ?thesis using eq m3 len2 sc sc3 by auto
  qed
qed

section \<open>The nodes of the partitioner\<close>

lemma value_at_set_value:
  "value_at (set_value M g v) h =
     (if h = g \<and> g < length (m_values M) then v else value_at M h)"
  by (auto simp: value_at_def set_value_def)

lemma ids_of_kind_iff:
  "g \<in> set (ids_of_kind M k) \<longleftrightarrow> (\<exists>G. value_at M g = Some G \<and> gv_kind G = k)"
  by (auto simp: ids_of_kind_def value_at_def split: option.splits)

lemma distinct_ids_of_kind: "distinct (ids_of_kind M k)"
  by (simp add: ids_of_kind_def)

lemma global_values_iff: "g \<in> set (global_values M) \<longleftrightarrow> value_at M g \<noteq> None"
proof -
  have "\<exists>G. value_at M g = Some G \<and> gv_kind G = k" if "value_at M g = Some G" "gv_kind G = k" for G k
    using that by simp
  then show ?thesis
    unfolding global_values_def m_functions_def m_globals_def m_aliases_def
    by (cases "value_at M g"; simp add: ids_of_kind_iff) (metis ValueKind.exhaust)
qed

lemma distinct_global_values: "distinct (global_values M)"
  unfolding global_values_def m_functions_def m_globals_def m_aliases_def
  by (auto simp: distinct_ids_of_kind ids_of_kind_iff)

lemma core_fields [simp]:
  "gv_kind (core G) = gv_kind G" "gv_name (core G) = gv_name G"
  "gv_blocks (core G) = gv_blocks G" "gv_initializer (core G) = gv_initializer G"
  "gv_always_inline (core G) = gv_always_inline G" "gv_mv_clones (core G) = gv_mv_clones G"
  "gv_users (core G) = gv_users G" "gv_operands (core G) = gv_operands G"
  "gv_function_ty (core G) = gv_function_ty G" "gv_dso_local (core G) = gv_dso_local G"
  by (simp_all add: core_def)

lemma core_isDeclaration: "isDeclaration (core G) = isDeclaration G"
  by (simp add: isDeclaration_def split: ValueKind.splits)

lemma core_canPartition: "canPartition (core G) = canPartition G"
  by (simp add: canPartition_def)

lemma core_node_weight: "node_weight (core G) = node_weight G"
  by (simp add: node_weight_def getFunctionWeight_def)

lemma core_eq_fields:
  assumes "core G' = core G"
  shows "isDeclaration G' = isDeclaration G" "canPartition G' = canPartition G"
    "node_weight G' = node_weight G" "gv_name G' = gv_name G" "gv_users G' = gv_users G"
    "gv_kind G' = gv_kind G"
proof -
  show "isDeclaration G' = isDeclaration G"
    using arg_cong [OF assms, of isDeclaration] by (simp add: core_isDeclaration)
  show "canPartition G' = canPartition G"
    using arg_cong [OF assms, of canPartition] by (simp add: core_canPartition)
  show "node_weight G' = node_weight G"
    using arg_cong [OF assms, of node_weight] by (simp add: core_node_weight)
  show "gv_name G' = gv_name G" using arg_cong [OF assms, of gv_name] by simp
  show "gv_users G' = gv_users G" using arg_cong [OF assms, of gv_users] by simp
  show "gv_kind G' = gv_kind G" using arg_cong [OF assms, of gv_kind] by simp
qed

lemma same_shape_refl: "same_shape M M"
  by (simp add: same_shape_def)

lemma same_shape_value:
  assumes "same_shape M M'" "value_at M g = Some G"
  shows "\<exists>G'. value_at M' g = Some G' \<and> core G' = core G"
proof -
  from assms have "map_option core (value_at M' g) = Some (core G)"
    by (simp add: same_shape_def)
  then show ?thesis by (cases "value_at M' g") auto
qed

lemma same_shape_None:
  assumes "same_shape M M'" "value_at M g = None"
  shows "value_at M' g = None"
proof -
  from assms have "map_option core (value_at M' g) = None"
    by (simp add: same_shape_def)
  then show ?thesis by simp
qed

lemma same_shape_partitionable: "same_shape M M' \<Longrightarrow> partitionable M' g = partitionable M g"
proof (cases "value_at M g")
  case None
  assume "same_shape M M'"
  with None same_shape_None [of M M' g] show ?thesis by (simp add: partitionable_def)
next
  case (Some G)
  assume "same_shape M M'"
  from same_shape_value [OF this Some] obtain G' where "value_at M' g = Some G'" "core G' = core G"
    by blast
  with Some core_eq_fields(1,2) [of G' G] show ?thesis by (simp add: partitionable_def)
qed

lemma same_shape_name_of: "same_shape M M' \<Longrightarrow> name_of M' g = name_of M g"
proof (cases "value_at M g")
  case None
  assume "same_shape M M'"
  with None same_shape_None [of M M' g] show ?thesis by (simp add: name_of_def)
next
  case (Some G)
  assume "same_shape M M'"
  from same_shape_value [OF this Some] obtain G' where "value_at M' g = Some G'" "core G' = core G"
    by blast
  with Some core_eq_fields(4) [of G' G] show ?thesis by (simp add: name_of_def)
qed

lemma same_shape_users_of: "same_shape M M' \<Longrightarrow> users_of M' g = users_of M g"
proof (cases "value_at M g")
  case None
  assume "same_shape M M'"
  with None same_shape_None [of M M' g] show ?thesis by (simp add: users_of_def)
next
  case (Some G)
  assume "same_shape M M'"
  from same_shape_value [OF this Some] obtain G' where "value_at M' g = Some G'" "core G' = core G"
    by blast
  with Some core_eq_fields(5) [of G' G] show ?thesis by (simp add: users_of_def)
qed

lemma same_shape_set_value:
  assumes s: "same_shape M Mc" and v: "value_at Mc g = Some G"
  shows "same_shape M
    (set_value Mc g (Some (G\<lparr>gv_linkage := ExternalLinkage, gv_visibility := HiddenVisibility\<rparr>)))"
proof -
  have c: "core (G\<lparr>gv_linkage := ExternalLinkage, gv_visibility := HiddenVisibility\<rparr>) = core G"
    by (simp add: core_def)
  from s have a: "map_option core (value_at Mc h) = map_option core (value_at M h)" for h
    by (simp add: same_shape_def)
  from a [of g] v have "map_option core (value_at M g) = Some (core G)" by simp
  then obtain Gm where k: "value_at M g = Some Gm" "core Gm = core G"
    by (cases "value_at M g") auto
  have "map_option core (value_at (set_value Mc g
      (Some (G\<lparr>gv_linkage := ExternalLinkage, gv_visibility := HiddenVisibility\<rparr>))) h) =
      map_option core (value_at M h)" for h
  proof (cases "h = g")
    case True
    from v have "g < length (m_values Mc)" by (simp add: value_at_def split: if_splits)
    with True c k show ?thesis by (simp add: value_at_set_value)
  next
    case False
    with a [of h] show ?thesis by (simp add: value_at_set_value)
  qed
  with s show ?thesis by (simp add: same_shape_def set_value_def)
qed

lemma node_weight_pos: "node_weight G = Some w \<Longrightarrow> 0 < w"
  by (auto simp: node_weight_def getFunctionWeight_def Let_def split: if_splits option.splits)

lemma nodes_ok_make:
  assumes ok: "nodes_ok M P" and g: "partitionable M g" "g \<notin> n_GV ` set (nodes P)" and w: "0 < w"
  shows "nodes_ok M (fst (make P g w))"
proof -
  let ?P = "fst (make P g w)"
  have n: "nodes ?P = nodes P @ [\<lparr>n_GV = g, n_parent = length (nodes P), n_size = 1, n_weight = w\<rparr>]"
    and m: "node_map ?P = (node_map P)(g \<mapsto> length (nodes P))"
    by (simp_all add: make_def Let_def)
  have fresh: "n_GV (nodes P ! i) \<noteq> g" if "i < length (nodes P)" for i
    using g(2) that by (metis image_eqI nth_mem)
  have A: "\<forall>i < length (nodes ?P). n_parent (nodes ?P ! i) = i \<and> 0 < n_weight (nodes ?P ! i) \<and>
        node_map ?P (n_GV (nodes ?P ! i)) = Some i \<and> partitionable M (n_GV (nodes ?P ! i))"
  proof (intro allI impI)
    fix i assume i: "i < length (nodes ?P)"
    show "n_parent (nodes ?P ! i) = i \<and> 0 < n_weight (nodes ?P ! i) \<and>
        node_map ?P (n_GV (nodes ?P ! i)) = Some i \<and> partitionable M (n_GV (nodes ?P ! i))"
    proof (cases "i < length (nodes P)")
      case True
      with ok fresh [OF True] show ?thesis by (simp add: n m nth_append nodes_ok_def)
    next
      case False
      with i have "i = length (nodes P)" by (simp add: n)
      with g w show ?thesis by (simp add: n m)
    qed
  qed
  have B: "\<forall>h idx. node_map ?P h = Some idx \<longrightarrow>
      idx < length (nodes ?P) \<and> n_GV (nodes ?P ! idx) = h"
  proof (intro allI impI)
    fix h idx assume h: "node_map ?P h = Some idx"
    show "idx < length (nodes ?P) \<and> n_GV (nodes ?P ! idx) = h"
    proof (cases "h = g")
      case True
      with h have e: "idx = length (nodes P)" by (simp add: m)
      show ?thesis unfolding e n using True by simp
    next
      case False
      with h have "node_map P h = Some idx" by (simp add: m)
      with ok have "idx < length (nodes P) \<and> n_GV (nodes P ! idx) = h" by (simp add: nodes_ok_def)
      then show ?thesis by (simp add: n nth_append)
    qed
  qed
  show ?thesis unfolding nodes_ok_def using A B by (rule conjI)
qed

lemma make_nodes_correct:
  assumes "same_shape M Mc" "nodes_ok M P" "n_GV ` set (nodes P) \<inter> set gs = {}" "distinct gs"
    "\<forall>g \<in> set gs. value_at M g \<noteq> None"
    "\<forall>g \<in> set gs. partitionable M g \<longrightarrow>
       (case value_at M g of None \<Rightarrow> False | Some G \<Rightarrow> node_weight G \<noteq> None)"
  shows "\<exists>M' P'. make_nodes gs (Mc, P) = Inr (M', P') \<and> same_shape M M' \<and> nodes_ok M P' \<and>
           n_GV ` set (nodes P') = n_GV ` set (nodes P) \<union> {g \<in> set gs. partitionable M g} \<and>
           jl_fvars M' = jl_fvars Mc \<and> jl_gvars M' = jl_gvars Mc \<and>
           (\<forall>g \<in> set gs. partitionable M g \<longrightarrow>
              (\<exists>G'. value_at M' g = Some G' \<and> gv_linkage G' = ExternalLinkage \<and>
                    gv_visibility G' = HiddenVisibility)) \<and>
           (\<forall>g. g \<notin> set gs \<longrightarrow> value_at M' g = value_at Mc g)"
  using assms
proof (induction gs arbitrary: Mc P)
  case Nil
  then show ?case by simp
next
  case (Cons g gs)
  from Cons.prems(5) obtain G where G: "value_at M g = Some G" by auto
  from same_shape_value [OF Cons.prems(1) G] obtain Gc where Gc: "value_at Mc g = Some Gc"
    "core Gc = core G" by blast
  note f = core_eq_fields [OF Gc(2)]
  have pg: "partitionable M g \<longleftrightarrow> \<not> isDeclaration Gc \<and> canPartition Gc"
    using G f by (simp add: partitionable_def)
  have rest: "n_GV ` set (nodes P) \<inter> set gs = {}" "distinct gs"
    "\<forall>g \<in> set gs. value_at M g \<noteq> None"
    "\<forall>g \<in> set gs. partitionable M g \<longrightarrow>
       (case value_at M g of None \<Rightarrow> False | Some G \<Rightarrow> node_weight G \<noteq> None)"
    using Cons.prems by auto
  show ?case
  proof (cases "partitionable M g")
    case False
    then have e: "make_nodes (g # gs) (Mc, P) = make_nodes gs (Mc, P)"
      using Gc(1) pg by auto
    from Cons.IH [OF Cons.prems(1,2) rest]
    obtain M' P' where r: "make_nodes gs (Mc, P) = Inr (M', P')" "same_shape M M'" "nodes_ok M P'"
      "n_GV ` set (nodes P') = n_GV ` set (nodes P) \<union> {g \<in> set gs. partitionable M g}"
      "jl_fvars M' = jl_fvars Mc" "jl_gvars M' = jl_gvars Mc"
      "\<forall>g \<in> set gs. partitionable M g \<longrightarrow>
              (\<exists>G'. value_at M' g = Some G' \<and> gv_linkage G' = ExternalLinkage \<and>
                    gv_visibility G' = HiddenVisibility)"
      "\<forall>g. g \<notin> set gs \<longrightarrow> value_at M' g = value_at Mc g"
      by blast
    have "n_GV ` set (nodes P') = n_GV ` set (nodes P) \<union> {h \<in> set (g # gs). partitionable M h}"
      using r(4) False by auto
    with e r False show ?thesis by auto
  next
    case True
    with Cons.prems(6) G obtain w where w: "node_weight G = Some w" by auto
    then have wc: "node_weight Gc = Some w" using f by simp
    let ?Mc = "set_value Mc g
      (Some (Gc\<lparr>gv_linkage := ExternalLinkage, gv_visibility := HiddenVisibility\<rparr>))"
    let ?P = "fst (make P g w)"
    have e: "make_nodes (g # gs) (Mc, P) = make_nodes gs (?Mc, ?P)"
      using Gc(1) pg True wc by simp
    have s: "same_shape M ?Mc" using Cons.prems(1) Gc(1) by (rule same_shape_set_value)
    have gnew: "g \<notin> n_GV ` set (nodes P)" using Cons.prems(3) by auto
    have ok: "nodes_ok M ?P" using Cons.prems(2) True gnew node_weight_pos [OF w]
      by (rule nodes_ok_make)
    have nP: "n_GV ` set (nodes ?P) = insert g (n_GV ` set (nodes P))"
      by (simp add: make_def Let_def)
    have d: "n_GV ` set (nodes ?P) \<inter> set gs = {}" using nP rest(1) Cons.prems(4) by auto
    from Cons.IH [OF s ok d rest(2,3,4)]
    obtain M' P' where r: "make_nodes gs (?Mc, ?P) = Inr (M', P')" "same_shape M M'" "nodes_ok M P'"
      "n_GV ` set (nodes P') = n_GV ` set (nodes ?P) \<union> {g \<in> set gs. partitionable M g}"
      "jl_fvars M' = jl_fvars ?Mc" "jl_gvars M' = jl_gvars ?Mc"
      "\<forall>g \<in> set gs. partitionable M g \<longrightarrow>
              (\<exists>G'. value_at M' g = Some G' \<and> gv_linkage G' = ExternalLinkage \<and>
                    gv_visibility G' = HiddenVisibility)"
      "\<forall>g. g \<notin> set gs \<longrightarrow> value_at M' g = value_at ?Mc g"
      by blast
    have glen: "g < length (m_values Mc)" using Gc(1) by (simp add: value_at_def split: if_splits)
    have gv: "value_at M' g = Some (Gc\<lparr>gv_linkage := ExternalLinkage, gv_visibility := HiddenVisibility\<rparr>)"
      using r(8) Cons.prems(4) glen by (simp add: value_at_set_value)
    have 1: "n_GV ` set (nodes P') = n_GV ` set (nodes P) \<union> {h \<in> set (g # gs). partitionable M h}"
      using r(4) nP True by auto
    have 2: "\<forall>h \<in> set (g # gs). partitionable M h \<longrightarrow>
              (\<exists>G'. value_at M' h = Some G' \<and> gv_linkage G' = ExternalLinkage \<and>
                    gv_visibility G' = HiddenVisibility)"
      using r(7) gv by auto
    have 3: "\<forall>h. h \<notin> set (g # gs) \<longrightarrow> value_at M' h = value_at Mc h"
      using r(8) by (simp add: value_at_set_value)
    have 4: "jl_fvars M' = jl_fvars Mc" "jl_gvars M' = jl_gvars Mc"
      using r(5,6) by (simp_all add: set_value_def)
    show ?thesis using e r(1,2,3) 1 2 3 4 by simp
  qed
qed

section \<open>The merging loops\<close>

lemma merge_uses_correct:
  assumes "minv ns" "i < length ns"
    "\<forall>val \<in> set vals. \<exists>idx. nm val = Some idx \<and> idx < length ns"
  shows "\<exists>ns'. merge_uses nm i vals ns = Inr ns' \<and> minv ns' \<and> length ns' = length ns \<and>
           (\<forall>j < length ns. n_GV (ns' ! j) = n_GV (ns ! j)) \<and>
           (\<forall>a b. same_comp ns a b \<longrightarrow> same_comp ns' a b) \<and>
           (\<forall>val \<in> set vals. \<forall>idx. nm val = Some idx \<longrightarrow> same_comp ns' i idx)"
  using assms
proof (induction vals arbitrary: ns)
  case Nil
  then show ?case by simp
next
  case (Cons val vals)
  from Cons.prems(3) obtain idx where idx: "nm val = Some idx" "idx < length ns" by auto
  from merge_uf_correct [OF Cons.prems(1,2) idx(2)]
  obtain ns1 r where 1: "merge_uf ns i idx = Some (ns1, r)" "minv ns1" "length ns1 = length ns"
    "\<forall>j < length ns. n_GV (ns1 ! j) = n_GV (ns ! j)"
    "\<forall>a b. same_comp ns a b \<longrightarrow> same_comp ns1 a b" "same_comp ns1 i idx"
    by blast
  have p: "i < length ns1" "\<forall>val \<in> set vals. \<exists>idx. nm val = Some idx \<and> idx < length ns1"
    using Cons.prems(2,3) 1(3) by auto
  from Cons.IH [OF 1(2) p]
  obtain ns' where 2: "merge_uses nm i vals ns1 = Inr ns'" "minv ns'" "length ns' = length ns1"
    "\<forall>j < length ns1. n_GV (ns' ! j) = n_GV (ns1 ! j)"
    "\<forall>a b. same_comp ns1 a b \<longrightarrow> same_comp ns' a b"
    "\<forall>val \<in> set vals. \<forall>idx. nm val = Some idx \<longrightarrow> same_comp ns' i idx"
    by blast
  have e: "merge_uses nm i (val # vals) ns = Inr ns'" using idx(1) 1(1) 2(1) by simp
  have a: "\<forall>j < length ns. n_GV (ns' ! j) = n_GV (ns ! j)" using 1(3,4) 2(4) by simp
  have b: "\<forall>a b. same_comp ns a b \<longrightarrow> same_comp ns' a b" using 1(5) 2(5) by blast
  have c: "\<forall>v \<in> set (val # vals). \<forall>k. nm v = Some k \<longrightarrow> same_comp ns' i k"
    using 2(5,6) 1(6) idx(1) by auto
  show ?case using e 2(2) 1(3) 2(3) a b c by simp
qed

lemma merge_all_correct:
  assumes "minv ns" "\<forall>i \<in> set is. i < length ns"
    "\<forall>i \<in> set is. \<forall>val \<in> set (users_of M (n_GV (ns ! i))).
       \<exists>idx. nm val = Some idx \<and> idx < length ns"
  shows "\<exists>ns'. merge_all M nm is ns = Inr ns' \<and> minv ns' \<and> length ns' = length ns \<and>
           (\<forall>j < length ns. n_GV (ns' ! j) = n_GV (ns ! j)) \<and>
           (\<forall>a b. same_comp ns a b \<longrightarrow> same_comp ns' a b) \<and>
           (\<forall>i \<in> set is. \<forall>val \<in> set (users_of M (n_GV (ns ! i))).
              \<forall>idx. nm val = Some idx \<longrightarrow> same_comp ns' i idx)"
  using assms
proof (induction "is" arbitrary: ns)
  case Nil
  then show ?case by simp
next
  case (Cons i "is")
  have i: "i < length ns" using Cons.prems(2) by simp
  have u: "\<forall>val \<in> set (users_of M (n_GV (ns ! i))). \<exists>idx. nm val = Some idx \<and> idx < length ns"
    using Cons.prems(3) by simp
  from merge_uses_correct [OF Cons.prems(1) i u]
  obtain ns1 where 1: "merge_uses nm i (users_of M (n_GV (ns ! i))) ns = Inr ns1" "minv ns1"
    "length ns1 = length ns" "\<forall>j < length ns. n_GV (ns1 ! j) = n_GV (ns ! j)"
    "\<forall>a b. same_comp ns a b \<longrightarrow> same_comp ns1 a b"
    "\<forall>val \<in> set (users_of M (n_GV (ns ! i))). \<forall>idx. nm val = Some idx \<longrightarrow> same_comp ns1 i idx"
    by blast
  have p: "\<forall>i \<in> set is. i < length ns1"
    "\<forall>i \<in> set is. \<forall>val \<in> set (users_of M (n_GV (ns1 ! i))).
       \<exists>idx. nm val = Some idx \<and> idx < length ns1"
    using Cons.prems(2,3) 1(3,4) by auto
  from Cons.IH [OF 1(2) p]
  obtain ns' where 2: "merge_all M nm is ns1 = Inr ns'" "minv ns'" "length ns' = length ns1"
    "\<forall>j < length ns1. n_GV (ns' ! j) = n_GV (ns1 ! j)"
    "\<forall>a b. same_comp ns1 a b \<longrightarrow> same_comp ns' a b"
    "\<forall>i \<in> set is. \<forall>val \<in> set (users_of M (n_GV (ns1 ! i))).
              \<forall>idx. nm val = Some idx \<longrightarrow> same_comp ns' i idx"
    by blast
  have e: "merge_all M nm (i # is) ns = Inr ns'" using 1(1) 2(1) by simp
  have a: "\<forall>j < length ns. n_GV (ns' ! j) = n_GV (ns ! j)" using 1(3,4) 2(4) by simp
  have b: "\<forall>a b. same_comp ns a b \<longrightarrow> same_comp ns' a b" using 1(5) 2(5) by blast
  have c: "\<forall>k \<in> set (i # is). \<forall>val \<in> set (users_of M (n_GV (ns ! k))).
              \<forall>idx. nm val = Some idx \<longrightarrow> same_comp ns' k idx"
  proof (intro ballI allI impI)
    fix k val idx
    assume k: "k \<in> set (i # is)" and v: "val \<in> set (users_of M (n_GV (ns ! k)))"
      and n: "nm val = Some idx"
    show "same_comp ns' k idx"
    proof (cases "k = i")
      case True
      with 1(6) v n have "same_comp ns1 i idx" by blast
      with 2(5) True show ?thesis by blast
    next
      case False
      with k have ki: "k \<in> set is" by simp
      with Cons.prems(2) have "k < length ns" by simp
      with 1(4) have "n_GV (ns1 ! k) = n_GV (ns ! k)" by simp
      with 2(6) ki v n show ?thesis by auto
    qed
  qed
  show ?case using e 2(2) 1(3) 2(3) a b c by simp
qed

section \<open>Properties of the assignment loop\<close>

subsection \<open>Auxiliary facts\<close>

lemma same_parents_root_of:
  assumes "length ns' = length ns" "\<forall>j < length ns. n_parent (ns' ! j) = n_parent (ns ! j)"
  shows "root_of ns j r \<Longrightarrow> root_of ns' j r"
proof (induction rule: root_of.induct)
  case (root j)
  with assms show ?case using root_of.root [of j ns'] by simp
next
  case (step j r)
  with assms show ?case using root_of_stepI [of j ns' "n_parent (ns ! j)" r] by simp
qed

lemma same_parents_uf_inv:
  assumes "length ns' = length ns" "\<forall>j < length ns. n_parent (ns' ! j) = n_parent (ns ! j)"
    "uf_inv rk ns"
  shows "uf_inv rk ns'"
  using assms by (simp add: uf_inv_def)

lemma sm_insert_set:
  "k \<notin> fst ` set m \<Longrightarrow> set (sm_insert k v m) = insert (k, v) (set m)"
  by (simp add: sm_insert_def map_of_eq_None_iff)

lemma sm_assign_set:
  "k \<notin> fst ` set m \<Longrightarrow> set (sm_assign k v m) = insert (k, v) (set m)"
  by (simp add: sm_assign_def map_of_eq_None_iff)

lemma sm_insert_keys:
  "k \<notin> fst ` set m \<Longrightarrow> map fst (sm_insert k v m) = map fst m @ [k]"
  by (simp add: sm_insert_def map_of_eq_None_iff)

lemma sm_assign_keys:
  "k \<notin> fst ` set m \<Longrightarrow> map fst (sm_assign k v m) = map fst m @ [k]"
  by (simp add: sm_assign_def map_of_eq_None_iff)

lemma pq_top_Some:
  assumes "pq \<noteq> []"
  shows "\<exists>t. pq_top parts pq = Some t \<and> t \<in> set pq \<and>
           (\<forall>q \<in> set pq. p_weight (parts ! t) \<le> p_weight (parts ! q))"
proof -
  let ?w = "\<lambda>p. p_weight (parts ! p)"
  define m where "m = arg_min_list ?w pq"
  have m1: "m \<in> set pq" unfolding m_def using assms by (rule arg_min_list_in)
  have m2: "?w m = Min (?w ` set pq)" unfolding m_def using assms by (rule f_arg_min_list_f)
  have "?w m \<le> ?w q" if "q \<in> set pq" for q
    unfolding m2 using that by (intro Min_le) auto
  with m1 have m: "m \<in> set pq" "\<forall>q \<in> set pq. ?w m \<le> ?w q" by auto
  then have "\<exists>t \<in> set pq. \<forall>q \<in> set pq. \<not> pcomp parts t q"
    by (auto simp: pcomp_def not_less)
  then obtain t where t: "pq_top parts pq = Some t"
    unfolding pq_top_def by (cases "List.find (\<lambda>t. \<forall>q \<in> set pq. \<not> pcomp parts t q) pq")
      (auto simp: find_None_iff)
  then have "t \<in> set pq" "\<forall>q \<in> set pq. \<not> pcomp parts t q"
    unfolding pq_top_def by (auto simp: find_Some_iff)
  with t show ?thesis by (auto simp: pcomp_def not_less)
qed

lemma pq_cycle_set: "t \<in> set pq \<Longrightarrow> set (pq_push t (pq_pop t pq)) = set pq"
proof -
  assume t: "t \<in> set pq"
  have "set pq \<subseteq> insert t (set (remove1 t pq))"
    by (metis insert_iff in_set_remove1 subsetI)
  moreover have "set (remove1 t pq) \<subseteq> set pq" by (rule set_remove1_subset)
  ultimately show ?thesis using t by (auto simp: pq_push_def pq_pop_def)
qed

subsection \<open>One node\<close>

lemma add_to_partition_fields:
  "p_globals (add_to_partition M fvars gvars GV P) = sm_insert (name_of M GV) True (p_globals P)"
  "p_fvars (add_to_partition M fvars gvars GV P) =
     (case fvars GV of None \<Rightarrow> p_fvars P | Some k \<Rightarrow> sm_assign (name_of M GV) k (p_fvars P))"
  "p_gvars (add_to_partition M fvars gvars GV P) =
     (case gvars GV of None \<Rightarrow> p_gvars P | Some k \<Rightarrow> sm_assign (name_of M GV) k (p_gvars P))"
  "p_weight (add_to_partition M fvars gvars GV P) = p_weight P"
  by (simp_all add: add_to_partition_def Let_def name_of_def split: option.splits)

lemma table_entries_insert:
  "table_entries M tab ns0 (insert i A) =
     table_entries M tab ns0 A \<union>
     (case tab (n_GV (ns0 ! i)) of None \<Rightarrow> {} | Some k \<Rightarrow> {(node_name M ns0 i, k)})"
  by (auto simp: table_entries_def split: option.splits)

lemma table_entries_keys: "fst ` table_entries M tab ns0 A \<subseteq> node_name M ns0 ` A"
  by (auto simp: table_entries_def)

lemma table_update_set:
  assumes "set m = table_entries M tab ns0 A" "node_name M ns0 i \<notin> node_name M ns0 ` A"
    "distinct (map fst m)"
  shows "set (case tab (n_GV (ns0 ! i)) of None \<Rightarrow> m
              | Some k \<Rightarrow> sm_assign (node_name M ns0 i) k m) =
         table_entries M tab ns0 (insert i A)"
    "distinct (map fst (case tab (n_GV (ns0 ! i)) of None \<Rightarrow> m
              | Some k \<Rightarrow> sm_assign (node_name M ns0 i) k m))"
proof -
  have f: "node_name M ns0 i \<notin> fst ` set m"
    using assms table_entries_keys [of M tab ns0 A] by auto
  then show "set (case tab (n_GV (ns0 ! i)) of None \<Rightarrow> m
              | Some k \<Rightarrow> sm_assign (node_name M ns0 i) k m) =
         table_entries M tab ns0 (insert i A)"
    using assms(1) by (simp add: table_entries_insert sm_assign_set split: option.splits)
  from f have "node_name M ns0 i \<notin> set (map fst m)" by simp
  with assms(3) show "distinct (map fst (case tab (n_GV (ns0 ! i)) of None \<Rightarrow> m
              | Some k \<Rightarrow> sm_assign (node_name M ns0 i) k m))"
    using f by (simp add: sm_assign_keys split: option.splits)
qed

lemma part_ok_add:
  assumes ok: "part_ok M fvars gvars ns0 A P"
    and fresh: "node_name M ns0 i \<notin> node_name M ns0 ` A"
  shows "part_ok M fvars gvars ns0 (insert i A)
           (add_to_partition M fvars gvars (n_GV (ns0 ! i)) P)"
proof -
  have n: "name_of M (n_GV (ns0 ! i)) = node_name M ns0 i" by (simp add: node_name_def)
  from ok have o: "set (p_globals P) = (\<lambda>j. (node_name M ns0 j, True)) ` A"
    "set (p_fvars P) = table_entries M fvars ns0 A" "set (p_gvars P) = table_entries M gvars ns0 A"
    "distinct (map fst (p_globals P))" "distinct (map fst (p_fvars P))"
    "distinct (map fst (p_gvars P))"
    by (simp_all add: part_ok_def)
  have "fst ` set (p_globals P) = node_name M ns0 ` A"
    using o(1) by (simp add: image_image)
  with fresh have f: "node_name M ns0 i \<notin> fst ` set (p_globals P)" by simp
  then have 1: "set (sm_insert (node_name M ns0 i) True (p_globals P)) =
      (\<lambda>j. (node_name M ns0 j, True)) ` insert i A"
    using o(1) by (simp add: sm_insert_set)
  from f have "node_name M ns0 i \<notin> set (map fst (p_globals P))" by simp
  with o(4) f have k1: "distinct (map fst (sm_insert (node_name M ns0 i) True (p_globals P)))"
    by (simp add: sm_insert_keys)
  note 2 = table_update_set [OF o(2) fresh o(5)]
  note 3 = table_update_set [OF o(3) fresh o(6)]
  show ?thesis
    unfolding part_ok_def add_to_partition_fields n using 1 k1 2 3 by simp
qed

lemma part_ok_weight: "part_ok M fvars gvars ns0 A (P\<lparr>p_weight := w\<rparr>) = part_ok M fvars gvars ns0 A P"
  by (simp add: part_ok_def)

lemma ainv_find:
  assumes inv: "ainv M fvars gvars ns0 T D (ns, parts, pq)" and i: "i < length ns0"
    and inv0: "uf_inv (wt ns0) ns0"
  shows "\<exists>ns1 r. find_uf ns i = Some (ns1, r) \<and> root_of ns0 i r \<and>
           ainv M fvars gvars ns0 T D (ns1, parts, pq) \<and>
           (\<forall>j < length ns0. n_weight (ns1 ! j) = n_weight (ns ! j) \<and> n_size (ns1 ! j) = n_size (ns ! j))"
proof -
  from inv have len: "length ns = length ns0" and u: "uf_inv (wt ns0) ns"
    and pres: "\<And>j r. root_of ns0 j r \<Longrightarrow> root_of ns j r"
    by (auto simp: ainv_def)
  from find_uf_correct [OF u] i len obtain ns1 r where f: "find_uf ns i = Some (ns1, r)"
    "root_of ns i r" "uf_inv (wt ns0) ns1" "same_payload ns ns1"
    "\<forall>j r'. root_of ns j r' \<longrightarrow> root_of ns1 j r'" by (metis (no_types))
  have r0: "root_of ns0 i r" using inv0 pres len f(2) by (rule root_of_back)
  have pl: "length ns1 = length ns0" "\<forall>j < length ns0. n_GV (ns1 ! j) = n_GV (ns ! j) \<and>
      n_size (ns1 ! j) = n_size (ns ! j) \<and> n_weight (ns1 ! j) = n_weight (ns ! j)"
    using f(4) len by (simp_all add: same_payload_def)
  have D: "\<forall>j \<in> D. j < length ns0" using inv by (auto simp: ainv_def)
  have asg: "assigned D ns1 p = assigned D ns p" for p
    using pl(2) D by (auto simp: assigned_def)
  have "ainv M fvars gvars ns0 T D (ns1, parts, pq)"
    unfolding ainv_def prod.case
  proof (intro conjI)
    show "length ns1 = length ns0" by (rule pl(1))
    show "uf_inv (wt ns0) ns1" by (rule f(3))
    show "\<forall>j r. root_of ns0 j r \<longrightarrow> root_of ns1 j r" using pres f(5) by blast
    show "\<forall>j<length ns0. n_GV (ns1 ! j) = n_GV (ns0 ! j)"
      using inv pl(2) by (simp add: ainv_def)
    show "\<forall>j<length ns0. j \<notin> D \<longrightarrow> n_weight (ns1 ! j) = n_weight (ns0 ! j)"
      using inv pl(2) by (simp add: ainv_def)
    show "\<forall>j\<in>D. j < length ns0 \<and> n_weight (ns1 ! j) = 0 \<and> n_size (ns1 ! j) < T \<and>
        (\<forall>r. root_of ns0 j r \<longrightarrow> r \<in> D \<and> n_size (ns1 ! r) = n_size (ns1 ! j))"
    proof
      fix j assume j: "j \<in> D"
      with inv have a: "j < length ns0" "n_weight (ns ! j) = 0" "n_size (ns ! j) < T"
        "\<forall>r. root_of ns0 j r \<longrightarrow> r \<in> D \<and> n_size (ns ! r) = n_size (ns ! j)"
        by (auto simp: ainv_def)
      have "r \<in> D \<and> n_size (ns1 ! r) = n_size (ns1 ! j)" if "root_of ns0 j r" for r
      proof -
        from a(4) that have b: "r \<in> D" "n_size (ns ! r) = n_size (ns ! j)" by auto
        with D have "r < length ns0" by simp
        with pl(2) a(1) b show ?thesis by simp
      qed
      with a pl(2) show "j < length ns0 \<and> n_weight (ns1 ! j) = 0 \<and> n_size (ns1 ! j) < T \<and>
        (\<forall>r. root_of ns0 j r \<longrightarrow> r \<in> D \<and> n_size (ns1 ! r) = n_size (ns1 ! j))" by simp
    qed
    show "length parts = T" using inv by (simp add: ainv_def)
    show "set pq = {..<T}" using inv by (simp add: ainv_def)
    show "\<forall>p<T. part_ok M fvars gvars ns0 (assigned D ns1 p) (parts ! p)"
      using inv asg by (simp add: ainv_def)
  qed
  with f(1) r0 pl(2) show ?thesis by auto
qed

lemma ainv_assign:
  assumes inv: "ainv M fvars gvars ns0 T D (ns, parts, pq)"
    and i: "i < length ns0" "i \<notin> D" and p: "p < T"
    and rc: "\<forall>r. root_of ns0 i r \<longrightarrow> r = i \<or> (r \<in> D \<and> n_size (ns ! r) = p)"
    and P': "part_ok M fvars gvars ns0 (insert i (assigned D ns p)) P'"
    and pq': "set pq' = {..< T}"
  shows "ainv M fvars gvars ns0 T (insert i D)
           (ns[i := (ns ! i)\<lparr>n_weight := 0, n_size := p\<rparr>], parts[p := P'], pq')"
proof -
  let ?ns = "ns[i := (ns ! i)\<lparr>n_weight := 0, n_size := p\<rparr>]"
  from inv have len: "length ns = length ns0" and lp: "length parts = T"
    and D: "\<forall>j \<in> D. j < length ns0" by (auto simp: ainv_def)
  have nth: "?ns ! j = (if j = i then (ns ! i)\<lparr>n_weight := 0, n_size := p\<rparr> else ns ! j)"
    if "j < length ns0" for j using that len i(1) by (simp add: nth_list_update)
  have par: "\<forall>j < length ns. n_parent (?ns ! j) = n_parent (ns ! j)"
  proof (intro allI impI)
    fix j assume "j < length ns"
    then show "n_parent (?ns ! j) = n_parent (ns ! j)"
      using len i(1) by (cases "j = i") simp_all
  qed
  have l: "length ?ns = length ns" by simp
  have old: "?ns ! j = ns ! j" if "j \<in> D" for j
    using that D i(2) nth by auto
  have asg: "assigned (insert i D) ?ns q = (if q = p then insert i (assigned D ns q) else assigned D ns q)"
    for q using old nth [OF i(1)] by (auto simp: assigned_def)
  show ?thesis
    unfolding ainv_def prod.case
  proof (intro conjI)
    show "length ?ns = length ns0" using len by simp
    show "uf_inv (wt ns0) ?ns"
      using l par by (rule same_parents_uf_inv) (use inv in \<open>simp add: ainv_def\<close>)
    show "\<forall>j r. root_of ns0 j r \<longrightarrow> root_of ?ns j r"
    proof (intro allI impI)
      fix j r assume "root_of ns0 j r"
      with inv have "root_of ns j r" by (simp add: ainv_def)
      with l par show "root_of ?ns j r" by (rule same_parents_root_of)
    qed
    show "\<forall>j<length ns0. n_GV (?ns ! j) = n_GV (ns0 ! j)"
    proof (intro allI impI)
      fix j assume "j < length ns0"
      then show "n_GV (?ns ! j) = n_GV (ns0 ! j)"
        using inv len i(1) by (cases "j = i") (simp_all add: ainv_def)
    qed
    show "\<forall>j<length ns0. j \<notin> insert i D \<longrightarrow> n_weight (?ns ! j) = n_weight (ns0 ! j)"
    proof (intro allI impI)
      fix j assume "j < length ns0" "j \<notin> insert i D"
      then show "n_weight (?ns ! j) = n_weight (ns0 ! j)"
        using inv len i(1) by (cases "j = i") (simp_all add: ainv_def)
    qed
    show "\<forall>j\<in>insert i D. j < length ns0 \<and> n_weight (?ns ! j) = 0 \<and> n_size (?ns ! j) < T \<and>
        (\<forall>r. root_of ns0 j r \<longrightarrow> r \<in> insert i D \<and> n_size (?ns ! r) = n_size (?ns ! j))"
    proof
      fix j assume j: "j \<in> insert i D"
      show "j < length ns0 \<and> n_weight (?ns ! j) = 0 \<and> n_size (?ns ! j) < T \<and>
        (\<forall>r. root_of ns0 j r \<longrightarrow> r \<in> insert i D \<and> n_size (?ns ! r) = n_size (?ns ! j))"
      proof (cases "j = i")
        case True
        have "r \<in> insert i D \<and> n_size (?ns ! r) = n_size (?ns ! i)" if "root_of ns0 i r" for r
        proof (cases "r = i")
          case True
          then show ?thesis by simp
        next
          case False
          with rc that have "r \<in> D" "n_size (ns ! r) = p" by auto
          with old [of r] nth [OF i(1)] show ?thesis by simp
        qed
        with True i(1) p nth [OF i(1)] show ?thesis by simp
      next
        case False
        with j have jD: "j \<in> D" by simp
        with inv have a: "j < length ns0" "n_weight (ns ! j) = 0" "n_size (ns ! j) < T"
          "\<forall>r. root_of ns0 j r \<longrightarrow> r \<in> D \<and> n_size (ns ! r) = n_size (ns ! j)"
          by (auto simp: ainv_def)
        have "r \<in> insert i D \<and> n_size (?ns ! r) = n_size (?ns ! j)" if "root_of ns0 j r" for r
        proof -
          from a(4) that have "r \<in> D" "n_size (ns ! r) = n_size (ns ! j)" by auto
          with old [of r] old [OF jD] show ?thesis by simp
        qed
        with a old [OF jD] show ?thesis by simp
      qed
    qed
    show "length (parts[p := P']) = T" using lp by simp
    show "set pq' = {..<T}" by (rule pq')
    show "\<forall>q<T. part_ok M fvars gvars ns0 (assigned (insert i D) ?ns q) (parts[p := P'] ! q)"
    proof (intro allI impI)
      fix q assume q: "q < T"
      show "part_ok M fvars gvars ns0 (assigned (insert i D) ?ns q) (parts[p := P'] ! q)"
      proof (cases "q = p")
        case True
        with P' p lp show ?thesis by (simp add: asg)
      next
        case False
        with inv q show ?thesis by (simp add: asg ainv_def)
      qed
    qed
  qed
qed

lemma fresh_name:
  assumes inj: "inj_on (node_name M ns0) {..< length ns0}" and i: "i < length ns0" "i \<notin> D"
    and D: "\<forall>j \<in> D. j < length ns0"
  shows "node_name M ns0 i \<notin> node_name M ns0 ` assigned D ns p"
proof
  assume "node_name M ns0 i \<in> node_name M ns0 ` assigned D ns p"
  then obtain j where j: "j \<in> D" "node_name M ns0 i = node_name M ns0 j"
    by (auto simp: assigned_def)
  with D have "j < length ns0" by simp
  with inj i(1) j(2) have "i = j" by (auto dest: inj_onD)
  with j(1) i(2) show False by simp
qed

text \<open>One pass through the body of the loop, for a node whose root (if it is not the
  node itself) has been handled before. A root goes to a partition of least weight,
  which gains the root's weight; any other node goes to the partition of its root and
  changes no weight.\<close>

lemma assign_step_detail:
  assumes inv: "ainv M fvars gvars ns0 T D (ns, parts, pq)" and i: "i < length ns0" "i \<notin> D"
    and T: "0 < T"
    and inv0: "uf_inv (wt ns0) ns0" and pos: "\<forall>j < length ns0. 0 < n_weight (ns0 ! j)"
    and inj: "inj_on (node_name M ns0) {..< length ns0}"
    and before: "\<forall>r. root_of ns0 i r \<longrightarrow> r \<noteq> i \<longrightarrow> r \<in> D"
  shows "\<exists>ns' parts' pq'. assign_step M fvars gvars i (ns, parts, pq) = Inr (ns', parts', pq') \<and>
           ainv M fvars gvars ns0 T (insert i D) (ns', parts', pq') \<and>
           (\<forall>j \<in> D. n_size (ns' ! j) = n_size (ns ! j)) \<and>
           (if root_of ns0 i i then
              \<exists>p < T. (\<forall>q < T. p_weight (parts ! p) \<le> p_weight (parts ! q)) \<and>
                n_size (ns' ! i) = p \<and>
                p_weight (parts' ! p) = p_weight (parts ! p) + n_weight (ns0 ! i) \<and>
                (\<forall>q < T. q \<noteq> p \<longrightarrow> parts' ! q = parts ! q)
            else \<forall>q < T. p_weight (parts' ! q) = p_weight (parts ! q))"
proof -
  from ainv_find [OF inv i(1) inv0]
  obtain ns1 r where f: "find_uf ns i = Some (ns1, r)" "root_of ns0 i r"
    "ainv M fvars gvars ns0 T D (ns1, parts, pq)"
    "\<forall>j < length ns0. n_weight (ns1 ! j) = n_weight (ns ! j) \<and> n_size (ns1 ! j) = n_size (ns ! j)"
    by blast
  note inv1 = f(3)
  from inv1 have len: "length ns1 = length ns0" and lp: "length parts = T"
    and pqs: "set pq = {..< T}" and D: "\<forall>j \<in> D. j < length ns0"
    and gv: "\<forall>j < length ns0. n_GV (ns1 ! j) = n_GV (ns0 ! j)"
    by (auto simp: ainv_def)
  have rf: "root_of ns0 i r' \<Longrightarrow> r' = r" for r' using f(2) root_of_fun by blast
  have keep: "n_size (ns1[i := N] ! j) = n_size (ns ! j)" if "j \<in> D" for j N
  proof -
    from that D i(2) have "j < length ns0" "j \<noteq> i" by auto
    with f(4) show ?thesis by simp
  qed
  show ?thesis
  proof (cases "r = i")
    case True
    with f(2) have ri: "root_of ns0 i i" by simp
    from inv1 i have w: "n_weight (ns1 ! i) = n_weight (ns0 ! i)" by (simp add: ainv_def)
    from pos i(1) have "0 < n_weight (ns0 ! i)" by blast
    with w have w0: "n_weight (ns1 ! i) \<noteq> 0" by linarith
    have "0 \<in> {..< T}" using T by simp
    then have "0 \<in> set pq" unfolding pqs .
    then have "pq \<noteq> []" by auto
    from pq_top_Some [OF this, of parts] obtain p where p: "pq_top parts pq = Some p" "p \<in> set pq"
      "\<forall>q \<in> set pq. p_weight (parts ! p) \<le> p_weight (parts ! q)"
      by blast
    with pqs have pT: "p < T" by simp
    from p(3) pqs have least: "\<forall>q < T. p_weight (parts ! p) \<le> p_weight (parts ! q)" by simp
    let ?P = "add_to_partition M fvars gvars (n_GV (ns1 ! i)) (parts ! p)"
    let ?P' = "?P\<lparr>p_weight := p_weight ?P + n_weight (ns1 ! i)\<rparr>"
    let ?ns = "ns1[i := (ns1 ! i)\<lparr>n_weight := 0, n_size := p\<rparr>]"
    let ?st = "(?ns, parts[p := ?P'], pq_push p (pq_pop p pq))"
    have ar: "assign_root M fvars gvars i (ns1, parts, pq) = Inr ?st"
      using w0 p(1) by (simp add: assign_root_def Let_def)
    have pk: "part_ok M fvars gvars ns0 (assigned D ns1 p) (parts ! p)"
      using inv1 pT by (simp add: ainv_def)
    have fr: "node_name M ns0 i \<notin> node_name M ns0 ` assigned D ns1 p"
      using inj i D by (rule fresh_name)
    have "part_ok M fvars gvars ns0 (insert i (assigned D ns1 p)) ?P'"
      unfolding part_ok_weight using part_ok_add [OF pk fr] gv i(1) by simp
    moreover have "\<forall>r'. root_of ns0 i r' \<longrightarrow> r' = i \<or> (r' \<in> D \<and> n_size (ns1 ! r') = p)"
      using rf True by auto
    moreover have "set (pq_push p (pq_pop p pq)) = {..< T}"
      using pq_cycle_set [OF p(2)] pqs by simp
    ultimately have a: "ainv M fvars gvars ns0 T (insert i D) ?st"
      using ainv_assign [OF inv1 i pT] by blast
    have e: "assign_step M fvars gvars i (ns, parts, pq) = Inr ?st"
      using f(1) ar True by (simp add: assign_step_def assign_child_def)
    have k: "\<forall>j \<in> D. n_size (?ns ! j) = n_size (ns ! j)" using keep by blast
    have s: "n_size (?ns ! i) = p" using i(1) len by simp
    have pw: "p_weight (parts[p := ?P'] ! p) = p_weight (parts ! p) + n_weight (ns0 ! i)"
      using pT lp w by (simp add: add_to_partition_fields)
    have ot: "\<forall>q < T. q \<noteq> p \<longrightarrow> parts[p := ?P'] ! q = parts ! q" by simp
    have "\<exists>p' < T. (\<forall>q < T. p_weight (parts ! p') \<le> p_weight (parts ! q)) \<and>
                n_size (?ns ! i) = p' \<and>
                p_weight (parts[p := ?P'] ! p') = p_weight (parts ! p') + n_weight (ns0 ! i) \<and>
                (\<forall>q < T. q \<noteq> p' \<longrightarrow> parts[p := ?P'] ! q = parts ! q)"
      using pT least s pw ot by blast
    with ri have c: "if root_of ns0 i i then
              \<exists>p' < T. (\<forall>q < T. p_weight (parts ! p') \<le> p_weight (parts ! q)) \<and>
                n_size (?ns ! i) = p' \<and>
                p_weight (parts[p := ?P'] ! p') = p_weight (parts ! p') + n_weight (ns0 ! i) \<and>
                (\<forall>q < T. q \<noteq> p' \<longrightarrow> parts[p := ?P'] ! q = parts ! q)
            else \<forall>q < T. p_weight (parts[p := ?P'] ! q) = p_weight (parts ! q)"
      by (simp only: if_True)
    show ?thesis by (intro exI conjI, rule e, rule a, rule k, rule c)
  next
    case False
    have nri: "\<not> root_of ns0 i i" using rf False by blast
    from False before f(2) have rD: "r \<in> D" by blast
    with inv1 have r: "n_weight (ns1 ! r) = 0" "n_size (ns1 ! r) < T" by (auto simp: ainv_def)
    let ?p = "n_size (ns1 ! r)"
    let ?P = "add_to_partition M fvars gvars (n_GV (ns1 ! i)) (parts ! ?p)"
    let ?ns = "ns1[i := (ns1 ! i)\<lparr>n_weight := 0, n_size := ?p\<rparr>]"
    let ?st = "(?ns, parts[?p := ?P], pq)"
    have ar: "assign_root M fvars gvars r (ns1, parts, pq) = Inr (ns1, parts, pq)"
      using r(1) by (simp add: assign_root_def)
    have ac: "assign_child M fvars gvars r i (ns1, parts, pq) = Inr ?st"
      using False r(2) lp by (simp add: assign_child_def Let_def)
    have pk: "part_ok M fvars gvars ns0 (assigned D ns1 ?p) (parts ! ?p)"
      using inv1 r(2) by (simp add: ainv_def)
    have fr: "node_name M ns0 i \<notin> node_name M ns0 ` assigned D ns1 ?p"
      using inj i D by (rule fresh_name)
    have "part_ok M fvars gvars ns0 (insert i (assigned D ns1 ?p)) ?P"
      using part_ok_add [OF pk fr] gv i(1) by simp
    moreover have "\<forall>r'. root_of ns0 i r' \<longrightarrow> r' = i \<or> (r' \<in> D \<and> n_size (ns1 ! r') = ?p)"
      using rf rD by auto
    ultimately have a: "ainv M fvars gvars ns0 T (insert i D) ?st"
      using ainv_assign [OF inv1 i r(2)] pqs by blast
    have e: "assign_step M fvars gvars i (ns, parts, pq) = Inr ?st"
      using f(1) ar ac by (simp add: assign_step_def)
    have k: "\<forall>j \<in> D. n_size (?ns ! j) = n_size (ns ! j)" using keep by blast
    have pw: "\<forall>q < T. p_weight (parts[?p := ?P] ! q) = p_weight (parts ! q)"
    proof (intro allI impI)
      fix q assume "q < T"
      then show "p_weight (parts[?p := ?P] ! q) = p_weight (parts ! q)"
        using lp by (cases "q = ?p") (simp_all add: add_to_partition_fields)
    qed
    from nri pw have c: "if root_of ns0 i i then
              \<exists>p' < T. (\<forall>q < T. p_weight (parts ! p') \<le> p_weight (parts ! q)) \<and>
                n_size (?ns ! i) = p' \<and>
                p_weight (parts[?p := ?P] ! p') = p_weight (parts ! p') + n_weight (ns0 ! i) \<and>
                (\<forall>q < T. q \<noteq> p' \<longrightarrow> parts[?p := ?P] ! q = parts ! q)
            else \<forall>q < T. p_weight (parts[?p := ?P] ! q) = p_weight (parts ! q)"
      by (simp only: if_False)
    show ?thesis by (intro exI conjI, rule e, rule a, rule k, rule c)
  qed
qed

lemma assign_step_correct:
  assumes inv: "ainv M fvars gvars ns0 T D st" and i: "i < length ns0" "i \<notin> D"
    and T: "0 < T"
    and inv0: "uf_inv (wt ns0) ns0" and pos: "\<forall>j < length ns0. 0 < n_weight (ns0 ! j)"
    and inj: "inj_on (node_name M ns0) {..< length ns0}"
    and before: "\<forall>r. root_of ns0 i r \<longrightarrow> r \<noteq> i \<longrightarrow> r \<in> D"
  shows "\<exists>st'. assign_step M fvars gvars i st = Inr st' \<and>
           ainv M fvars gvars ns0 T (insert i D) st' \<and>
           (\<forall>j \<in> D. n_size (fst st' ! j) = n_size (fst st ! j))"
proof -
  obtain ns parts pq where st: "st = (ns, parts, pq)" by (cases st)
  from assign_step_detail [OF inv [unfolded st] i T inv0 pos inj before]
  obtain ns' parts' pq' where "assign_step M fvars gvars i (ns, parts, pq) = Inr (ns', parts', pq')"
    "ainv M fvars gvars ns0 T (insert i D) (ns', parts', pq')"
    "\<forall>j \<in> D. n_size (ns' ! j) = n_size (ns ! j)" by blast
  then show ?thesis unfolding st by (intro exI [of _ "(ns', parts', pq')"]) simp
qed

subsection \<open>The whole loop\<close>

lemma assign_all_correct:
  assumes "ainv M fvars gvars ns0 T D st" "distinct is" "set is \<inter> D = {}"
    "\<forall>i \<in> set is. i < length ns0"
    "sorted_wrt (\<lambda>a b. n_weight (ns0 ! b) \<le> n_weight (ns0 ! a)) is"
    "\<forall>i \<in> set is. \<forall>r. root_of ns0 i r \<longrightarrow> r \<in> D \<union> set is"
    and T: "0 < T"
    and inv0: "uf_inv (wt ns0) ns0" and pos: "\<forall>j < length ns0. 0 < n_weight (ns0 ! j)"
    and inj: "inj_on (node_name M ns0) {..< length ns0}"
  shows "\<exists>st'. assign_all M fvars gvars is st = Inr st' \<and>
           ainv M fvars gvars ns0 T (D \<union> set is) st' \<and>
           (\<forall>j \<in> D. n_size (fst st' ! j) = n_size (fst st ! j))"
  using assms(1-6)
proof (induction "is" arbitrary: D st)
  case Nil
  then show ?case by simp
next
  case (Cons i "is")
  have i: "i < length ns0" "i \<notin> D" using Cons.prems(3,4) by auto
  have before: "\<forall>r. root_of ns0 i r \<longrightarrow> r \<noteq> i \<longrightarrow> r \<in> D"
  proof (intro allI impI)
    fix r assume r: "root_of ns0 i r" "r \<noteq> i"
    then have lt: "wt ns0 i < wt ns0 r" using root_of_rank_less [OF r(1) inv0] by auto
    from Cons.prems(6) r(1) have "r \<in> D \<union> set (i # is)" by auto
    moreover have "r \<notin> set is"
    proof
      assume "r \<in> set is"
      with Cons.prems(5) have "n_weight (ns0 ! r) \<le> n_weight (ns0 ! i)" by auto
      with lt show False by (simp add: wt_def)
    qed
    ultimately show "r \<in> D" using r(2) by auto
  qed
  from assign_step_correct [OF Cons.prems(1) i T inv0 pos inj before]
  obtain st1 where 1: "assign_step M fvars gvars i st = Inr st1"
    "ainv M fvars gvars ns0 T (insert i D) st1"
    "\<forall>j \<in> D. n_size (fst st1 ! j) = n_size (fst st ! j)" by blast
  have p: "distinct is" "set is \<inter> insert i D = {}" "\<forall>i \<in> set is. i < length ns0"
    "sorted_wrt (\<lambda>a b. n_weight (ns0 ! b) \<le> n_weight (ns0 ! a)) is"
    "\<forall>k \<in> set is. \<forall>r. root_of ns0 k r \<longrightarrow> r \<in> insert i D \<union> set is"
    using Cons.prems(2-6) by auto
  from Cons.IH [OF 1(2) p]
  obtain st' where 2: "assign_all M fvars gvars is st1 = Inr st'"
    "ainv M fvars gvars ns0 T (insert i D \<union> set is) st'"
    "\<forall>j \<in> insert i D. n_size (fst st' ! j) = n_size (fst st1 ! j)" by blast
  have "insert i D \<union> set is = D \<union> set (i # is)" by auto
  moreover have "\<forall>j \<in> D. n_size (fst st' ! j) = n_size (fst st ! j)" using 1(3) 2(3) by simp
  ultimately show ?case using 1(1) 2(1,2) by simp
qed

lemma sorted_idxs_set: "set (sorted_idxs ns) = {..< length ns}"
  by (auto simp: sorted_idxs_def)

lemma sorted_idxs_distinct: "distinct (sorted_idxs ns)"
  by (simp add: sorted_idxs_def)

lemma sorted_idxs_sorted:
  "sorted_wrt (\<lambda>a b. n_weight (ns ! b) \<le> n_weight (ns ! a)) (sorted_idxs ns)"
proof -
  let ?f = "\<lambda>i. n_weight (ns ! i)"
  have "sorted (map ?f (sort_key ?f [0 ..< length ns]))" by (rule sorted_sort_key)
  then have "sorted_wrt (\<lambda>a b. ?f a \<le> ?f b) (sort_key ?f [0 ..< length ns])"
    by (simp add: sorted_wrt_map)
  then show ?thesis
    unfolding sorted_idxs_def by (simp add: sorted_wrt_rev)
qed

lemma ainv_init:
  assumes "uf_inv (wt ns0) ns0"
  shows "ainv M fvars gvars ns0 T {} (ns0, replicate T empty_partition, [0 ..< T])"
  using assms
  by (auto simp: ainv_def part_ok_def assigned_def table_entries_def empty_partition_def)

lemma assign_phase_correct:
  assumes m: "minv ns0" and T: "0 < T" and inj: "inj_on (node_name M ns0) {..< length ns0}"
  shows "\<exists>ns parts pq. assign_all M fvars gvars (sorted_idxs ns0)
             (ns0, replicate T empty_partition, [0 ..< T]) = Inr (ns, parts, pq) \<and>
           ainv M fvars gvars ns0 T {..< length ns0} (ns, parts, pq)"
proof -
  from m have inv0: "uf_inv (wt ns0) ns0" and pos: "\<forall>j < length ns0. 0 < n_weight (ns0 ! j)"
    by (simp_all add: minv_def)
  have r: "\<forall>i \<in> set (sorted_idxs ns0). \<forall>r. root_of ns0 i r \<longrightarrow> r \<in> {} \<union> set (sorted_idxs ns0)"
    using root_of_bounds by (auto simp: sorted_idxs_set)
  have b: "\<forall>i \<in> set (sorted_idxs ns0). i < length ns0" by (simp add: sorted_idxs_set)
  from assign_all_correct [OF ainv_init [OF inv0] sorted_idxs_distinct _ b sorted_idxs_sorted r
      T inv0 pos inj, of fvars gvars]
  obtain st' where "assign_all M fvars gvars (sorted_idxs ns0)
             (ns0, replicate T empty_partition, [0 ..< T]) = Inr st'"
    "ainv M fvars gvars ns0 T ({} \<union> set (sorted_idxs ns0)) st'" by blast
  then show ?thesis by (cases st') (auto simp: sorted_idxs_set)
qed

section \<open>The two phases of \<open>partitionModule\<close> on a well-formed module\<close>

lemma index_map_iff:
  "distinct xs \<Longrightarrow>
   index_map xs i m g = Some v \<longleftrightarrow>
     (\<exists>k < length xs. xs ! k = g \<and> v = i + k) \<or> (g \<notin> set xs \<and> m g = Some v)"
proof (induction xs arbitrary: i m)
  case Nil
  then show ?case by simp
next
  case (Cons x xs)
  from Cons.prems have d: "distinct xs" and x: "x \<notin> set xs" by auto
  have a: "(\<exists>k < length (x # xs). (x # xs) ! k = g \<and> v = i + k) \<longleftrightarrow>
      (x = g \<and> v = i) \<or> (\<exists>k < length xs. xs ! k = g \<and> v = Suc i + k)"
  proof
    assume "\<exists>k < length (x # xs). (x # xs) ! k = g \<and> v = i + k"
    then obtain k where k: "k < length (x # xs)" "(x # xs) ! k = g" "v = i + k" by blast
    show "(x = g \<and> v = i) \<or> (\<exists>k < length xs. xs ! k = g \<and> v = Suc i + k)"
    proof (cases k)
      case 0
      with k show ?thesis by simp
    next
      case (Suc k')
      with k have "k' < length xs" "xs ! k' = g" "v = Suc i + k'" by auto
      then show ?thesis by blast
    qed
  next
    assume "(x = g \<and> v = i) \<or> (\<exists>k < length xs. xs ! k = g \<and> v = Suc i + k)"
    then show "\<exists>k < length (x # xs). (x # xs) ! k = g \<and> v = i + k"
    proof
      assume "x = g \<and> v = i"
      then have "0 < length (x # xs) \<and> (x # xs) ! 0 = g \<and> v = i + 0" by simp
      then show ?thesis by blast
    next
      assume "\<exists>k < length xs. xs ! k = g \<and> v = Suc i + k"
      then obtain k where "k < length xs" "xs ! k = g" "v = Suc i + k" by blast
      then have "Suc k < length (x # xs) \<and> (x # xs) ! Suc k = g \<and> v = i + Suc k" by simp
      then show ?thesis by blast
    qed
  qed
  have b: "(\<exists>k < length xs. xs ! k = g) \<longleftrightarrow> g \<in> set xs" by (auto simp: in_set_conv_nth)
  show ?case
    unfolding index_map.simps Cons.IH [OF d] a using x b by auto
qed

lemma get_fvars_gvars_wf:
  assumes "wf_module M"
  shows "\<exists>F G. jl_fvars M = Some F \<and> jl_gvars M = Some G \<and>
     get_fvars_gvars M =
       Inr (M\<lparr>jl_fvars := None, jl_gvars := None, jl_fvar_idxs := None, jl_gvar_idxs := None\<rparr>,
            index_map F 0 Map.empty, index_map G 0 Map.empty)"
  using assms by (auto simp: wf_module_def get_fvars_gvars_def)

lemma partitionable_ids_iff: "g \<in> set (partitionable_ids M) \<longleftrightarrow> partitionable M g"
  by (auto simp: partitionable_ids_def global_values_iff partitionable_def split: option.splits)

lemma partition_setup_correct:
  assumes wf: "wf_module M"
  shows "\<exists>M2 fvars gvars ns0 F G.
      partition_setup M = Inr (M2, fvars, gvars, ns0) \<and>
      jl_fvars M = Some F \<and> jl_gvars M = Some G \<and>
      fvars = index_map F 0 Map.empty \<and> gvars = index_map G 0 Map.empty \<and>
      same_shape M M2 \<and> minv ns0 \<and>
      n_GV ` set ns0 = set (partitionable_ids M) \<and>
      inj_on (\<lambda>j. n_GV (ns0 ! j)) {..< length ns0} \<and>
      (\<forall>j < length ns0. \<forall>v \<in> set (users_of M (n_GV (ns0 ! j))).
         \<exists>k < length ns0. n_GV (ns0 ! k) = v \<and> same_comp ns0 j k) \<and>
      (\<forall>g. partitionable M g \<longrightarrow>
         (\<exists>G'. value_at M2 g = Some G' \<and> gv_linkage G' = ExternalLinkage \<and>
               gv_visibility G' = HiddenVisibility))"
proof -
  from get_fvars_gvars_wf [OF wf] obtain F G where t: "jl_fvars M = Some F" "jl_gvars M = Some G"
    "get_fvars_gvars M =
       Inr (M\<lparr>jl_fvars := None, jl_gvars := None, jl_fvar_idxs := None, jl_gvar_idxs := None\<rparr>,
            index_map F 0 Map.empty, index_map G 0 Map.empty)" by blast
  define M1 where "M1 = M\<lparr>jl_fvars := None, jl_gvars := None, jl_fvar_idxs := None, jl_gvar_idxs := None\<rparr>"
  have v1: "value_at M1 g = value_at M g" for g by (simp add: M1_def value_at_def)
  have gv1: "global_values M1 = global_values M"
    by (simp add: M1_def global_values_def m_functions_def m_globals_def m_aliases_def ids_of_kind_def)
  have s1: "same_shape M M1" by (simp add: same_shape_def v1) (simp add: M1_def)
  let ?P0 = "\<lparr>nodes = [], node_map = Map.empty\<rparr>"
  have ok0: "nodes_ok M ?P0" by (simp add: nodes_ok_def)
  have w: "\<forall>g \<in> set (global_values M1). partitionable M g \<longrightarrow>
       (case value_at M g of None \<Rightarrow> False | Some G \<Rightarrow> node_weight G \<noteq> None)"
    using wf by (simp add: wf_module_def partitionable_ids_iff)
  have nn: "\<forall>g \<in> set (global_values M1). value_at M g \<noteq> None"
    by (simp add: gv1 global_values_iff)
  from make_nodes_correct [OF s1 ok0 _ distinct_global_values nn w]
  obtain M2 P where mk: "make_nodes (global_values M1) (M1, ?P0) = Inr (M2, P)" "same_shape M M2"
    "nodes_ok M P" "n_GV ` set (nodes P) = {g \<in> set (global_values M1). partitionable M g}"
    "\<forall>g \<in> set (global_values M1). partitionable M g \<longrightarrow>
              (\<exists>G'. value_at M2 g = Some G' \<and> gv_linkage G' = ExternalLinkage \<and>
                    gv_visibility G' = HiddenVisibility)"
    by auto
  define ns1 where "ns1 = nodes P"
  have img: "n_GV ` set ns1 = set (partitionable_ids M)"
    using mk(4) by (simp add: ns1_def gv1 partitionable_ids_def)
  have ok: "\<forall>i < length ns1. n_parent (ns1 ! i) = i \<and> 0 < n_weight (ns1 ! i) \<and>
        node_map P (n_GV (ns1 ! i)) = Some i \<and> partitionable M (n_GV (ns1 ! i))"
    using mk(3) by (simp add: nodes_ok_def ns1_def)
  have m1: "minv ns1"
    unfolding minv_def uf_inv_def
  proof (intro conjI allI impI)
    fix i assume i: "i < length ns1"
    from ok [rule_format, OF i] show "n_parent (ns1 ! i) < length ns1" using i by simp
    from ok [rule_format, OF i] show "0 < n_weight (ns1 ! i)" by simp
    assume "n_parent (ns1 ! i) \<noteq> i"
    with ok [rule_format, OF i] show "wt ns1 i < wt ns1 (n_parent (ns1 ! i))" by simp
  qed
  have u: "\<forall>i \<in> set [0 ..< length ns1]. \<forall>val \<in> set (users_of M2 (n_GV (ns1 ! i))).
       \<exists>idx. node_map P val = Some idx \<and> idx < length ns1"
  proof (intro ballI)
    fix i val assume i: "i \<in> set [0 ..< length ns1]"
      and val: "val \<in> set (users_of M2 (n_GV (ns1 ! i)))"
    from i have "i < length ns1" by simp
    from ok [rule_format, OF this] have p: "partitionable M (n_GV (ns1 ! i))" by blast
    from val have "val \<in> set (users_of M (n_GV (ns1 ! i)))"
      by (simp add: same_shape_users_of [OF mk(2)])
    with wf p have "partitionable M val" by (auto simp: wf_module_def partitionable_ids_iff)
    then have "val \<in> n_GV ` set ns1" by (simp add: img partitionable_ids_iff)
    then obtain idx where idx: "idx < length ns1" "n_GV (ns1 ! idx) = val"
      by (auto simp: in_set_conv_nth)
    with ok [rule_format, of idx] have "node_map P val = Some idx" by blast
    with idx show "\<exists>idx. node_map P val = Some idx \<and> idx < length ns1" by blast
  qed
  have b: "\<forall>i \<in> set [0 ..< length ns1]. i < length ns1" by simp
  from merge_all_correct [OF m1 b u]
  obtain ns0 where mg: "merge_all M2 (node_map P) [0 ..< length ns1] ns1 = Inr ns0" "minv ns0"
    "length ns0 = length ns1" "\<forall>j < length ns1. n_GV (ns0 ! j) = n_GV (ns1 ! j)"
    "\<forall>i \<in> set [0 ..< length ns1]. \<forall>val \<in> set (users_of M2 (n_GV (ns1 ! i))).
              \<forall>idx. node_map P val = Some idx \<longrightarrow> same_comp ns0 i idx"
    by blast
  have e: "partition_setup M = Inr (M2, index_map F 0 Map.empty, index_map G 0 Map.empty, ns0)"
    using t(3) mk(1) mg(1) by (simp add: partition_setup_def M1_def ns1_def)
  have gveq: "map n_GV ns0 = map n_GV ns1"
    using mg(3,4) by (simp add: list_eq_iff_nth_eq)
  have img0: "n_GV ` set ns0 = set (partitionable_ids M)"
    using img gveq by (metis set_map)
  have inj: "inj_on (\<lambda>j. n_GV (ns0 ! j)) {..< length ns0}"
  proof (rule inj_onI)
    fix a b assume ab: "a \<in> {..< length ns0}" "b \<in> {..< length ns0}"
      "n_GV (ns0 ! a) = n_GV (ns0 ! b)"
    then have al: "a < length ns1" and bl: "b < length ns1" using mg(3) by simp_all
    from ab al bl have eq: "n_GV (ns1 ! a) = n_GV (ns1 ! b)"
      using mg(4) [rule_format, of a] mg(4) [rule_format, of b] by simp
    have na: "node_map P (n_GV (ns1 ! a)) = Some a" using ok [rule_format, OF al] by blast
    have nb: "node_map P (n_GV (ns1 ! b)) = Some b" using ok [rule_format, OF bl] by blast
    have "Some a = node_map P (n_GV (ns1 ! b))" using na unfolding eq by simp
    also have "\<dots> = Some b" by (rule nb)
    finally show "a = b" by simp
  qed
  have us: "\<forall>j < length ns0. \<forall>v \<in> set (users_of M (n_GV (ns0 ! j))).
         \<exists>k < length ns0. n_GV (ns0 ! k) = v \<and> same_comp ns0 j k"
  proof (intro allI impI ballI)
    fix j v assume j: "j < length ns0" and v: "v \<in> set (users_of M (n_GV (ns0 ! j)))"
    from j mg(3,4) have g: "n_GV (ns0 ! j) = n_GV (ns1 ! j)" and j1: "j \<in> set [0 ..< length ns1]"
      by simp_all
    from v g have v2: "v \<in> set (users_of M2 (n_GV (ns1 ! j)))"
      by (simp add: same_shape_users_of [OF mk(2)])
    from u j1 v2 obtain idx where idx: "node_map P v = Some idx" "idx < length ns1" by blast
    from mg(5) j1 v2 idx(1) have sc: "same_comp ns0 j idx" by blast
    from mk(3) idx(1) have "n_GV (ns1 ! idx) = v" by (simp add: nodes_ok_def ns1_def)
    with idx(2) mg(3,4) have "idx < length ns0" "n_GV (ns0 ! idx) = v" by simp_all
    with sc show "\<exists>k < length ns0. n_GV (ns0 ! k) = v \<and> same_comp ns0 j k" by blast
  qed
  have lk: "\<forall>g. partitionable M g \<longrightarrow>
         (\<exists>G'. value_at M2 g = Some G' \<and> gv_linkage G' = ExternalLinkage \<and>
               gv_visibility G' = HiddenVisibility)"
    using mk(5) by (simp add: gv1 global_values_iff partitionable_def split: option.splits)
  show ?thesis using e t(1,2) mk(2) mg(2) img0 inj us lk by blast
qed

section \<open>Properties of the accumulated weights\<close>

lemma finite_comp: "finite {j. root_of ns j r}"
proof (rule finite_subset)
  show "{j. root_of ns j r} \<subseteq> {..< length ns}" using root_of_bounds by auto
qed simp

lemma root_of_pres_iff:
  assumes pres: "\<And>j r. root_of ns j r \<Longrightarrow> root_of ns' j r" and inv: "uf_inv rk ns"
    and len: "length ns' = length ns"
  shows "root_of ns' j r \<longleftrightarrow> root_of ns j r"
proof
  assume a: "root_of ns' j r"
  from root_of_bounds [OF a] len have "j < length ns" by simp
  from root_of_ex [OF inv this] obtain r' where r': "root_of ns j r'" ..
  from root_of_fun [OF pres [OF r'] a] have "r' = r" .
  with r' show "root_of ns j r" by simp
qed (rule pres)

lemma comp_weight_cong:
  assumes gv: "\<forall>j < length ns. n_GV (ns' ! j) = n_GV (ns ! j)"
    and iff: "\<And>j. root_of ns' j r \<longleftrightarrow> root_of ns j r"
  shows "comp_weight M ns' r = comp_weight M ns r"
  unfolding comp_weight_def
proof (rule sum.cong)
  show "{j. root_of ns' j r} = {j. root_of ns j r}" using iff by simp
next
  fix j assume "j \<in> {j. root_of ns j r}"
  then have "j < length ns" using root_of_bounds by auto
  with gv show "node_w M (n_GV (ns' ! j)) = node_w M (n_GV (ns ! j))" by simp
qed

lemma sum_inv_cong:
  assumes s: "sum_inv M ns" and pres: "\<And>j r. root_of ns j r \<Longrightarrow> root_of ns' j r"
    and inv: "uf_inv rk ns" and p: "same_payload ns ns'"
  shows "sum_inv M ns'"
  unfolding sum_inv_def
proof (intro allI impI)
  fix r assume r: "root_of ns' r r"
  from p have len: "length ns' = length ns"
    and gv: "\<forall>j < length ns. n_GV (ns' ! j) = n_GV (ns ! j)"
    and w: "\<forall>j < length ns. n_weight (ns' ! j) = n_weight (ns ! j)"
    by (simp_all add: same_payload_def)
  note iff = root_of_pres_iff [OF pres inv len]
  from r iff have r0: "root_of ns r r" by simp
  then have "r < length ns" using root_of_bounds by auto
  with w have "n_weight (ns' ! r) = n_weight (ns ! r)" by simp
  also have "\<dots> = comp_weight M ns r" using s r0 by (simp add: sum_inv_def)
  also have "\<dots> = comp_weight M ns' r" using comp_weight_cong [OF gv iff] by simp
  finally show "n_weight (ns' ! r) = comp_weight M ns' r" .
qed

lemma link_root_of_iff:
  assumes inv: "uf_inv rk ns" and x: "x < length ns" "n_parent (ns ! x) = x"
    and y: "y < length ns" "n_parent (ns ! y) = y" and ne: "x \<noteq> y"
  shows "root_of (link ns x y) j r \<longleftrightarrow> (\<exists>r0. root_of ns j r0 \<and> r = (if r0 = y then x else r0))"
proof
  assume a: "root_of (link ns x y) j r"
  from root_of_bounds [OF a] have "j < length ns" by simp
  from root_of_ex [OF inv this] obtain r0 where r0: "root_of ns j r0" ..
  from link_root_of [OF x y ne r0] have "root_of (link ns x y) j (if r0 = y then x else r0)" .
  from root_of_fun [OF this a] have "r = (if r0 = y then x else r0)" by simp
  with r0 show "\<exists>r0. root_of ns j r0 \<and> r = (if r0 = y then x else r0)" by blast
next
  assume "\<exists>r0. root_of ns j r0 \<and> r = (if r0 = y then x else r0)"
  then obtain r0 where r0: "root_of ns j r0" "r = (if r0 = y then x else r0)" by blast
  from link_root_of [OF x y ne r0(1)] r0(2) show "root_of (link ns x y) j r" by simp
qed

lemma sum_inv_link:
  assumes s: "sum_inv M ns" and inv: "uf_inv rk ns" and x: "x < length ns" "n_parent (ns ! x) = x"
    and y: "y < length ns" "n_parent (ns ! y) = y" and ne: "x \<noteq> y"
  shows "sum_inv M (link ns x y)"
  unfolding sum_inv_def
proof (intro allI impI)
  fix r assume r: "root_of (link ns x y) r r"
  note iff = link_root_of_iff [OF inv x y ne]
  have rx: "root_of ns x x" using x by (rule root_of.root)
  have ry: "root_of ns y y" using y by (rule root_of.root)
  have gv: "\<forall>j < length ns. n_GV (link ns x y ! j) = n_GV (ns ! j)"
    using x(1) y(1) ne by (simp add: link_payload)
  from r iff obtain r0 where r0: "root_of ns r r0" "r = (if r0 = y then x else r0)" by blast
  have rl: "r < length ns" using root_of_bounds [OF r0(1)] by simp
  have rny: "r \<noteq> y" using r0(2) ne by (cases "r0 = y") simp_all
  show "n_weight (link ns x y ! r) = comp_weight M (link ns x y) r"
  proof (cases "r = x")
    case True
    have "{j. root_of (link ns x y) j x} = {j. root_of ns j x} \<union> {j. root_of ns j y}"
    proof (intro set_eqI iffI)
      fix j assume "j \<in> {j. root_of (link ns x y) j x}"
      with iff obtain q where q: "root_of ns j q" "x = (if q = y then x else q)" by blast
      show "j \<in> {j. root_of ns j x} \<union> {j. root_of ns j y}"
      proof (cases "q = y")
        case True
        with q(1) show ?thesis by simp
      next
        case False
        with q show ?thesis by simp
      qed
    next
      fix j assume "j \<in> {j. root_of ns j x} \<union> {j. root_of ns j y}"
      then have "root_of ns j x \<or> root_of ns j y" by simp
      then have "\<exists>q. root_of ns j q \<and> x = (if q = y then x else q)"
      proof
        assume "root_of ns j x"
        with ne have "root_of ns j x \<and> x = (if x = y then x else x)" by simp
        then show ?thesis by (rule exI)
      next
        assume "root_of ns j y"
        then have "root_of ns j y \<and> x = (if y = y then x else y)" by simp
        then show ?thesis by (rule exI)
      qed
      with iff show "j \<in> {j. root_of (link ns x y) j x}" by simp
    qed
    moreover have "{j. root_of ns j x} \<inter> {j. root_of ns j y} = {}"
      using root_of_fun ne by blast
    moreover have "\<And>j. j \<in> {j. root_of ns j x} \<union> {j. root_of ns j y} \<Longrightarrow>
        node_w M (n_GV (link ns x y ! j)) = node_w M (n_GV (ns ! j))"
      using gv root_of_bounds by auto
    ultimately have "comp_weight M (link ns x y) x = comp_weight M ns x + comp_weight M ns y"
      unfolding comp_weight_def by (simp add: sum.union_disjoint finite_comp)
    also have "\<dots> = n_weight (ns ! x) + n_weight (ns ! y)"
      using s rx ry by (simp add: sum_inv_def)
    also have "\<dots> = n_weight (link ns x y ! x)" using x(1) y(1) ne by (simp add: link_nth)
    finally show ?thesis using True by simp
  next
    case False
    have r0r: "r0 = r" using r0(2) False by (cases "r0 = y") simp_all
    have rr: "root_of ns r r" using r0(1) r0r by simp
    have e: "root_of (link ns x y) j r \<longleftrightarrow> root_of ns j r" for j
    proof
      assume "root_of (link ns x y) j r"
      with iff obtain q where q: "root_of ns j q" "r = (if q = y then x else q)" by blast
      with False have "q = r" by (cases "q = y") simp_all
      with q(1) show "root_of ns j r" by simp
    next
      assume "root_of ns j r"
      with rny have "root_of ns j r \<and> r = (if r = y then x else r)" by simp
      then have "\<exists>q. root_of ns j q \<and> r = (if q = y then x else q)" by (rule exI)
      with iff show "root_of (link ns x y) j r" by simp
    qed
    have "n_weight (link ns x y ! r) = n_weight (ns ! r)"
      using x(1) y(1) ne rl False rny by (simp add: link_nth)
    also have "\<dots> = comp_weight M ns r" using s rr by (simp add: sum_inv_def)
    also have "\<dots> = comp_weight M (link ns x y) r" using comp_weight_cong [OF gv e] by simp
    finally show ?thesis .
  qed
qed

lemma merge_uf_sum:
  assumes m: "minv ns" and x: "x < length ns" and y: "y < length ns"
    and s: "sum_inv M ns" and e: "merge_uf ns x y = Some (ns', r)"
  shows "sum_inv M ns'"
proof -
  from m have inv: "uf_inv (wt ns) ns" by (simp add: minv_def)
  from find_uf_correct [OF inv x] obtain ns1 x1 where 1: "find_uf ns x = Some (ns1, x1)"
    "root_of ns x x1" "uf_inv (wt ns) ns1" "same_payload ns ns1"
    "\<forall>j r'. root_of ns j r' \<longrightarrow> root_of ns1 j r'" by blast
  have len1: "length ns1 = length ns" using 1(4) by (simp add: same_payload_def)
  from find_uf_correct [OF 1(3)] y len1 obtain ns2 y1 where 2: "find_uf ns1 y = Some (ns2, y1)"
    "root_of ns1 y y1" "uf_inv (wt ns) ns2" "same_payload ns1 ns2"
    "\<forall>j r'. root_of ns1 j r' \<longrightarrow> root_of ns2 j r'" by (metis (no_types))
  have p2: "same_payload ns ns2" using 1(4) 2(4) by (rule same_payload_trans)
  have m2: "minv ns2" using m 2(3) p2 by (rule same_payload_minv)
  then have inv2: "uf_inv (wt ns2) ns2" by (simp add: minv_def)
  have pres: "root_of ns j r \<Longrightarrow> root_of ns2 j r" for j r using 1(5) 2(5) by blast
  have s2: "sum_inv M ns2" using s pres inv p2 by (rule sum_inv_cong)
  have rx: "root_of ns2 x x1" using pres [OF 1(2)] .
  have ry: "root_of ns2 y y1" using 2(2,5) by blast
  show ?thesis
  proof (cases "x1 = y1")
    case True
    then have "merge_uf ns x y = Some (ns2, x1)" using 1(1) 2(1) by (simp add: merge_uf_def)
    with e s2 show ?thesis by simp
  next
    case False
    define x2 where "x2 = (if n_size (ns2 ! x1) < n_size (ns2 ! y1) then y1 else x1)"
    define y2 where "y2 = (if n_size (ns2 ! x1) < n_size (ns2 ! y1) then x1 else y1)"
    have xy: "x2 \<noteq> y2" using False by (auto simp: x2_def y2_def)
    have bx: "x1 < length ns2" "n_parent (ns2 ! x1) = x1" using root_of_bounds [OF rx] by auto
    have by': "y1 < length ns2" "n_parent (ns2 ! y1) = y1" using root_of_bounds [OF ry] by auto
    have b2: "x2 < length ns2" "n_parent (ns2 ! x2) = x2" "y2 < length ns2" "n_parent (ns2 ! y2) = y2"
      using bx by' by (auto simp: x2_def y2_def)
    have "merge_uf ns x y = Some (link ns2 x2 y2, x2)"
      using 1(1) 2(1) False b2 xy
      by (simp add: merge_uf_def link_def Let_def x2_def y2_def nth_list_update)
    then have "Some (ns', r) = Some (link ns2 x2 y2, x2)" unfolding e .
    then have "ns' = link ns2 x2 y2" by simp
    with sum_inv_link [OF s2 inv2 b2 xy] show ?thesis by simp
  qed
qed

lemma merge_uses_sum:
  assumes "merge_uses nm i vals ns = Inr ns'" "minv ns" "i < length ns"
    "\<forall>val idx. nm val = Some idx \<longrightarrow> idx < length ns" "sum_inv M ns"
  shows "sum_inv M ns' \<and> minv ns' \<and> length ns' = length ns"
  using assms
proof (induction vals arbitrary: ns)
  case Nil
  then show ?case by simp
next
  case (Cons val vals)
  from Cons.prems(1) obtain idx where idx: "nm val = Some idx"
    by (cases "nm val") simp_all
  with Cons.prems(4) have il: "idx < length ns" by blast
  from merge_uf_correct [OF Cons.prems(2,3) il]
  obtain ns1 r where 1: "merge_uf ns i idx = Some (ns1, r)" "minv ns1" "length ns1 = length ns"
    by blast
  from merge_uf_sum [OF Cons.prems(2,3) il Cons.prems(5) 1(1)] have s1: "sum_inv M ns1" .
  from Cons.prems(1) idx 1(1) have e: "merge_uses nm i vals ns1 = Inr ns'" by simp
  from Cons.prems(3,4) 1(3) have b: "i < length ns1" "\<forall>val idx. nm val = Some idx \<longrightarrow> idx < length ns1"
    by simp_all
  from Cons.IH [OF e 1(2) b s1] 1(3) show ?case by simp
qed

lemma merge_all_sum:
  assumes "merge_all M2 nm is ns = Inr ns'" "minv ns" "\<forall>i \<in> set is. i < length ns"
    "\<forall>val idx. nm val = Some idx \<longrightarrow> idx < length ns" "sum_inv M ns"
  shows "sum_inv M ns'"
  using assms
proof (induction "is" arbitrary: ns)
  case Nil
  then show ?case by simp
next
  case (Cons i "is")
  from Cons.prems(1) obtain ns1 where 1: "merge_uses nm i (users_of M2 (n_GV (ns ! i))) ns = Inr ns1"
    "merge_all M2 nm is ns1 = Inr ns'"
    by (cases "merge_uses nm i (users_of M2 (n_GV (ns ! i))) ns") simp_all
  from Cons.prems(3) have il: "i < length ns" by simp
  from merge_uses_sum [OF 1(1) Cons.prems(2) il Cons.prems(4,5)]
  have s: "sum_inv M ns1" "minv ns1" "length ns1 = length ns" by simp_all
  from Cons.prems(3,4) s(3) have b: "\<forall>i \<in> set is. i < length ns1"
    "\<forall>val idx. nm val = Some idx \<longrightarrow> idx < length ns1" by simp_all
  from Cons.IH [OF 1(2) s(2) b s(1)] show ?case .
qed

text \<open>Every node is made with the weight of its global value.\<close>

lemma same_shape_node_w:
  assumes "same_shape M Mc" "value_at Mc g = Some Gc" "node_weight Gc = Some w"
  shows "node_w M g = w"
proof -
  from assms(1) have "map_option core (value_at Mc g) = map_option core (value_at M g)"
    by (simp add: same_shape_def)
  with assms(2) obtain G where G: "value_at M g = Some G" "core G = core Gc"
    by (cases "value_at M g") simp_all
  have "node_weight G = node_weight (core G)" by (simp add: core_node_weight)
  also have "\<dots> = node_weight Gc" unfolding G(2) by (simp add: core_node_weight)
  finally show ?thesis using G(1) assms(3) by (simp add: node_w_def)
qed

lemma make_nodes_weights:
  assumes "make_nodes gs (Mc, P) = Inr (M', P')" "same_shape M Mc"
    "\<forall>i < length (nodes P). n_weight (nodes P ! i) = node_w M (n_GV (nodes P ! i))"
  shows "\<forall>i < length (nodes P'). n_weight (nodes P' ! i) = node_w M (n_GV (nodes P' ! i))"
  using assms
proof (induction gs arbitrary: Mc P)
  case Nil
  then show ?case by simp
next
  case (Cons g gs)
  from Cons.prems(1) obtain Gc where Gc: "value_at Mc g = Some Gc"
    by (cases "value_at Mc g") simp_all
  show ?case
  proof (cases "isDeclaration Gc \<or> \<not> canPartition Gc")
    case True
    with Cons.prems(1) Gc have "make_nodes gs (Mc, P) = Inr (M', P')"
      by (cases "isDeclaration Gc") simp_all
    from Cons.IH [OF this Cons.prems(2,3)] show ?thesis .
  next
    case False
    with Cons.prems(1) Gc obtain w where w: "node_weight Gc = Some w"
      by (cases "node_weight Gc") auto
    let ?Mc = "set_value Mc g
      (Some (Gc\<lparr>gv_linkage := ExternalLinkage, gv_visibility := HiddenVisibility\<rparr>))"
    let ?P = "fst (make P g w)"
    have e: "make_nodes gs (?Mc, ?P) = Inr (M', P')" using Cons.prems(1) Gc False w by simp
    have s: "same_shape M ?Mc" using Cons.prems(2) Gc by (rule same_shape_set_value)
    have nw: "node_w M g = w" using Cons.prems(2) Gc w by (rule same_shape_node_w)
    have n: "nodes ?P = nodes P @ [\<lparr>n_GV = g, n_parent = length (nodes P), n_size = 1, n_weight = w\<rparr>]"
      by (simp add: make_def Let_def)
    have "\<forall>i < length (nodes ?P). n_weight (nodes ?P ! i) = node_w M (n_GV (nodes ?P ! i))"
    proof (intro allI impI)
      fix i assume i: "i < length (nodes ?P)"
      show "n_weight (nodes ?P ! i) = node_w M (n_GV (nodes ?P ! i))"
      proof (cases "i < length (nodes P)")
        case True
        with Cons.prems(3) show ?thesis by (simp add: n nth_append)
      next
        case False
        with i have "i = length (nodes P)" by (simp add: n)
        with nw show ?thesis by (simp add: n)
      qed
    qed
    from Cons.IH [OF e s this] show ?thesis .
  qed
qed

lemma sum_inv_initial:
  assumes "\<forall>i < length ns. n_parent (ns ! i) = i \<and> n_weight (ns ! i) = node_w M (n_GV (ns ! i))"
  shows "sum_inv M ns"
  unfolding sum_inv_def
proof (intro allI impI)
  fix r assume r: "root_of ns r r"
  have "{j. root_of ns j r} = {r}"
  proof (intro set_eqI iffI)
    fix j assume "j \<in> {j. root_of ns j r}"
    then have j: "root_of ns j r" by simp
    from root_of_bounds [OF j] assms have "n_parent (ns ! j) = j" by simp
    from root_of_self [OF j this] show "j \<in> {r}" by simp
  next
    fix j assume "j \<in> {r}"
    with r show "j \<in> {j. root_of ns j r}" by simp
  qed
  then have "comp_weight M ns r = node_w M (n_GV (ns ! r))" by (simp add: comp_weight_def)
  with assms root_of_bounds [OF r] show "n_weight (ns ! r) = comp_weight M ns r" by simp
qed

text \<open>After the merging every root carries the weight of its component.\<close>

lemma partition_setup_weights:
  assumes wf: "wf_module M" and e: "partition_setup M = Inr (M2, fvars, gvars, ns0)"
  shows "sum_inv M ns0"
proof -
  from get_fvars_gvars_wf [OF wf] obtain F G where t: "jl_fvars M = Some F" "jl_gvars M = Some G"
    "get_fvars_gvars M =
       Inr (M\<lparr>jl_fvars := None, jl_gvars := None, jl_fvar_idxs := None, jl_gvar_idxs := None\<rparr>,
            index_map F 0 Map.empty, index_map G 0 Map.empty)" by blast
  define M1 where "M1 = M\<lparr>jl_fvars := None, jl_gvars := None, jl_fvar_idxs := None, jl_gvar_idxs := None\<rparr>"
  have v1: "value_at M1 g = value_at M g" for g by (simp add: M1_def value_at_def)
  have gv1: "global_values M1 = global_values M"
    by (simp add: M1_def global_values_def m_functions_def m_globals_def m_aliases_def ids_of_kind_def)
  have s1: "same_shape M M1" by (simp add: same_shape_def v1) (simp add: M1_def)
  let ?P0 = "\<lparr>nodes = [], node_map = Map.empty\<rparr>"
  have ok0: "nodes_ok M ?P0" by (simp add: nodes_ok_def)
  have w: "\<forall>g \<in> set (global_values M1). partitionable M g \<longrightarrow>
       (case value_at M g of None \<Rightarrow> False | Some G \<Rightarrow> node_weight G \<noteq> None)"
    using wf by (simp add: wf_module_def partitionable_ids_iff)
  have nn: "\<forall>g \<in> set (global_values M1). value_at M g \<noteq> None"
    by (simp add: gv1 global_values_iff)
  from make_nodes_correct [OF s1 ok0 _ distinct_global_values nn w]
  obtain M2' P where mk: "make_nodes (global_values M1) (M1, ?P0) = Inr (M2', P)"
    "nodes_ok M P"
    by auto
  define ns1 where "ns1 = nodes P"
  have ok: "\<forall>i < length ns1. n_parent (ns1 ! i) = i \<and> 0 < n_weight (ns1 ! i)"
    using mk(2) by (simp add: nodes_ok_def ns1_def)
  have nmb: "\<forall>val idx. node_map P val = Some idx \<longrightarrow> idx < length ns1"
    using mk(2) by (simp add: nodes_ok_def ns1_def)
  have m1: "minv ns1"
    unfolding minv_def uf_inv_def
  proof (intro conjI allI impI)
    fix i assume i: "i < length ns1"
    from ok [rule_format, OF i] show "n_parent (ns1 ! i) < length ns1" using i by simp
    from ok [rule_format, OF i] show "0 < n_weight (ns1 ! i)" by simp
    assume "n_parent (ns1 ! i) \<noteq> i"
    with ok [rule_format, OF i] show "wt ns1 i < wt ns1 (n_parent (ns1 ! i))" by simp
  qed
  have w0: "\<forall>i < length (nodes ?P0). n_weight (nodes ?P0 ! i) = node_w M (n_GV (nodes ?P0 ! i))"
    by simp
  from make_nodes_weights [OF mk(1) s1 w0]
  have wn: "\<forall>i < length ns1. n_weight (ns1 ! i) = node_w M (n_GV (ns1 ! i))"
    by (simp add: ns1_def)
  have si: "sum_inv M ns1" using ok wn by (intro sum_inv_initial) simp
  from e t(3) mk(1) have "M2' = M2" and mg: "merge_all M2' (node_map P) [0 ..< length ns1] ns1 = Inr ns0"
    by (auto simp: partition_setup_def M1_def ns1_def split: sum.splits)
  have b: "\<forall>i \<in> set [0 ..< length ns1]. i < length ns1" by simp
  from merge_all_sum [OF mg m1 b nmb si] show ?thesis .
qed

section \<open>The order of the assignment\<close>

lemma assign_all_append:
  "assign_all M fvars gvars (xs @ ys) st =
     (case assign_all M fvars gvars xs st of
        Inl e \<Rightarrow> Inl e
      | Inr st' \<Rightarrow> assign_all M fvars gvars ys st')"
  by (induction xs arbitrary: st) (simp_all split: sum.splits)

text \<open>In a list sorted by descending weight the root of a node stands before the node:
  the root is heavier.\<close>

lemma sorted_roots_before:
  assumes s: "sorted_wrt (\<lambda>a b. n_weight (ns0 ! b) \<le> n_weight (ns0 ! a)) is"
    and inv0: "uf_inv (wt ns0) ns0" and all: "set is = {..< length ns0}"
    and k: "k < length is" and r: "root_of ns0 (is ! k) r" "r \<noteq> is ! k"
  shows "r \<in> set (take k is)"
proof -
  from root_of_rank_less [OF r(1) inv0] r(2) have lt: "wt ns0 (is ! k) < wt ns0 r" by auto
  from root_of_bounds [OF r(1)] all have "r \<in> set is" by simp
  then obtain b where b: "b < length is" "is ! b = r" by (auto simp: in_set_conv_nth)
  have bk: "b < k"
  proof (rule ccontr)
    assume "\<not> b < k"
    with r(2) b(2) have "k < b" by (cases "b = k") auto
    with s b(1) have "n_weight (ns0 ! (is ! b)) \<le> n_weight (ns0 ! (is ! k))"
      by (simp add: sorted_wrt_iff_nth_less)
    with lt b(2) show False by (simp add: wt_def)
  qed
  then have "take k is ! b = r" using b(2) by simp
  moreover have "b < length (take k is)" using bk k by simp
  ultimately show ?thesis by (metis nth_mem)
qed

lemma sorted_idxs_length: "length (sorted_idxs ns) = length ns"
  by (simp add: sorted_idxs_def)

text \<open>The loop cut at its iteration \<open>k\<close>: the iterations before, the iteration itself,
  and the whole loop.\<close>

lemma assign_prefix_step:
  assumes m: "minv ns0" and T: "0 < T" and inj: "inj_on (node_name M ns0) {..< length ns0}"
    and k: "k < length ns0"
  shows "\<exists>ns parts pq ns' parts' pq' nsf final pqf.
      assign_all M fvars gvars (take k (sorted_idxs ns0)) (assign_init ns0 T) = Inr (ns, parts, pq) \<and>
      assign_step M fvars gvars (sorted_idxs ns0 ! k) (ns, parts, pq) = Inr (ns', parts', pq') \<and>
      assign_all M fvars gvars (sorted_idxs ns0) (assign_init ns0 T) = Inr (nsf, final, pqf) \<and>
      (if root_of ns0 (sorted_idxs ns0 ! k) (sorted_idxs ns0 ! k) then
         \<exists>p < T. (\<forall>q < T. p_weight (parts ! p) \<le> p_weight (parts ! q)) \<and>
           p_weight (parts' ! p) = p_weight (parts ! p) + n_weight (ns0 ! (sorted_idxs ns0 ! k)) \<and>
           (\<forall>q < T. q \<noteq> p \<longrightarrow> parts' ! q = parts ! q) \<and>
           (\<forall>j. root_of ns0 j (sorted_idxs ns0 ! k) \<longrightarrow>
              (node_name M ns0 j, True) \<in> set (p_globals (final ! p)))
       else \<forall>q < T. p_weight (parts' ! q) = p_weight (parts ! q))"
proof -
  define "is" where "is = sorted_idxs ns0"
  define i where "i = is ! k"
  let ?A = "take k is" and ?B = "drop (Suc k) is"
  from m have inv0: "uf_inv (wt ns0) ns0" and pos: "\<forall>j < length ns0. 0 < n_weight (ns0 ! j)"
    by (simp_all add: minv_def)
  have len: "length is = length ns0" by (simp add: is_def sorted_idxs_length)
  have setis: "set is = {..< length ns0}" by (simp add: is_def sorted_idxs_set)
  have dist: "distinct is" by (simp add: is_def sorted_idxs_distinct)
  have srt: "sorted_wrt (\<lambda>a b. n_weight (ns0 ! b) \<le> n_weight (ns0 ! a)) is"
    unfolding is_def by (rule sorted_idxs_sorted)
  have kl: "k < length is" using k len by simp
  have split: "is = ?A @ i # ?B" unfolding i_def using kl by (rule id_take_nth_drop)
  have "distinct (?A @ i # ?B)" using dist split by simp
  then have d: "distinct ?A" "distinct ?B" "i \<notin> set ?A" "i \<notin> set ?B" "set ?B \<inter> insert i (set ?A) = {}"
    by auto
  have "set (?A @ i # ?B) = {..< length ns0}" using setis split by simp
  then have u: "insert i (set ?A) \<union> set ?B = {..< length ns0}" by auto
  then have b: "\<forall>j \<in> set ?A. j < length ns0" "\<forall>j \<in> set ?B. j < length ns0" "i < length ns0"
    by auto
  have sA: "sorted_wrt (\<lambda>a b. n_weight (ns0 ! b) \<le> n_weight (ns0 ! a)) ?A"
    using srt by (rule sorted_wrt_take)
  have sB: "sorted_wrt (\<lambda>a b. n_weight (ns0 ! b) \<le> n_weight (ns0 ! a)) ?B"
    using srt by (rule sorted_wrt_drop)
  have rA: "\<forall>j \<in> set ?A. \<forall>r. root_of ns0 j r \<longrightarrow> r \<in> {} \<union> set ?A"
  proof (intro ballI allI impI)
    fix j r assume j: "j \<in> set ?A" and r: "root_of ns0 j r"
    from j obtain a where a: "a < length ?A" "?A ! a = j" by (auto simp: in_set_conv_nth)
    then have ak: "a < k" "a < length is" "is ! a = j" using kl by simp_all
    show "r \<in> {} \<union> set ?A"
    proof (cases "r = j")
      case True
      with j show ?thesis by simp
    next
      case False
      with r ak(3) have "root_of ns0 (is ! a) r" "r \<noteq> is ! a" by simp_all
      from sorted_roots_before [OF srt inv0 setis ak(2) this] have "r \<in> set (take a is)" .
      moreover have "set (take a is) \<subseteq> set ?A" using ak(1) by (intro set_take_subset_set_take) simp
      ultimately show ?thesis by auto
    qed
  qed
  have e: "set ?A \<inter> {} = {}" by simp
  from assign_all_correct [OF ainv_init [OF inv0] d(1) e b(1) sA rA T inv0 pos inj, of fvars gvars]
  obtain st1 where 1: "assign_all M fvars gvars ?A (ns0, replicate T empty_partition, [0 ..< T]) = Inr st1"
    "ainv M fvars gvars ns0 T ({} \<union> set ?A) st1" by blast
  obtain ns parts pq where st1: "st1 = (ns, parts, pq)" by (cases st1)
  have a1: "ainv M fvars gvars ns0 T (set ?A) (ns, parts, pq)" using 1(2) st1 by simp
  have before: "\<forall>r. root_of ns0 i r \<longrightarrow> r \<noteq> i \<longrightarrow> r \<in> set ?A"
    using sorted_roots_before [OF srt inv0 setis kl] by (simp add: i_def)
  from assign_step_detail [OF a1 b(3) d(3) T inv0 pos inj before]
  obtain ns' parts' pq' where 2:
    "assign_step M fvars gvars i (ns, parts, pq) = Inr (ns', parts', pq')"
    "ainv M fvars gvars ns0 T (insert i (set ?A)) (ns', parts', pq')"
    "if root_of ns0 i i then
              \<exists>p < T. (\<forall>q < T. p_weight (parts ! p) \<le> p_weight (parts ! q)) \<and>
                n_size (ns' ! i) = p \<and>
                p_weight (parts' ! p) = p_weight (parts ! p) + n_weight (ns0 ! i) \<and>
                (\<forall>q < T. q \<noteq> p \<longrightarrow> parts' ! q = parts ! q)
            else \<forall>q < T. p_weight (parts' ! q) = p_weight (parts ! q)"
    by (elim exE conjE)
  have rB: "\<forall>j \<in> set ?B. \<forall>r. root_of ns0 j r \<longrightarrow> r \<in> insert i (set ?A) \<union> set ?B"
    unfolding u using root_of_bounds by auto
  from assign_all_correct [OF 2(2) d(2,5) b(2) sB rB T inv0 pos inj]
  obtain st3 where 3: "assign_all M fvars gvars ?B (ns', parts', pq') = Inr st3"
    "ainv M fvars gvars ns0 T (insert i (set ?A) \<union> set ?B) st3"
    "\<forall>j \<in> insert i (set ?A). n_size (fst st3 ! j) = n_size (fst (ns', parts', pq') ! j)"
    by blast
  obtain nsf final pqf where st3: "st3 = (nsf, final, pqf)" by (cases st3)
  have af: "ainv M fvars gvars ns0 T {..< length ns0} (nsf, final, pqf)"
    using 3(2) st3 u by simp
  have keep: "n_size (nsf ! i) = n_size (ns' ! i)" using 3(3) st3 by simp
  have "assign_all M fvars gvars (?A @ i # ?B) (assign_init ns0 T) = Inr (nsf, final, pqf)"
    using 1(1) 2(1) 3(1) st1 st3 by (simp add: assign_all_append assign_init_def)
  then have full: "assign_all M fvars gvars is (assign_init ns0 T) = Inr (nsf, final, pqf)"
    using split by simp
  have pre: "assign_all M fvars gvars ?A (assign_init ns0 T) = Inr (ns, parts, pq)"
    using 1(1) st1 by (simp add: assign_init_def)
  have c: "if root_of ns0 i i then
         \<exists>p < T. (\<forall>q < T. p_weight (parts ! p) \<le> p_weight (parts ! q)) \<and>
           p_weight (parts' ! p) = p_weight (parts ! p) + n_weight (ns0 ! i) \<and>
           (\<forall>q < T. q \<noteq> p \<longrightarrow> parts' ! q = parts ! q) \<and>
           (\<forall>j. root_of ns0 j i \<longrightarrow> (node_name M ns0 j, True) \<in> set (p_globals (final ! p)))
       else \<forall>q < T. p_weight (parts' ! q) = p_weight (parts ! q)"
  proof (cases "root_of ns0 i i")
    case False
    with 2(3) show ?thesis by (simp only: if_False)
  next
    case True
    with 2(3) obtain p where p: "p < T" "\<forall>q < T. p_weight (parts ! p) \<le> p_weight (parts ! q)"
      "n_size (ns' ! i) = p"
      "p_weight (parts' ! p) = p_weight (parts ! p) + n_weight (ns0 ! i)"
      "\<forall>q < T. q \<noteq> p \<longrightarrow> parts' ! q = parts ! q"
      unfolding if_P [OF True] by blast
    have mem: "(node_name M ns0 j, True) \<in> set (p_globals (final ! p))" if j: "root_of ns0 j i" for j
    proof -
      from root_of_bounds [OF j] have jl: "j \<in> {..< length ns0}" by simp
      with af have "\<forall>r. root_of ns0 j r \<longrightarrow> n_size (nsf ! r) = n_size (nsf ! j)"
        unfolding ainv_def by (simp only: prod.case) blast
      with j keep p(3) have "n_size (nsf ! j) = p" by simp
      with jl have "j \<in> assigned {..< length ns0} nsf p" by (simp add: assigned_def)
      moreover from af p(1) have "part_ok M fvars gvars ns0 (assigned {..< length ns0} nsf p) (final ! p)"
        by (simp add: ainv_def)
      ultimately show ?thesis by (simp add: part_ok_def)
    qed
    have "\<exists>p' < T. (\<forall>q < T. p_weight (parts ! p') \<le> p_weight (parts ! q)) \<and>
           p_weight (parts' ! p') = p_weight (parts ! p') + n_weight (ns0 ! i) \<and>
           (\<forall>q < T. q \<noteq> p' \<longrightarrow> parts' ! q = parts ! q) \<and>
           (\<forall>j. root_of ns0 j i \<longrightarrow> (node_name M ns0 j, True) \<in> set (p_globals (final ! p')))"
      using p(1,2,4,5) mem by blast
    with True show ?thesis by (simp only: if_True)
  qed
  show ?thesis unfolding is_def [symmetric] i_def [symmetric]
    by (intro exI conjI, rule pre, rule 2(1), rule full, rule c)
qed

section \<open>What \<open>partitionModule\<close> returns\<close>

lemma same_comp_shard:
  assumes inv: "ainv M fvars gvars ns0 T {..< length ns0} (ns, parts, pq)"
    and sc: "same_comp ns0 j k"
  shows "n_size (ns ! j) = n_size (ns ! k)"
proof -
  from sc obtain r where r: "root_of ns0 j r" "root_of ns0 k r" by (auto simp: same_comp_def)
  then have b: "j < length ns0" "k < length ns0" using root_of_bounds by blast+
  from inv have a: "\<forall>j \<in> {..< length ns0}. \<forall>r. root_of ns0 j r \<longrightarrow> n_size (ns ! r) = n_size (ns ! j)"
    by (simp add: ainv_def)
  from a b(1) r(1) have "n_size (ns ! r) = n_size (ns ! j)" by blast
  moreover from a b(2) r(2) have "n_size (ns ! r) = n_size (ns ! k)" by blast
  ultimately show ?thesis by simp
qed

lemma partition_resultD:
  assumes "partition_result M T M2 parts shard F G"
  shows "partitionModule M T = Inr (M2, parts)"
    and "length parts = T"
    and "same_shape M M2"
    and "jl_fvars M = Some F"
    and "jl_gvars M = Some G"
    and "\<forall>g. partitionable M g \<longrightarrow> shard g < T"
    and "\<forall>p < T. set (p_globals (parts ! p)) =
         (\<lambda>g. (name_of M g, True)) ` {g. partitionable M g \<and> shard g = p}"
    and "\<forall>p < T. set (p_fvars (parts ! p)) =
         {(name_of M g, k) | g k. partitionable M g \<and> shard g = p \<and>
            index_map F 0 Map.empty g = Some k}"
    and "\<forall>p < T. set (p_gvars (parts ! p)) =
         {(name_of M g, k) | g k. partitionable M g \<and> shard g = p \<and>
            index_map G 0 Map.empty g = Some k}"
    and "\<forall>g. partitionable M g \<longrightarrow> (\<forall>v \<in> set (users_of M g). shard v = shard g)"
    and "\<forall>g. partitionable M g \<longrightarrow>
         (\<exists>G'. value_at M2 g = Some G' \<and> gv_linkage G' = ExternalLinkage \<and>
               gv_visibility G' = HiddenVisibility)"
    and "\<forall>p < T. distinct (map fst (p_globals (parts ! p)))"
    and "\<forall>p < T. distinct (map fst (p_fvars (parts ! p))) \<and> distinct (map fst (p_gvars (parts ! p)))"
proof -
  note a = assms [unfolded partition_result_def]
  from a show "partitionModule M T = Inr (M2, parts)" by (elim conjE)
  from a show "length parts = T" by (elim conjE)
  from a show "same_shape M M2" by (elim conjE)
  from a show "jl_fvars M = Some F" by (elim conjE)
  from a show "jl_gvars M = Some G" by (elim conjE)
  from a show "\<forall>g. partitionable M g \<longrightarrow> shard g < T" by (elim conjE)
  from a show "\<forall>p < T. set (p_globals (parts ! p)) =
         (\<lambda>g. (name_of M g, True)) ` {g. partitionable M g \<and> shard g = p}" by (elim conjE)
  from a show "\<forall>p < T. set (p_fvars (parts ! p)) =
         {(name_of M g, k) | g k. partitionable M g \<and> shard g = p \<and>
            index_map F 0 Map.empty g = Some k}" by (elim conjE)
  from a show "\<forall>p < T. set (p_gvars (parts ! p)) =
         {(name_of M g, k) | g k. partitionable M g \<and> shard g = p \<and>
            index_map G 0 Map.empty g = Some k}" by (elim conjE)
  from a show "\<forall>g. partitionable M g \<longrightarrow> (\<forall>v \<in> set (users_of M g). shard v = shard g)" by (elim conjE)
  from a show "\<forall>g. partitionable M g \<longrightarrow>
         (\<exists>G'. value_at M2 g = Some G' \<and> gv_linkage G' = ExternalLinkage \<and>
               gv_visibility G' = HiddenVisibility)" by (elim conjE)
  from a show "\<forall>p < T. distinct (map fst (p_globals (parts ! p)))" by (elim conjE)
  from a show "\<forall>p < T. distinct (map fst (p_fvars (parts ! p))) \<and> distinct (map fst (p_gvars (parts ! p)))" by (elim conjE)
qed

lemma partition_view:
  assumes wf: "wf_module M" and T: "0 < T"
  shows "\<exists>M2 parts shard F G. partition_result M T M2 parts shard F G"
proof -
  from partition_setup_correct [OF wf]
  obtain M2 fvars gvars ns0 F G where s: "partition_setup M = Inr (M2, fvars, gvars, ns0)"
    "jl_fvars M = Some F" "jl_gvars M = Some G"
    "fvars = index_map F 0 Map.empty" "gvars = index_map G 0 Map.empty"
    "same_shape M M2" "minv ns0" "n_GV ` set ns0 = set (partitionable_ids M)"
    "inj_on (\<lambda>j. n_GV (ns0 ! j)) {..< length ns0}"
    "\<forall>j < length ns0. \<forall>v \<in> set (users_of M (n_GV (ns0 ! j))).
         \<exists>k < length ns0. n_GV (ns0 ! k) = v \<and> same_comp ns0 j k"
    "\<forall>g. partitionable M g \<longrightarrow>
         (\<exists>G'. value_at M2 g = Some G' \<and> gv_linkage G' = ExternalLinkage \<and>
               gv_visibility G' = HiddenVisibility)"
    by blast
  let ?n = "length ns0"
  let ?gv = "\<lambda>j. n_GV (ns0 ! j)"
  have nn: "node_name M2 ns0 j = name_of M (?gv j)" for j
    by (simp add: node_name_def same_shape_name_of [OF s(6)])
  have pg: "partitionable M (?gv j)" if "j < ?n" for j
    using s(8) that by (metis image_eqI nth_mem partitionable_ids_iff)
  have ex: "\<exists>j < ?n. ?gv j = g" if "partitionable M g" for g
  proof -
    from that s(8) have "g \<in> n_GV ` set ns0" by (simp add: partitionable_ids_iff)
    then show ?thesis by (auto simp: in_set_conv_nth)
  qed
  have dn: "inj_on (name_of M) (set (partitionable_ids M))"
    using wf by (simp add: wf_module_def distinct_map)
  have inj: "inj_on (node_name M2 ns0) {..< ?n}"
  proof (rule inj_onI)
    fix a b assume ab: "a \<in> {..< ?n}" "b \<in> {..< ?n}" "node_name M2 ns0 a = node_name M2 ns0 b"
    then have "name_of M (?gv a) = name_of M (?gv b)" by (simp add: nn)
    moreover have "?gv a \<in> set (partitionable_ids M)" "?gv b \<in> set (partitionable_ids M)"
      using ab pg by (simp_all add: partitionable_ids_iff)
    ultimately have "?gv a = ?gv b" using dn by (auto dest: inj_onD)
    with s(9) ab show "a = b" by (auto dest: inj_onD)
  qed
  from assign_phase_correct [OF s(7) T inj, of fvars gvars]
  obtain ns parts pq where a: "assign_all M2 fvars gvars (sorted_idxs ns0)
             (ns0, replicate T empty_partition, [0 ..< T]) = Inr (ns, parts, pq)"
    "ainv M2 fvars gvars ns0 T {..< ?n} (ns, parts, pq)" by blast
  have pm: "partitionModule M T = Inr (M2, parts)"
    using s(1) a(1) by (simp add: partitionModule_def assign_init_def)
  define idx where "idx = the_inv_into {..< ?n} ?gv"
  define shard where "shard g = n_size (ns ! idx g)" for g
  have idx_gv: "idx (?gv j) = j" if "j < ?n" for j
    unfolding idx_def using the_inv_into_f_f [OF s(9), of j] that by simp
  have sh: "shard (?gv j) = n_size (ns ! j)" if "j < ?n" for j
    using idx_gv [OF that] by (simp add: shard_def)
  from a(2) have lp: "length parts = T"
    and sz: "\<forall>j \<in> {..< ?n}. n_size (ns ! j) < T"
    and pk: "\<forall>p < T. part_ok M2 fvars gvars ns0 (assigned {..< ?n} ns p) (parts ! p)"
    by (auto simp: ainv_def)
  have 1: "\<forall>g. partitionable M g \<longrightarrow> shard g < T"
  proof (intro allI impI)
    fix g assume "partitionable M g"
    from ex [OF this] obtain j where j: "j < ?n" "?gv j = g" by blast
    with sz sh [OF j(1)] show "shard g < T" by auto
  qed
  have asg: "?gv ` assigned {..< ?n} ns p = {g. partitionable M g \<and> shard g = p}" for p
  proof (intro set_eqI iffI)
    fix g assume "g \<in> ?gv ` assigned {..< ?n} ns p"
    then obtain j where j: "j < ?n" "n_size (ns ! j) = p" "g = ?gv j"
      by (auto simp: assigned_def)
    with pg [OF j(1)] sh [OF j(1)] show "g \<in> {g. partitionable M g \<and> shard g = p}" by simp
  next
    fix g assume "g \<in> {g. partitionable M g \<and> shard g = p}"
    then have g: "partitionable M g" "shard g = p" by auto
    from ex [OF g(1)] obtain j where j: "j < ?n" "?gv j = g" by blast
    with g(2) sh [OF j(1)] have "j \<in> assigned {..< ?n} ns p" by (simp add: assigned_def)
    with j(2) show "g \<in> ?gv ` assigned {..< ?n} ns p" by blast
  qed
  have 2: "\<forall>p < T. set (p_globals (parts ! p)) =
         (\<lambda>g. (name_of M g, True)) ` {g. partitionable M g \<and> shard g = p}"
  proof (intro allI impI)
    fix p assume "p < T"
    with pk have "set (p_globals (parts ! p)) =
        (\<lambda>j. (node_name M2 ns0 j, True)) ` assigned {..< ?n} ns p"
      by (simp add: part_ok_def)
    also have "\<dots> = (\<lambda>g. (name_of M g, True)) ` (?gv ` assigned {..< ?n} ns p)"
      by (simp add: image_image nn)
    finally show "set (p_globals (parts ! p)) =
         (\<lambda>g. (name_of M g, True)) ` {g. partitionable M g \<and> shard g = p}"
      by (simp add: asg)
  qed
  have te: "table_entries M2 tab ns0 (assigned {..< ?n} ns p) =
      {(name_of M g, k) | g k. partitionable M g \<and> shard g = p \<and> tab g = Some k}" for tab p
  proof (intro set_eqI iffI)
    fix x assume "x \<in> table_entries M2 tab ns0 (assigned {..< ?n} ns p)"
    then obtain j k where j: "x = (node_name M2 ns0 j, k)" "j \<in> assigned {..< ?n} ns p"
      "tab (?gv j) = Some k" by (auto simp: table_entries_def)
    then have "?gv j \<in> {g. partitionable M g \<and> shard g = p}" using asg [of p] by blast
    with j(1,3) nn show "x \<in> {(name_of M g, k) | g k. partitionable M g \<and> shard g = p \<and> tab g = Some k}"
      by auto
  next
    fix x assume "x \<in> {(name_of M g, k) | g k. partitionable M g \<and> shard g = p \<and> tab g = Some k}"
    then obtain g k where g: "x = (name_of M g, k)" "partitionable M g" "shard g = p"
      "tab g = Some k" by blast
    then have "g \<in> ?gv ` assigned {..< ?n} ns p" using asg [of p] by blast
    then obtain j where "j \<in> assigned {..< ?n} ns p" "g = ?gv j" by blast
    with g(1,4) nn show "x \<in> table_entries M2 tab ns0 (assigned {..< ?n} ns p)"
      by (auto simp: table_entries_def)
  qed
  have 3: "\<forall>p < T. set (p_fvars (parts ! p)) =
         {(name_of M g, k) | g k. partitionable M g \<and> shard g = p \<and>
            index_map F 0 Map.empty g = Some k}"
    using pk te [of fvars] by (simp add: part_ok_def s(4))
  have 4: "\<forall>p < T. set (p_gvars (parts ! p)) =
         {(name_of M g, k) | g k. partitionable M g \<and> shard g = p \<and>
            index_map G 0 Map.empty g = Some k}"
    using pk te [of gvars] by (simp add: part_ok_def s(5))
  have 5: "\<forall>g. partitionable M g \<longrightarrow> (\<forall>v \<in> set (users_of M g). shard v = shard g)"
  proof (intro allI impI ballI)
    fix g v assume g: "partitionable M g" and v: "v \<in> set (users_of M g)"
    from ex [OF g] obtain j where j: "j < ?n" "?gv j = g" by blast
    with s(10) v obtain k where k: "k < ?n" "?gv k = v" "same_comp ns0 j k" by blast
    from same_comp_shard [OF a(2) k(3)] sh [OF j(1)] sh [OF k(1)] j(2) k(2)
    show "shard v = shard g" by simp
  qed
  have 6: "\<forall>p < T. distinct (map fst (p_globals (parts ! p)))"
    "\<forall>p < T. distinct (map fst (p_fvars (parts ! p))) \<and> distinct (map fst (p_gvars (parts ! p)))"
    using pk by (simp_all add: part_ok_def)
  have "partition_result M T M2 parts shard F G"
    unfolding partition_result_def
    using pm lp s(6) s(2,3) 1 2 3 4 5 s(11) 6 by (intro conjI) assumption+
  then show ?thesis by blast
qed

section \<open>Properties of the materialization\<close>

subsection \<open>Reading and writing the store\<close>

lemma value_at_less: "value_at M j = Some V \<Longrightarrow> j < length (m_values M)"
  by (simp add: value_at_def split: if_splits)

lemma length_set_value [simp]: "length (m_values (set_value M i v)) = length (m_values M)"
  by (simp add: set_value_def)

lemma value_at_add_value:
  "value_at (fst (add_value M G)) j = (if j = length (m_values M) then Some G else value_at M j)"
  by (auto simp: add_value_def value_at_def nth_append)

lemma length_add_value [simp]:
  "length (m_values (fst (add_value M G))) = Suc (length (m_values M))"
  by (simp add: add_value_def)

lemma snd_add_value [simp]: "snd (add_value M G) = length (m_values M)"
  by (simp add: add_value_def)

lemma value_at_replaceAllUsesWith:
  "value_at (replaceAllUsesWith M a r) j =
     map_option (\<lambda>G. G\<lparr>gv_operands := map (\<lambda>x. if x = a then r else x) (gv_operands G)\<rparr>)
       (value_at M j)"
  by (simp add: replaceAllUsesWith_def value_at_def)

lemma getNamedValue_Some:
  assumes "getNamedValue M n = Some g"
  shows "\<exists>G. value_at M g = Some G \<and> gv_name G = n"
proof -
  from assms have "List.find (\<lambda>i. case m_values M ! i of None \<Rightarrow> False | Some G \<Rightarrow> gv_name G = n)
      [0 ..< length (m_values M)] = Some g"
    by (simp add: getNamedValue_def split: if_splits)
  then have "g < length (m_values M)"
    "case m_values M ! g of None \<Rightarrow> False | Some G \<Rightarrow> gv_name G = n"
    by (auto simp: find_Some_iff)
  then show ?thesis by (cases "m_values M ! g") (simp_all add: value_at_def)
qed

subsection \<open>The set \<open>Preserve\<close>\<close>

lemma preserve_loop_flags:
  assumes "\<forall>x \<in> set gl. snd x"
  shows "\<exists>pres'. preserve_loop gl (M, pres) = Inr (M, pres @ pres') \<and>
           (\<forall>g \<in> set pres'. \<exists>G. value_at M g = Some G \<and> gv_name G \<in> fst ` set gl)"
  using assms
proof (induction gl arbitrary: pres)
  case Nil
  then show ?case by simp
next
  case (Cons x gl)
  obtain name flag where x: "x = (name, flag)" by (cases x)
  with Cons.prems have flag: "flag" and rest: "\<forall>x \<in> set gl. snd x" by simp_all
  have sub: "fst ` set gl \<subseteq> fst ` set (x # gl)" by auto
  show ?case
  proof (cases "getNamedValue M name")
    case None
    from Cons.IH [OF rest, of pres] obtain pres' where
      p: "preserve_loop gl (M, pres) = Inr (M, pres @ pres')"
      "\<forall>g \<in> set pres'. \<exists>G. value_at M g = Some G \<and> gv_name G \<in> fst ` set gl" by blast
    have "preserve_loop (x # gl) (M, pres) = Inr (M, pres @ pres')"
      using None flag p(1) by (simp add: x)
    moreover have "\<forall>g \<in> set pres'. \<exists>G. value_at M g = Some G \<and> gv_name G \<in> fst ` set (x # gl)"
      using p(2) sub by blast
    ultimately show ?thesis by blast
  next
    case (Some GV)
    from Cons.IH [OF rest, of "pres @ [GV]"] obtain pres' where
      p: "preserve_loop gl (M, pres @ [GV]) = Inr (M, (pres @ [GV]) @ pres')"
      "\<forall>g \<in> set pres'. \<exists>G. value_at M g = Some G \<and> gv_name G \<in> fst ` set gl" by blast
    from getNamedValue_Some [OF Some] obtain G where G: "value_at M GV = Some G" "gv_name G = name"
      by blast
    have e: "preserve_loop (x # gl) (M, pres) = Inr (M, pres @ (GV # pres'))"
      using Some flag p(1) by (simp add: x)
    have "name \<in> fst ` set (x # gl)" by (simp add: x)
    with G have "\<exists>G. value_at M GV = Some G \<and> gv_name G \<in> fst ` set (x # gl)" by simp
    moreover have "\<forall>g \<in> set pres'. \<exists>G. value_at M g = Some G \<and> gv_name G \<in> fst ` set (x # gl)"
      using p(2) sub by blast
    ultimately have "\<forall>g \<in> set (GV # pres'). \<exists>G. value_at M g = Some G \<and> gv_name G \<in> fst ` set (x # gl)"
      by simp
    with e show ?thesis by blast
  qed
qed

subsection \<open>Stripping the functions and the variables\<close>

lemma stripped_refl: "stripped V V"
  by (simp add: stripped_def)

lemma stripped_trans: "stripped V V' \<Longrightarrow> stripped V' V'' \<Longrightarrow> stripped V V''"
  by (auto simp: stripped_def)

lemma strip_rel_refl: "strip_rel M M"
  by (simp add: strip_rel_def stripped_refl split: option.splits)

lemma strip_rel_trans:
  assumes "strip_rel M M'" "strip_rel M' M''"
  shows "strip_rel M M''"
  unfolding strip_rel_def
proof (intro conjI allI)
  from assms show "length (m_values M'') = length (m_values M)" by (simp add: strip_rel_def)
next
  fix j
  show "case value_at M j of None \<Rightarrow> value_at M'' j = None
        | Some V \<Rightarrow> \<exists>V'. value_at M'' j = Some V' \<and> stripped V V'"
  proof (cases "value_at M j")
    case None
    with assms(1) have "value_at M' j = None"
      unfolding strip_rel_def by (auto dest!: spec [of _ j])
    with assms(2) have "value_at M'' j = None"
      unfolding strip_rel_def by (auto dest!: spec [of _ j])
    with None show ?thesis by simp
  next
    case (Some V)
    with assms(1) obtain V' where 1: "value_at M' j = Some V'" "stripped V V'"
      unfolding strip_rel_def by (auto dest!: spec [of _ j])
    with assms(2) obtain V'' where 2: "value_at M'' j = Some V''" "stripped V' V''"
      unfolding strip_rel_def by (auto dest!: spec [of _ j])
    from stripped_trans [OF 1(2) 2(2)] 2(1) Some show ?thesis by simp
  qed
qed

lemma strip_rel_set_value:
  assumes "value_at M f = Some F" "stripped F F'"
  shows "strip_rel M (set_value M f (Some F'))"
  unfolding strip_rel_def
proof (intro conjI allI)
  fix j
  show "case value_at M j of None \<Rightarrow> value_at (set_value M f (Some F')) j = None
        | Some V \<Rightarrow> \<exists>V'. value_at (set_value M f (Some F')) j = Some V' \<and> stripped V V'"
  proof (cases "j = f")
    case True
    with assms value_at_less [OF assms(1)] show ?thesis by (simp add: value_at_set_value)
  next
    case False
    then show ?thesis by (simp add: value_at_set_value stripped_refl split: option.splits)
  qed
qed simp

lemma strip_function_rel:
  assumes "\<forall>F. value_at M f = Some F \<longrightarrow> gv_kind F = FunctionVal"
  shows "strip_rel M (strip_function Preserve f M)"
proof (cases "value_at M f")
  case None
  then show ?thesis by (simp add: strip_function_def strip_rel_refl)
next
  case (Some F)
  with assms have k: "gv_kind F = FunctionVal" by simp
  let ?F = "(deleteBody F)\<lparr>gv_linkage := ExternalLinkage, gv_visibility := HiddenVisibility,
    gv_dso_local := True\<rparr>"
  have "stripped F ?F" using k by (simp add: stripped_def deleteBody_def isDeclaration_def)
  from strip_rel_set_value [OF Some this] Some show ?thesis
    by (simp add: strip_function_def strip_rel_refl)
qed

lemma strip_global_rel:
  assumes "\<forall>F. value_at M g = Some F \<longrightarrow> gv_kind F = GlobalVariableVal"
  shows "strip_rel M (strip_global Preserve g M)"
proof (cases "value_at M g")
  case None
  then show ?thesis by (simp add: strip_global_def strip_rel_refl)
next
  case (Some GV)
  with assms have k: "gv_kind GV = GlobalVariableVal" by simp
  let ?G = "(dropInitializer GV)\<lparr>gv_linkage := ExternalLinkage, gv_visibility := HiddenVisibility,
    gv_dso_local := True\<rparr>"
  have "stripped GV ?G" using k by (simp add: stripped_def dropInitializer_def isDeclaration_def)
  from strip_rel_set_value [OF Some this] Some show ?thesis
    by (simp add: strip_global_def strip_rel_refl)
qed

lemma strip_rel_kind:
  assumes "strip_rel M M'" "value_at M' j = Some V'"
  shows "\<exists>V. value_at M j = Some V \<and> stripped V V' \<and> gv_kind V' = gv_kind V"
proof (cases "value_at M j")
  case None
  with assms(1) have "value_at M' j = None" unfolding strip_rel_def by (auto dest!: spec [of _ j])
  with assms(2) show ?thesis by simp
next
  case (Some V)
  with assms(1) obtain W where "value_at M' j = Some W" "stripped V W"
    unfolding strip_rel_def by (auto dest!: spec [of _ j])
  with assms(2) Some show ?thesis by (auto simp: stripped_def)
qed

lemma strip_functions_rel:
  assumes "\<forall>f \<in> set fs. \<forall>F. value_at M f = Some F \<longrightarrow> gv_kind F = FunctionVal"
  shows "strip_rel M (fold (strip_function Preserve) fs M)"
  using assms
proof (induction fs arbitrary: M)
  case Nil
  then show ?case by (simp add: strip_rel_refl)
next
  case (Cons f fs)
  let ?M = "strip_function Preserve f M"
  have 1: "strip_rel M ?M" using Cons.prems by (intro strip_function_rel) simp
  have "\<forall>f \<in> set fs. \<forall>F. value_at ?M f = Some F \<longrightarrow> gv_kind F = FunctionVal"
  proof (intro ballI allI impI)
    fix g F assume g: "g \<in> set fs" "value_at ?M g = Some F"
    from strip_rel_kind [OF 1 g(2)] obtain V where "value_at M g = Some V" "gv_kind F = gv_kind V"
      by blast
    with Cons.prems g(1) show "gv_kind F = FunctionVal" by simp
  qed
  from Cons.IH [OF this] have "strip_rel ?M (fold (strip_function Preserve) fs ?M)" .
  with 1 show ?case by (simp add: strip_rel_trans)
qed

lemma strip_globals_rel:
  assumes "\<forall>f \<in> set fs. \<forall>F. value_at M f = Some F \<longrightarrow> gv_kind F = GlobalVariableVal"
  shows "strip_rel M (fold (strip_global Preserve) fs M)"
  using assms
proof (induction fs arbitrary: M)
  case Nil
  then show ?case by (simp add: strip_rel_refl)
next
  case (Cons f fs)
  let ?M = "strip_global Preserve f M"
  have 1: "strip_rel M ?M" using Cons.prems by (intro strip_global_rel) simp
  have "\<forall>f \<in> set fs. \<forall>F. value_at ?M f = Some F \<longrightarrow> gv_kind F = GlobalVariableVal"
  proof (intro ballI allI impI)
    fix g F assume g: "g \<in> set fs" "value_at ?M g = Some F"
    from strip_rel_kind [OF 1 g(2)] obtain V where "value_at M g = Some V" "gv_kind F = gv_kind V"
      by blast
    with Cons.prems g(1) show "gv_kind F = GlobalVariableVal" by simp
  qed
  from Cons.IH [OF this] have "strip_rel ?M (fold (strip_global Preserve) fs ?M)" .
  with 1 show ?case by (simp add: strip_rel_trans)
qed

lemma strip_phase:
  "strip_rel M
     (fold (strip_global Preserve)
        (m_globals (fold (strip_function Preserve) (m_functions M) M))
        (fold (strip_function Preserve) (m_functions M) M))"
proof -
  let ?M2 = "fold (strip_function Preserve) (m_functions M) M"
  have 1: "strip_rel M ?M2"
    by (intro strip_functions_rel) (auto simp: m_functions_def ids_of_kind_iff)
  have 2: "strip_rel ?M2 (fold (strip_global Preserve) (m_globals ?M2) ?M2)"
    by (intro strip_globals_rel) (auto simp: m_globals_def ids_of_kind_iff)
  from 1 2 show ?thesis by (rule strip_rel_trans)
qed

subsection \<open>The loop over the aliases\<close>

lemma is_placeholder_new: "is_placeholder new_function" "is_placeholder new_variable"
  by (simp_all add: is_placeholder_def new_function_def new_variable_def)

lemma alias_invD:
  assumes "alias_inv Preserve B (M, Del)"
  shows "length (m_values M) = length (m_values B) + length Del"
    and "map snd Del = [length (m_values B) ..< length (m_values B) + length Del]"
    and "distinct (map fst Del)"
    and "\<forall>j < length (m_values B). j \<notin> fst ` set Del \<longrightarrow> value_at M j = value_at B j"
    and "\<forall>d \<in> set Del.
           fst d \<notin> set Preserve \<and>
           (\<exists>GA GA' R. value_at B (fst d) = Some GA \<and> gv_kind GA = GlobalAliasVal \<and>
              value_at M (fst d) = Some GA' \<and> gv_name GA' = gv_name GA \<and>
              value_at M (snd d) = Some R \<and> is_placeholder R)"
proof -
  note a = assms [unfolded alias_inv_def prod.case]
  from a show "length (m_values M) = length (m_values B) + length Del" by (elim conjE)
  from a show "map snd Del = [length (m_values B) ..< length (m_values B) + length Del]"
    by (elim conjE)
  from a show "distinct (map fst Del)" by (elim conjE)
  from a show "\<forall>j < length (m_values B). j \<notin> fst ` set Del \<longrightarrow> value_at M j = value_at B j"
    by (elim conjE)
  from a show "\<forall>d \<in> set Del.
           fst d \<notin> set Preserve \<and>
           (\<exists>GA GA' R. value_at B (fst d) = Some GA \<and> gv_kind GA = GlobalAliasVal \<and>
              value_at M (fst d) = Some GA' \<and> gv_name GA' = gv_name GA \<and>
              value_at M (snd d) = Some R \<and> is_placeholder R)"
    by (elim conjE)
qed

lemma alias_inv_bounds:
  assumes inv: "alias_inv Preserve B (M, Del)" and d: "d \<in> set Del"
  shows "fst d < length (m_values B)" "length (m_values B) \<le> snd d" "snd d < length (m_values M)"
proof -
  note i = alias_invD [OF inv]
  from i(5) d obtain GA where "value_at B (fst d) = Some GA" by blast
  then show "fst d < length (m_values B)" by (rule value_at_less)
  from d have "snd d \<in> set (map snd Del)" by simp
  then have "snd d \<in> set [length (m_values B) ..< length (m_values B) + length Del]"
    unfolding i(2) .
  then show "length (m_values B) \<le> snd d" "snd d < length (m_values M)" using i(1) by simp_all
qed

lemma alias_inv_extend:
  assumes inv: "alias_inv Preserve B (M, Del)"
    and a: "a \<notin> fst ` set Del" "value_at B a = Some GA" "gv_kind GA = GlobalAliasVal"
      "a \<notin> set Preserve"
    and len: "length (m_values M') = Suc (length (m_values M))"
    and va: "value_at M' a = Some GA'" "gv_name GA' = gv_name GA"
    and vr: "value_at M' (length (m_values M)) = Some R" "is_placeholder R"
    and other: "\<forall>j. j \<noteq> a \<longrightarrow> j \<noteq> length (m_values M) \<longrightarrow> value_at M' j = value_at M j"
  shows "alias_inv Preserve B (M', Del @ [(a, length (m_values M))])"
proof -
  note i = alias_invD [OF inv]
  let ?n = "length (m_values B)"
  let ?r = "length (m_values M)"
  have al: "a < ?n" using a(2) by (rule value_at_less)
  have r: "?r = ?n + length Del" by (rule i(1))
  have 1: "length (m_values M') = ?n + length (Del @ [(a, ?r)])" using len r by simp
  have 2: "map snd (Del @ [(a, ?r)]) = [?n ..< ?n + length (Del @ [(a, ?r)])]"
    using i(2) r by simp
  have 3: "distinct (map fst (Del @ [(a, ?r)]))" using i(3) a(1) by simp
  have 4: "\<forall>j < ?n. j \<notin> fst ` set (Del @ [(a, ?r)]) \<longrightarrow> value_at M' j = value_at B j"
  proof (intro allI impI)
    fix j assume j: "j < ?n" "j \<notin> fst ` set (Del @ [(a, ?r)])"
    then have "j \<noteq> a" "j \<noteq> ?r" "j \<notin> fst ` set Del" using r by auto
    with other i(4) j(1) show "value_at M' j = value_at B j" by simp
  qed
  have 5: "\<forall>d \<in> set (Del @ [(a, ?r)]).
           fst d \<notin> set Preserve \<and>
           (\<exists>GA GA' R. value_at B (fst d) = Some GA \<and> gv_kind GA = GlobalAliasVal \<and>
              value_at M' (fst d) = Some GA' \<and> gv_name GA' = gv_name GA \<and>
              value_at M' (snd d) = Some R \<and> is_placeholder R)"
  proof
    fix d assume "d \<in> set (Del @ [(a, ?r)])"
    then consider "d \<in> set Del" | "d = (a, ?r)" by auto
    then show "fst d \<notin> set Preserve \<and>
           (\<exists>GA GA' R. value_at B (fst d) = Some GA \<and> gv_kind GA = GlobalAliasVal \<and>
              value_at M' (fst d) = Some GA' \<and> gv_name GA' = gv_name GA \<and>
              value_at M' (snd d) = Some R \<and> is_placeholder R)"
    proof cases
      case 1
      note b = alias_inv_bounds [OF inv 1]
      have "fst d \<noteq> a" using 1 a(1) by auto
      moreover have "fst d \<noteq> ?r" using b(1) r by simp
      ultimately have f: "value_at M' (fst d) = value_at M (fst d)" using other by simp
      have "snd d \<noteq> a" using b(2) al by simp
      moreover have "snd d \<noteq> ?r" using b(3) by simp
      ultimately have s: "value_at M' (snd d) = value_at M (snd d)" using other by simp
      from i(5) 1 show ?thesis unfolding f s by blast
    next
      case 2
      have "a \<notin> set Preserve \<and>
           (\<exists>GA GA' R. value_at B a = Some GA \<and> gv_kind GA = GlobalAliasVal \<and>
              value_at M' a = Some GA' \<and> gv_name GA' = gv_name GA \<and>
              value_at M' ?r = Some R \<and> is_placeholder R)"
        using a(2,3,4) va vr by blast
      then show ?thesis unfolding 2 by simp
    qed
  qed
  show ?thesis unfolding alias_inv_def prod.case using 1 2 3 4 5 by (intro conjI)
qed

lemma alias_step_inv:
  assumes inv: "alias_inv Preserve B (M, Del)"
    and a: "a \<notin> fst ` set Del" "value_at B a = Some GA" "gv_kind GA = GlobalAliasVal"
      "\<not> hasLocalLinkage GA"
  shows "\<exists>M' Del'. alias_step Preserve a (M, Del) = (M', Del') \<and>
      alias_inv Preserve B (M', Del') \<and>
      fst ` set Del' = fst ` set Del \<union> (if a \<in> set Preserve then {} else {a})"
proof -
  note i = alias_invD [OF inv]
  let ?r = "length (m_values M)"
  have al: "a < length (m_values B)" using a(2) by (rule value_at_less)
  with i(4) a(1,2) have va: "value_at M a = Some GA" by simp
  have ar: "a < ?r" using al i(1) by simp
  show ?thesis
  proof (cases "a \<in> set Preserve")
    case True
    then have "alias_step Preserve a (M, Del) = (M, Del)" using va by (simp add: alias_step_def)
    with inv True show ?thesis by simp
  next
    case False
    show ?thesis
    proof (cases "gv_function_ty GA")
      case True
      let ?M1 = "fst (add_value M new_function)"
      let ?M' = "set_value ?M1 a (Some (GA\<lparr>gv_operands := [?r]\<rparr>))"
      have e: "alias_step Preserve a (M, Del) = (?M', Del @ [(a, ?r)])"
        using va False a(4) True by (simp add: alias_step_def split_beta)
      have "alias_inv Preserve B (?M', Del @ [(a, ?r)])"
      proof (rule alias_inv_extend [OF inv a(1,2,3) False])
        show "length (m_values ?M') = Suc ?r" by simp
        show "value_at ?M' a = Some (GA\<lparr>gv_operands := [?r]\<rparr>)"
          using ar by (simp add: value_at_set_value)
        show "gv_name (GA\<lparr>gv_operands := [?r]\<rparr>) = gv_name GA" by simp
        show "value_at ?M' ?r = Some new_function"
          using ar by (simp add: value_at_set_value value_at_add_value)
        show "is_placeholder new_function" by (rule is_placeholder_new)
        show "\<forall>j. j \<noteq> a \<longrightarrow> j \<noteq> ?r \<longrightarrow> value_at ?M' j = value_at M j"
          by (simp add: value_at_set_value value_at_add_value)
      qed
      with e False show ?thesis by simp
    next
      case nf: False
      let ?M' = "fst (add_value M new_variable)"
      have e: "alias_step Preserve a (M, Del) = (?M', Del @ [(a, ?r)])"
        using va False a(4) nf by (simp add: alias_step_def split_beta)
      have "alias_inv Preserve B (?M', Del @ [(a, ?r)])"
      proof (rule alias_inv_extend [OF inv a(1,2,3) False])
        show "length (m_values ?M') = Suc ?r" by simp
        show "value_at ?M' a = Some GA" using ar va by (simp add: value_at_add_value)
        show "gv_name GA = gv_name GA" by simp
        show "value_at ?M' ?r = Some new_variable" by (simp add: value_at_add_value)
        show "is_placeholder new_variable" by (rule is_placeholder_new)
        show "\<forall>j. j \<noteq> a \<longrightarrow> j \<noteq> ?r \<longrightarrow> value_at ?M' j = value_at M j"
          by (simp add: value_at_add_value)
      qed
      with e False show ?thesis by simp
    qed
  qed
qed

lemma alias_loop:
  assumes "alias_inv Preserve B (M, Del)" "distinct as" "set as \<inter> fst ` set Del = {}"
    "\<forall>a \<in> set as. \<exists>GA. value_at B a = Some GA \<and> gv_kind GA = GlobalAliasVal \<and>
       \<not> hasLocalLinkage GA"
  shows "\<exists>M' Del'. fold (alias_step Preserve) as (M, Del) = (M', Del') \<and>
     alias_inv Preserve B (M', Del') \<and>
     fst ` set Del' = fst ` set Del \<union> {a \<in> set as. a \<notin> set Preserve}"
  using assms
proof (induction as arbitrary: M Del)
  case Nil
  then show ?case by simp
next
  case (Cons a as)
  from Cons.prems(4) obtain GA where GA: "value_at B a = Some GA" "gv_kind GA = GlobalAliasVal"
    "\<not> hasLocalLinkage GA" by auto
  have na: "a \<notin> fst ` set Del" using Cons.prems(3) by auto
  from alias_step_inv [OF Cons.prems(1) na GA] obtain M1 Del1 where
    1: "alias_step Preserve a (M, Del) = (M1, Del1)" "alias_inv Preserve B (M1, Del1)"
    "fst ` set Del1 = fst ` set Del \<union> (if a \<in> set Preserve then {} else {a})" by blast
  have d: "distinct as" "set as \<inter> fst ` set Del1 = {}"
    "\<forall>a \<in> set as. \<exists>GA. value_at B a = Some GA \<and> gv_kind GA = GlobalAliasVal \<and>
       \<not> hasLocalLinkage GA"
    using 1(3) Cons.prems(2,3,4) by (auto split: if_splits)
  from Cons.IH [OF 1(2) d] obtain M' Del' where
    2: "fold (alias_step Preserve) as (M1, Del1) = (M', Del')" "alias_inv Preserve B (M', Del')"
    "fst ` set Del' = fst ` set Del1 \<union> {a \<in> set as. a \<notin> set Preserve}" by blast
  have "fold (alias_step Preserve) (a # as) (M, Del) = (M', Del')" using 1(1) 2(1) by simp
  moreover have "fst ` set Del' = fst ` set Del \<union> {x \<in> set (a # as). x \<notin> set Preserve}"
    unfolding 2(3) 1(3) by auto
  ultimately show ?case using 2(2) by blast
qed

subsection \<open>The loop over the deleted aliases\<close>

lemma rho_Nil [simp]: "rho [] x = x"
  by (simp add: rho_def)

lemma rho_Cons: "rho (d # ds) x = rho ds (if x = fst d then snd d else x)"
  by (simp add: rho_def)

lemma rho_snoc: "rho (ds @ [d]) x = (if rho ds x = fst d then snd d else rho ds x)"
  by (simp add: rho_def)

lemma rho_notin: "x \<notin> fst ` set ds \<Longrightarrow> rho ds x = x"
  by (induction ds) (simp_all add: rho_Cons)

lemma rho_in:
  assumes "(a, r) \<in> set ds" "distinct (map fst ds)" "\<forall>d \<in> set ds. snd d \<notin> fst ` set ds"
  shows "rho ds a = r"
  using assms
proof (induction ds)
  case Nil
  then show ?case by simp
next
  case (Cons d ds)
  show ?case
  proof (cases "a = fst d")
    case True
    have "(a, r) \<notin> set ds"
    proof
      assume "(a, r) \<in> set ds"
      then have "a \<in> fst ` set ds" by force
      with Cons.prems(2) True show False by simp
    qed
    with Cons.prems(1) have d: "d = (a, r)" by simp
    from Cons.prems(3) have "snd d \<notin> fst ` set ds" by auto
    with d have "r \<notin> fst ` set ds" by simp
    then have "rho ds r = r" by (rule rho_notin)
    with d show ?thesis by (simp add: rho_Cons)
  next
    case False
    with Cons.prems(1) have m: "(a, r) \<in> set ds" by auto
    have "distinct (map fst ds)" "\<forall>d \<in> set ds. snd d \<notin> fst ` set ds"
      using Cons.prems(2,3) by auto
    from Cons.IH [OF m this] False show ?thesis by (simp add: rho_Cons)
  qed
qed

lemma length_replaceAllUsesWith [simp]:
  "length (m_values (replaceAllUsesWith M a r)) = length (m_values M)"
  by (simp add: replaceAllUsesWith_def)

lemma delete_step_value:
  assumes a: "value_at M a = Some GA" and r: "value_at M r = Some R" and ne: "a \<noteq> r"
  shows "value_at (delete_step (a, r) M) j =
     (if j = a then None
      else if j = r then
        Some (if gv_kind R = FunctionVal then deleteBody (R\<lparr>gv_name := gv_name GA\<rparr>)
              else dropInitializer (R\<lparr>gv_name := gv_name GA\<rparr>))
      else map_option (\<lambda>V. V\<lparr>gv_operands := map (\<lambda>x. if x = a then r else x) (gv_operands V)\<rparr>)
             (value_at M j))"
proof -
  have al: "a < length (m_values M)" using a by (rule value_at_less)
  have rl: "r < length (m_values M)" using r by (rule value_at_less)
  let ?s = "\<lambda>V. V\<lparr>gv_operands := map (\<lambda>x. if x = a then r else x) (gv_operands V)\<rparr>"
  let ?M1 = "takeName M r a"
  have M1: "?M1 = set_value (set_value M r (Some (R\<lparr>gv_name := gv_name GA\<rparr>))) a
      (Some (GA\<lparr>gv_name := []\<rparr>))"
    using a r by (simp add: takeName_def)
  have l1: "length (m_values ?M1) = length (m_values M)" unfolding M1 by simp
  have v1: "value_at ?M1 i =
      (if i = a then Some (GA\<lparr>gv_name := []\<rparr>)
       else if i = r then Some (R\<lparr>gv_name := gv_name GA\<rparr>) else value_at M i)" for i
    unfolding M1 using al rl by (simp add: value_at_set_value)
  let ?M3 = "eraseFromParent (replaceAllUsesWith ?M1 a r) a"
  have l3: "length (m_values ?M3) = length (m_values M)"
    by (simp add: eraseFromParent_def l1)
  have v3: "value_at ?M3 i =
      (if i = a then None
       else if i = r then Some (?s (R\<lparr>gv_name := gv_name GA\<rparr>))
       else map_option ?s (value_at M i))" for i
    using al by (simp add: eraseFromParent_def value_at_set_value value_at_replaceAllUsesWith v1 l1)
  have v3r: "value_at ?M3 r = Some (?s (R\<lparr>gv_name := gv_name GA\<rparr>))"
    using ne by (simp add: v3)
  have e: "delete_step (a, r) M =
      set_value ?M3 r
        (Some (if gv_kind R = FunctionVal then deleteBody (R\<lparr>gv_name := gv_name GA\<rparr>)
               else dropInitializer (R\<lparr>gv_name := gv_name GA\<rparr>)))"
    by (simp add: delete_step_def strip_replacement_def v3r deleteBody_def dropInitializer_def)
  show ?thesis unfolding e using rl ne by (simp add: value_at_set_value l3 v3)
qed

lemma del_invD:
  assumes "del_inv B dn ps M"
  shows "\<forall>d \<in> set ps. \<exists>GA R. value_at M (fst d) = Some GA \<and> gv_name GA = name_of B (fst d) \<and>
        value_at M (snd d) = Some R \<and> is_placeholder R"
    and "\<forall>d \<in> set dn. value_at M (fst d) = None \<and>
        (\<exists>R. value_at M (snd d) = Some R \<and> gv_name R = name_of B (fst d) \<and>
           gv_kind R \<noteq> GlobalAliasVal \<and> gv_blocks R = [] \<and> \<not> gv_initializer R \<and>
           gv_operands R = [])"
    and "\<forall>j V. value_at M j = Some V \<longrightarrow> (\<forall>d \<in> set dn. fst d \<notin> set (gv_operands V))"
    and "\<forall>j. j \<notin> fst ` set (dn @ ps) \<longrightarrow> j \<notin> snd ` set (dn @ ps) \<longrightarrow>
        value_at M j =
          map_option (\<lambda>V. V\<lparr>gv_operands := map (rho dn) (gv_operands V)\<rparr>) (value_at B j)"
proof -
  note a = assms [unfolded del_inv_def]
  from a show "\<forall>d \<in> set ps. \<exists>GA R. value_at M (fst d) = Some GA \<and> gv_name GA = name_of B (fst d) \<and>
        value_at M (snd d) = Some R \<and> is_placeholder R" by (elim conjE)
  from a show "\<forall>d \<in> set dn. value_at M (fst d) = None \<and>
        (\<exists>R. value_at M (snd d) = Some R \<and> gv_name R = name_of B (fst d) \<and>
           gv_kind R \<noteq> GlobalAliasVal \<and> gv_blocks R = [] \<and> \<not> gv_initializer R \<and>
           gv_operands R = [])" by (elim conjE)
  from a show "\<forall>j V. value_at M j = Some V \<longrightarrow> (\<forall>d \<in> set dn. fst d \<notin> set (gv_operands V))"
    by (elim conjE)
  from a show "\<forall>j. j \<notin> fst ` set (dn @ ps) \<longrightarrow> j \<notin> snd ` set (dn @ ps) \<longrightarrow>
        value_at M j =
          map_option (\<lambda>V. V\<lparr>gv_operands := map (rho dn) (gv_operands V)\<rparr>) (value_at B j)"
    by (elim conjE)
qed

lemma delete_step_inv:
  assumes inv: "del_inv B dn (d # ps) M"
    and df: "distinct (map fst (dn @ d # ps))" and ds: "distinct (map snd (dn @ d # ps))"
    and cross: "\<forall>x \<in> set (dn @ d # ps). \<forall>y \<in> set (dn @ d # ps). snd x \<noteq> fst y"
  shows "del_inv B (dn @ [d]) ps (delete_step d M)"
proof -
  note i = del_invD [OF inv]
  obtain a r where d: "d = (a, r)" by (cases d)
  from i(1) d obtain GA R where GA: "value_at M a = Some GA" "gv_name GA = name_of B a"
    and R: "value_at M r = Some R" "is_placeholder R" by auto
  have ne: "a \<noteq> r" using cross d by auto
  let ?M = "delete_step (a, r) M"
  let ?s = "\<lambda>x. if x = a then r else x"
  note v = delete_step_value [OF GA(1) R(1) ne]
  have other: "value_at ?M j = map_option (\<lambda>V. V\<lparr>gv_operands := map ?s (gv_operands V)\<rparr>) (value_at M j)"
    if "j \<noteq> a" "j \<noteq> r" for j using that by (simp add: v)
  have 1: "\<forall>d' \<in> set ps. \<exists>GA R. value_at ?M (fst d') = Some GA \<and> gv_name GA = name_of B (fst d') \<and>
        value_at ?M (snd d') = Some R \<and> is_placeholder R"
  proof
    fix d' assume m: "d' \<in> set ps"
    have n: "fst d' \<noteq> a" "snd d' \<noteq> r" using df ds d m by auto
    have c: "fst d' \<noteq> r" "snd d' \<noteq> a" using cross d m by auto
    from i(1) m obtain GA' R' where g: "value_at M (fst d') = Some GA'"
      "gv_name GA' = name_of B (fst d')" "value_at M (snd d') = Some R'" "is_placeholder R'"
      by auto
    have "value_at ?M (fst d') = Some (GA'\<lparr>gv_operands := map ?s (gv_operands GA')\<rparr>)"
      using other [OF n(1) c(1)] g(1) by simp
    moreover have "value_at ?M (snd d') = Some (R'\<lparr>gv_operands := map ?s (gv_operands R')\<rparr>)"
      using other [OF c(2) n(2)] g(3) by simp
    moreover have "is_placeholder (R'\<lparr>gv_operands := map ?s (gv_operands R')\<rparr>)"
      using g(4) by (simp add: is_placeholder_def)
    ultimately show "\<exists>GA R. value_at ?M (fst d') = Some GA \<and> gv_name GA = name_of B (fst d') \<and>
        value_at ?M (snd d') = Some R \<and> is_placeholder R" using g(2) by simp
  qed
  have 2: "\<forall>d' \<in> set (dn @ [d]). value_at ?M (fst d') = None \<and>
        (\<exists>R. value_at ?M (snd d') = Some R \<and> gv_name R = name_of B (fst d') \<and>
           gv_kind R \<noteq> GlobalAliasVal \<and> gv_blocks R = [] \<and> \<not> gv_initializer R \<and>
           gv_operands R = [])"
  proof
    fix d' assume "d' \<in> set (dn @ [d])"
    then consider "d' \<in> set dn" | "d' = d" by auto
    then show "value_at ?M (fst d') = None \<and>
        (\<exists>R. value_at ?M (snd d') = Some R \<and> gv_name R = name_of B (fst d') \<and>
           gv_kind R \<noteq> GlobalAliasVal \<and> gv_blocks R = [] \<and> \<not> gv_initializer R \<and>
           gv_operands R = [])"
    proof cases
      case 1
      have n: "fst d' \<noteq> a" "snd d' \<noteq> r" using df ds d 1 by auto
      have c: "fst d' \<noteq> r" "snd d' \<noteq> a" using cross d 1 by auto
      from i(2) 1 obtain R' where g: "value_at M (fst d') = None" "value_at M (snd d') = Some R'"
        "gv_name R' = name_of B (fst d')" "gv_kind R' \<noteq> GlobalAliasVal" "gv_blocks R' = []"
        "\<not> gv_initializer R'" "gv_operands R' = []" by auto
      have "value_at ?M (fst d') = None" using other [OF n(1) c(1)] g(1) by simp
      moreover have "value_at ?M (snd d') = Some (R'\<lparr>gv_operands := map ?s (gv_operands R')\<rparr>)"
        using other [OF c(2) n(2)] g(2) by simp
      ultimately show ?thesis using g(3-7) by simp
    next
      case 2
      let ?R = "if gv_kind R = FunctionVal then deleteBody (R\<lparr>gv_name := gv_name GA\<rparr>)
              else dropInitializer (R\<lparr>gv_name := gv_name GA\<rparr>)"
      have "value_at ?M a = None" by (simp add: v)
      moreover have "value_at ?M r = Some ?R" using ne by (simp add: v)
      moreover have "gv_name ?R = name_of B a \<and> gv_kind ?R \<noteq> GlobalAliasVal \<and>
          gv_blocks ?R = [] \<and> \<not> gv_initializer ?R \<and> gv_operands ?R = []"
        using R(2) GA(2) by (auto simp: is_placeholder_def deleteBody_def dropInitializer_def)
      ultimately show ?thesis unfolding 2 d by simp
    qed
  qed
  have 3: "\<forall>j V. value_at ?M j = Some V \<longrightarrow> (\<forall>d' \<in> set (dn @ [d]). fst d' \<notin> set (gv_operands V))"
  proof (intro allI impI ballI)
    fix j V d' assume jv: "value_at ?M j = Some V" and m: "d' \<in> set (dn @ [d])"
    have ja: "j \<noteq> a" using jv by (auto simp: v)
    show "fst d' \<notin> set (gv_operands V)"
    proof (cases "j = r")
      case True
      with jv ne have "gv_operands V = []"
        by (auto simp: v deleteBody_def dropInitializer_def split: if_splits)
      then show ?thesis by simp
    next
      case False
      from jv other [OF ja False] obtain V0 where V0: "value_at M j = Some V0"
        "V = V0\<lparr>gv_operands := map ?s (gv_operands V0)\<rparr>" by auto
      have "d \<in> set (dn @ d # ps)" "d' \<in> set (dn @ d # ps)" using m by auto
      with cross have "snd d \<noteq> fst d'" by blast
      then have nr: "fst d' \<noteq> r" by (simp add: d)
      show ?thesis
      proof (cases "d' = d")
        case True
        then have "fst d' = a" by (simp add: d)
        then show ?thesis using ne by (auto simp: V0(2))
      next
        case False
        with m have "d' \<in> set dn" by simp
        with i(3) V0(1) have "fst d' \<notin> set (gv_operands V0)" by blast
        with nr show ?thesis by (auto simp: V0(2))
      qed
    qed
  qed
  have 4: "\<forall>j. j \<notin> fst ` set ((dn @ [d]) @ ps) \<longrightarrow> j \<notin> snd ` set ((dn @ [d]) @ ps) \<longrightarrow>
        value_at ?M j =
          map_option (\<lambda>V. V\<lparr>gv_operands := map (rho (dn @ [d])) (gv_operands V)\<rparr>) (value_at B j)"
  proof (intro allI impI)
    fix j assume j: "j \<notin> fst ` set ((dn @ [d]) @ ps)" "j \<notin> snd ` set ((dn @ [d]) @ ps)"
    then have ja: "j \<noteq> a" and jr: "j \<noteq> r" using d by force+
    from j have "j \<notin> fst ` set (dn @ d # ps)" "j \<notin> snd ` set (dn @ d # ps)" by simp_all
    with i(4) have b: "value_at M j =
        map_option (\<lambda>V. V\<lparr>gv_operands := map (rho dn) (gv_operands V)\<rparr>) (value_at B j)" by blast
    have r: "rho (dn @ [d]) x = ?s (rho dn x)" for x by (simp add: rho_snoc d)
    show "value_at ?M j =
          map_option (\<lambda>V. V\<lparr>gv_operands := map (rho (dn @ [d])) (gv_operands V)\<rparr>) (value_at B j)"
      unfolding other [OF ja jr] b by (cases "value_at B j") (simp_all add: r)
  qed
  show ?thesis unfolding del_inv_def d [symmetric] using 1 2 3 4 unfolding d by (intro conjI)
qed

lemma delete_loop:
  assumes "del_inv B dn ps M" "distinct (map fst (dn @ ps))" "distinct (map snd (dn @ ps))"
    "\<forall>x \<in> set (dn @ ps). \<forall>y \<in> set (dn @ ps). snd x \<noteq> fst y"
  shows "del_inv B (dn @ ps) [] (fold delete_step ps M)"
  using assms
proof (induction ps arbitrary: dn M)
  case Nil
  then show ?case by simp
next
  case (Cons d ps)
  from delete_step_inv [OF Cons.prems] have 1: "del_inv B (dn @ [d]) ps (delete_step d M)" .
  have 2: "distinct (map fst ((dn @ [d]) @ ps))" "distinct (map snd ((dn @ [d]) @ ps))"
    "\<forall>x \<in> set ((dn @ [d]) @ ps). \<forall>y \<in> set ((dn @ [d]) @ ps). snd x \<noteq> fst y"
    using Cons.prems(2,3,4) by simp_all
  from Cons.IH [OF 1 2] show ?case by simp
qed

subsection \<open>The function\<close>

lemma rho_empty: "rho [] = (\<lambda>x. x)"
  by (rule ext) simp

lemma isDeclaration_operands [simp]:
  "isDeclaration (V\<lparr>gv_operands := xs\<rparr>) = isDeclaration V"
  by (cases "gv_kind V") (simp_all add: isDeclaration_def)

lemma strip_rel_alias:
  assumes sr: "strip_rel M M'"
  shows "value_at M a = Some A \<Longrightarrow> gv_kind A = GlobalAliasVal \<Longrightarrow> value_at M' a = Some A"
    and "value_at M' a = Some A \<Longrightarrow> gv_kind A = GlobalAliasVal \<Longrightarrow> value_at M a = Some A"
proof -
  assume a: "value_at M a = Some A" "gv_kind A = GlobalAliasVal"
  with sr obtain A' where "value_at M' a = Some A'" "stripped A A'"
    unfolding strip_rel_def by (auto dest!: spec [of _ a])
  with a(2) show "value_at M' a = Some A" by (simp add: stripped_def)
next
  assume a: "value_at M' a = Some A" "gv_kind A = GlobalAliasVal"
  from strip_rel_kind [OF sr a(1)] obtain V where "value_at M a = Some V" "stripped V A"
    "gv_kind A = gv_kind V" by blast
  with a(2) show "value_at M a = Some A" by (simp add: stripped_def)
qed

lemma strip_rel_value:
  assumes "strip_rel M M'" "value_at M v = Some V"
  shows "\<exists>V'. value_at M' v = Some V' \<and> stripped V V'"
  using assms unfolding strip_rel_def by (auto dest!: spec [of _ v])

text \<open>
  On a module without aliases of local linkage, with a partition whose names all have
  their flag set: every alias not named in the partition is erased; its replacement
  is a new value with the name of the alias, a declaration without operands; no value
  refers to the alias any more; and where a value of the module referred to the alias,
  it now refers to the replacement, unless the value has been erased as an alias or
  stripped to a declaration itself.
\<close>

lemma materialize_aliases:
  assumes flags: "\<forall>x \<in> set (p_globals P). snd x"
    and ext: "\<forall>a A. value_at M a = Some A \<longrightarrow> gv_kind A = GlobalAliasVal \<longrightarrow> \<not> hasLocalLinkage A"
  shows "\<exists>M' repl. materializePreserved M P = Inr M' \<and>
     (\<forall>a A. value_at M a = Some A \<and> gv_kind A = GlobalAliasVal \<and>
         gv_name A \<notin> fst ` set (p_globals P) \<longrightarrow>
        value_at M' a = None \<and> length (m_values M) \<le> repl a \<and>
        (\<exists>R. value_at M' (repl a) = Some R \<and> gv_name R = gv_name A \<and>
           gv_kind R \<noteq> GlobalAliasVal \<and> isDeclaration R \<and> gv_blocks R = [] \<and>
           \<not> gv_initializer R \<and> gv_operands R = []) \<and>
        (\<forall>v V'. value_at M' v = Some V' \<longrightarrow> a \<notin> set (gv_operands V')) \<and>
        (\<forall>v V k. value_at M v = Some V \<and> k < length (gv_operands V) \<and> gv_operands V ! k = a \<longrightarrow>
           (value_at M' v = None \<and> gv_kind V = GlobalAliasVal) \<or>
           (\<exists>V'. value_at M' v = Some V' \<and>
              ((gv_operands V' = [] \<and> isDeclaration V') \<or>
               (length (gv_operands V') = length (gv_operands V) \<and>
                gv_operands V' ! k = repl a)))))"
proof -
  from preserve_loop_flags [OF flags, of M "[]"] obtain pres where
    p: "preserve_loop (p_globals P) (M, []) = Inr (M, pres)"
    "\<forall>g \<in> set pres. \<exists>G. value_at M g = Some G \<and> gv_name G \<in> fst ` set (p_globals P)"
    by auto
  define M2 where "M2 = fold (strip_function pres) (m_functions M) M"
  define M3 where "M3 = fold (strip_global pres) (m_globals M2) M2"
  have sr: "strip_rel M M3" unfolding M3_def M2_def by (rule strip_phase)
  then have len3: "length (m_values M3) = length (m_values M)" by (simp add: strip_rel_def)
  note al3 = strip_rel_alias [OF sr]
  have al: "\<forall>a \<in> set (m_aliases M3). \<exists>GA. value_at M3 a = Some GA \<and>
      gv_kind GA = GlobalAliasVal \<and> \<not> hasLocalLinkage GA"
  proof
    fix a assume "a \<in> set (m_aliases M3)"
    then obtain GA where GA: "value_at M3 a = Some GA" "gv_kind GA = GlobalAliasVal"
      by (auto simp: m_aliases_def ids_of_kind_iff)
    from al3(2) [OF GA] ext GA(2) have "\<not> hasLocalLinkage GA" by blast
    with GA show "\<exists>GA. value_at M3 a = Some GA \<and> gv_kind GA = GlobalAliasVal \<and>
      \<not> hasLocalLinkage GA" by blast
  qed
  have i0: "alias_inv pres M3 (M3, [])" by (simp add: alias_inv_def)
  have da: "distinct (m_aliases M3)" by (simp add: m_aliases_def distinct_ids_of_kind)
  have e0: "set (m_aliases M3) \<inter> fst ` set [] = {}" by simp
  from alias_loop [OF i0 da e0 al] obtain M4 Del where
    l: "fold (alias_step pres) (m_aliases M3) (M3, []) = (M4, Del)" "alias_inv pres M3 (M4, Del)"
    "fst ` set Del = {a \<in> set (m_aliases M3). a \<notin> set pres}" by auto
  note i = alias_invD [OF l(2)]
  note bd = alias_inv_bounds [OF l(2)]
  define M' where "M' = fold delete_step Del M4"
  have e: "materializePreserved M P = Inr M'"
    unfolding materializePreserved_def p(1) M'_def
    using l(1) by (simp add: Let_def M2_def [symmetric] M3_def [symmetric])
  have d0: "del_inv M4 [] Del M4"
    unfolding del_inv_def
  proof (intro conjI)
    show "\<forall>d \<in> set Del. \<exists>GA R. value_at M4 (fst d) = Some GA \<and> gv_name GA = name_of M4 (fst d) \<and>
        value_at M4 (snd d) = Some R \<and> is_placeholder R"
    proof
      fix d assume "d \<in> set Del"
      with i(5) obtain GA' R where "value_at M4 (fst d) = Some GA'" "value_at M4 (snd d) = Some R"
        "is_placeholder R" by blast
      then show "\<exists>GA R. value_at M4 (fst d) = Some GA \<and> gv_name GA = name_of M4 (fst d) \<and>
        value_at M4 (snd d) = Some R \<and> is_placeholder R" by (simp add: name_of_def)
    qed
    show "\<forall>j. j \<notin> fst ` set ([] @ Del) \<longrightarrow> j \<notin> snd ` set ([] @ Del) \<longrightarrow>
        value_at M4 j =
          map_option (\<lambda>V. V\<lparr>gv_operands := map (rho []) (gv_operands V)\<rparr>) (value_at M4 j)"
      by (simp add: rho_empty option.map_ident)
  qed simp_all
  have s1: "distinct (map fst ([] @ Del))" using i(3) by simp
  have s2: "distinct (map snd ([] @ Del))" using i(2) by simp
  have cross: "snd x \<noteq> fst y" if "x \<in> set Del" "y \<in> set Del" for x y
    using bd(2) [OF that(1)] bd(1) [OF that(2)] by simp
  then have s3: "\<forall>x \<in> set ([] @ Del). \<forall>y \<in> set ([] @ Del). snd x \<noteq> fst y" by simp
  from delete_loop [OF d0 s1 s2 s3] have dl: "del_inv M4 Del [] M'" by (simp add: M'_def)
  note k = del_invD [OF dl]
  have main: "\<forall>a A. value_at M a = Some A \<and> gv_kind A = GlobalAliasVal \<and>
         gv_name A \<notin> fst ` set (p_globals P) \<longrightarrow>
        value_at M' a = None \<and> length (m_values M) \<le> rho Del a \<and>
        (\<exists>R. value_at M' (rho Del a) = Some R \<and> gv_name R = gv_name A \<and>
           gv_kind R \<noteq> GlobalAliasVal \<and> isDeclaration R \<and> gv_blocks R = [] \<and>
           \<not> gv_initializer R \<and> gv_operands R = []) \<and>
        (\<forall>v V'. value_at M' v = Some V' \<longrightarrow> a \<notin> set (gv_operands V')) \<and>
        (\<forall>v V k. value_at M v = Some V \<and> k < length (gv_operands V) \<and> gv_operands V ! k = a \<longrightarrow>
           (value_at M' v = None \<and> gv_kind V = GlobalAliasVal) \<or>
           (\<exists>V'. value_at M' v = Some V' \<and>
              ((gv_operands V' = [] \<and> isDeclaration V') \<or>
               (length (gv_operands V') = length (gv_operands V) \<and>
                gv_operands V' ! k = rho Del a))))"
  proof (intro allI impI)
    fix a A
    assume h: "value_at M a = Some A \<and> gv_kind A = GlobalAliasVal \<and>
         gv_name A \<notin> fst ` set (p_globals P)"
    then have A: "value_at M a = Some A" "gv_kind A = GlobalAliasVal"
      "gv_name A \<notin> fst ` set (p_globals P)" by simp_all
    have A3: "value_at M3 a = Some A" using al3(1) [OF A(1,2)] .
    then have m: "a \<in> set (m_aliases M3)" using A(2) by (auto simp: m_aliases_def ids_of_kind_iff)
    have np: "a \<notin> set pres"
    proof
      assume "a \<in> set pres"
      with p(2) obtain G where "value_at M a = Some G" "gv_name G \<in> fst ` set (p_globals P)"
        by blast
      with A(1,3) show False by simp
    qed
    from m np l(3) have "a \<in> fst ` set Del" by simp
    then obtain d where d: "d \<in> set Del" "fst d = a" by auto
    define r where "r = snd d"
    have "d = (a, r)" using d(2) by (cases d) (simp add: r_def)
    with d(1) have ar: "(a, r) \<in> set Del" by simp
    have "\<forall>d \<in> set Del. snd d \<notin> fst ` set Del" using cross by force
    with rho_in [OF ar i(3)] have rr: "rho Del a = r" by simp
    from k(2) d obtain R where R: "value_at M' a = None" "value_at M' r = Some R"
      "gv_name R = name_of M4 a" "gv_kind R \<noteq> GlobalAliasVal" "gv_blocks R = []"
      "\<not> gv_initializer R" "gv_operands R = []" unfolding r_def by auto
    from i(5) d obtain GA GA' where g: "value_at M3 a = Some GA" "value_at M4 a = Some GA'"
      "gv_name GA' = gv_name GA" by auto
    have nm: "name_of M4 a = gv_name A" using g A3 by (simp add: name_of_def)
    have decl: "isDeclaration R" using R(4,5,6) by (cases "gv_kind R") (simp_all add: isDeclaration_def)
    have c1: "value_at M' a = None" by (rule R(1))
    have c2: "length (m_values M) \<le> rho Del a" using bd(2) [OF d(1)] by (simp add: rr r_def len3)
    have c3: "\<exists>R. value_at M' (rho Del a) = Some R \<and> gv_name R = gv_name A \<and>
           gv_kind R \<noteq> GlobalAliasVal \<and> isDeclaration R \<and> gv_blocks R = [] \<and>
           \<not> gv_initializer R \<and> gv_operands R = []"
      unfolding rr using R(2-7) nm decl by simp
    have c4: "\<forall>v V'. value_at M' v = Some V' \<longrightarrow> a \<notin> set (gv_operands V')"
    proof (intro allI impI)
      fix v V' assume "value_at M' v = Some V'"
      with k(3) d(1) have "fst d \<notin> set (gv_operands V')" by simp
      then show "a \<notin> set (gv_operands V')" by (simp add: d(2))
    qed
    have c5: "\<forall>v V k. value_at M v = Some V \<and> k < length (gv_operands V) \<and> gv_operands V ! k = a \<longrightarrow>
           (value_at M' v = None \<and> gv_kind V = GlobalAliasVal) \<or>
           (\<exists>V'. value_at M' v = Some V' \<and>
              ((gv_operands V' = [] \<and> isDeclaration V') \<or>
               (length (gv_operands V') = length (gv_operands V) \<and>
                gv_operands V' ! k = rho Del a)))"
    proof (intro allI impI)
      fix v V kk
      assume "value_at M v = Some V \<and> kk < length (gv_operands V) \<and> gv_operands V ! kk = a"
      then have u: "value_at M v = Some V" "kk < length (gv_operands V)" "gv_operands V ! kk = a"
        by simp_all
      show "(value_at M' v = None \<and> gv_kind V = GlobalAliasVal) \<or>
           (\<exists>V'. value_at M' v = Some V' \<and>
              ((gv_operands V' = [] \<and> isDeclaration V') \<or>
               (length (gv_operands V') = length (gv_operands V) \<and>
                gv_operands V' ! kk = rho Del a)))"
      proof (cases "v \<in> fst ` set Del")
        case True
        then obtain d' where d': "d' \<in> set Del" "fst d' = v" by auto
        from k(2) d' have "value_at M' v = None" by auto
        moreover from i(5) d' obtain GV where "value_at M3 v = Some GV" "gv_kind GV = GlobalAliasVal"
          by auto
        with al3(2) u(1) have "gv_kind V = GlobalAliasVal" by fastforce
        ultimately show ?thesis by simp
      next
        case False
        have vl: "v < length (m_values M3)" using value_at_less [OF u(1)] len3 by simp
        have ns: "v \<notin> snd ` set Del"
        proof
          assume "v \<in> snd ` set Del"
          then obtain d' where "d' \<in> set Del" "snd d' = v" by auto
          with bd(2) [of d'] vl show False by simp
        qed
        from strip_rel_value [OF sr u(1)] obtain V3 where V3: "value_at M3 v = Some V3"
          "stripped V V3" by blast
        from i(4) vl False V3(1) have V4: "value_at M4 v = Some V3" by simp
        from k(4) False ns have "value_at M' v =
            map_option (\<lambda>V. V\<lparr>gv_operands := map (rho Del) (gv_operands V)\<rparr>) (value_at M4 v)"
          by simp
        then have V': "value_at M' v = Some (V3\<lparr>gv_operands := map (rho Del) (gv_operands V3)\<rparr>)"
          by (simp add: V4)
        show ?thesis
        proof (cases "V3 = V")
          case True
          have "length (gv_operands (V3\<lparr>gv_operands := map (rho Del) (gv_operands V3)\<rparr>)) =
              length (gv_operands V)" using True by simp
          moreover have "gv_operands (V3\<lparr>gv_operands := map (rho Del) (gv_operands V3)\<rparr>) ! kk =
              rho Del a" using True u(2,3) by simp
          ultimately show ?thesis using V' by blast
        next
          case False
          with V3(2) have "gv_operands V3 = []" "isDeclaration V3" by (simp_all add: stripped_def)
          then have "gv_operands (V3\<lparr>gv_operands := map (rho Del) (gv_operands V3)\<rparr>) = []"
            "isDeclaration (V3\<lparr>gv_operands := map (rho Del) (gv_operands V3)\<rparr>)"
            by simp_all
          with V' show ?thesis by blast
        qed
      qed
    qed
    show "value_at M' a = None \<and> length (m_values M) \<le> rho Del a \<and>
        (\<exists>R. value_at M' (rho Del a) = Some R \<and> gv_name R = gv_name A \<and>
           gv_kind R \<noteq> GlobalAliasVal \<and> isDeclaration R \<and> gv_blocks R = [] \<and>
           \<not> gv_initializer R \<and> gv_operands R = []) \<and>
        (\<forall>v V'. value_at M' v = Some V' \<longrightarrow> a \<notin> set (gv_operands V')) \<and>
        (\<forall>v V k. value_at M v = Some V \<and> k < length (gv_operands V) \<and> gv_operands V ! k = a \<longrightarrow>
           (value_at M' v = None \<and> gv_kind V = GlobalAliasVal) \<or>
           (\<exists>V'. value_at M' v = Some V' \<and>
              ((gv_operands V' = [] \<and> isDeclaration V') \<or>
               (length (gv_operands V') = length (gv_operands V) \<and>
                gv_operands V' ! k = rho Del a))))"
      using c1 c2 c3 c4 c5 by (intro conjI)
  qed
  show ?thesis by (intro exI conjI, rule e, rule main)
qed

section \<open>Properties of the partitions\<close>

lemma wf_names_inj:
  assumes "wf_module M" "partitionable M a" "partitionable M b" "name_of M a = name_of M b"
  shows "a = b"
proof -
  from assms(1) have "inj_on (name_of M) (set (partitionable_ids M))"
    by (simp add: wf_module_def distinct_map)
  with assms(2-4) show ?thesis by (auto simp: partitionable_ids_iff dest: inj_onD)
qed

text \<open>
  Claim C1. For every number \<open>T \<ge> 1\<close> of partitions and every well-formed module,
  \<open>partitionModule\<close> returns \<open>T\<close> partitions; the union of their name sets is the set
  of names of the definitions that can be partitioned (not a declaration, not an
  always-inline function); every such definition is named in exactly one partition, and
  no partition lists a name twice.
\<close>

theorem partition_covers_once:
  assumes wf: "wf_module M" and T: "0 < T"
  shows "\<exists>M' parts. partitionModule M T = Inr (M', parts) \<and> length parts = T \<and>
     (\<Union>P \<in> set parts. fst ` set (p_globals P)) = name_of M ` {g. partitionable M g} \<and>
     (\<forall>g. partitionable M g \<longrightarrow>
        (\<exists>!i. i < T \<and> name_of M g \<in> fst ` set (p_globals (parts ! i)))) \<and>
     (\<forall>i < T. distinct (map fst (p_globals (parts ! i))))"
proof -
  from partition_view [OF wf T]
  obtain M2 parts shard F G where pr: "partition_result M T M2 parts shard F G" by blast
  note v = partition_resultD(1) [OF pr] partition_resultD(2) [OF pr] partition_resultD(6) [OF pr] partition_resultD(7) [OF pr] partition_resultD(12) [OF pr]
  have keys: "fst ` set (p_globals (parts ! p)) = name_of M ` {g. partitionable M g \<and> shard g = p}"
    if "p < T" for p using v(4) that by (simp add: image_image)
  have mem: "name_of M g \<in> fst ` set (p_globals (parts ! p)) \<longleftrightarrow> shard g = p"
    if "p < T" "partitionable M g" for p g
  proof
    assume "name_of M g \<in> fst ` set (p_globals (parts ! p))"
    with keys [OF that(1)] obtain h where h: "partitionable M h" "shard h = p"
      "name_of M g = name_of M h" by auto
    from wf_names_inj [OF wf that(2) h(1) h(3)] h(2) show "shard g = p" by simp
  next
    assume "shard g = p"
    with that keys [OF that(1)] show "name_of M g \<in> fst ` set (p_globals (parts ! p))" by auto
  qed
  have u: "(\<Union>P \<in> set parts. fst ` set (p_globals P)) = name_of M ` {g. partitionable M g}"
  proof (intro set_eqI iffI)
    fix x assume "x \<in> (\<Union>P \<in> set parts. fst ` set (p_globals P))"
    then obtain P where P: "P \<in> set parts" "x \<in> fst ` set (p_globals P)" by blast
    from P(1) obtain p where "p < length parts" "parts ! p = P"
      by (auto simp: in_set_conv_nth)
    with P(2) v(2) have "p < T" "x \<in> fst ` set (p_globals (parts ! p))" by simp_all
    with keys show "x \<in> name_of M ` {g. partitionable M g}" by auto
  next
    fix x assume "x \<in> name_of M ` {g. partitionable M g}"
    then obtain g where g: "partitionable M g" "x = name_of M g" by auto
    with v(3) have s: "shard g < T" by simp
    with mem [OF s g(1)] g(2) have "x \<in> fst ` set (p_globals (parts ! shard g))" by simp
    moreover have "parts ! shard g \<in> set parts" using s v(2) by simp
    ultimately show "x \<in> (\<Union>P \<in> set parts. fst ` set (p_globals P))" by blast
  qed
  have o: "\<forall>g. partitionable M g \<longrightarrow>
        (\<exists>!i. i < T \<and> name_of M g \<in> fst ` set (p_globals (parts ! i)))"
  proof (intro allI impI)
    fix g assume g: "partitionable M g"
    with v(3) have s: "shard g < T" by simp
    show "\<exists>!i. i < T \<and> name_of M g \<in> fst ` set (p_globals (parts ! i))"
    proof (rule ex1I [of _ "shard g"])
      show "shard g < T \<and> name_of M g \<in> fst ` set (p_globals (parts ! shard g))"
        using s mem [OF s g] by simp
    next
      fix i assume "i < T \<and> name_of M g \<in> fst ` set (p_globals (parts ! i))"
      with mem [of i g] g show "i = shard g" by simp
    qed
  qed
  show ?thesis
    by (intro exI conjI, rule v(1), rule v(2), rule u, rule o, rule v(5))
qed

text \<open>
  Claim C2, amended. For every two definitions \<open>a\<close> and \<open>b\<close> that can be partitioned,
  where \<open>a\<close> is among the users \<open>ConstantUses<GlobalValue>\<close> enumerates for \<open>b\<close> (the
  relation the merging loop and \<open>verify_partitioning\<close> go by), and for every \<open>T\<close>, a
  partition names \<open>a\<close> if and only if it names \<open>b\<close>, and one partition names both.
\<close>

theorem users_colocated:
  assumes wf: "wf_module M" and T: "0 < T"
  shows "\<exists>M' parts. partitionModule M T = Inr (M', parts) \<and>
     (\<forall>a b. partitionable M a \<and> partitionable M b \<and> a \<in> set (users_of M b) \<longrightarrow>
        (\<exists>i < T. name_of M a \<in> fst ` set (p_globals (parts ! i)) \<and>
                 name_of M b \<in> fst ` set (p_globals (parts ! i))) \<and>
        (\<forall>i < T. name_of M a \<in> fst ` set (p_globals (parts ! i)) \<longleftrightarrow>
                 name_of M b \<in> fst ` set (p_globals (parts ! i))))"
proof -
  from partition_view [OF wf T]
  obtain M2 parts shard F G where pr: "partition_result M T M2 parts shard F G" by blast
  note v = partition_resultD(1) [OF pr] partition_resultD(2) [OF pr] partition_resultD(6) [OF pr] partition_resultD(7) [OF pr] partition_resultD(10) [OF pr]
  have keys: "fst ` set (p_globals (parts ! p)) = name_of M ` {g. partitionable M g \<and> shard g = p}"
    if "p < T" for p using v(4) that by (simp add: image_image)
  have mem: "name_of M g \<in> fst ` set (p_globals (parts ! p)) \<longleftrightarrow> shard g = p"
    if "p < T" "partitionable M g" for p g
  proof
    assume "name_of M g \<in> fst ` set (p_globals (parts ! p))"
    with keys [OF that(1)] obtain h where h: "partitionable M h" "shard h = p"
      "name_of M g = name_of M h" by auto
    from wf_names_inj [OF wf that(2) h(1) h(3)] h(2) show "shard g = p" by simp
  next
    assume "shard g = p"
    with that keys [OF that(1)] show "name_of M g \<in> fst ` set (p_globals (parts ! p))" by auto
  qed
  have "(\<exists>i < T. name_of M a \<in> fst ` set (p_globals (parts ! i)) \<and>
                 name_of M b \<in> fst ` set (p_globals (parts ! i))) \<and>
        (\<forall>i < T. name_of M a \<in> fst ` set (p_globals (parts ! i)) \<longleftrightarrow>
                 name_of M b \<in> fst ` set (p_globals (parts ! i)))"
    if ab: "partitionable M a \<and> partitionable M b \<and> a \<in> set (users_of M b)" for a b
  proof -
    from ab v(5) have e: "shard a = shard b" by blast
    from ab v(3) have s: "shard b < T" by simp
    have "name_of M a \<in> fst ` set (p_globals (parts ! shard b))"
      "name_of M b \<in> fst ` set (p_globals (parts ! shard b))"
      using mem [OF s] ab e by simp_all
    moreover have "name_of M a \<in> fst ` set (p_globals (parts ! i)) \<longleftrightarrow>
                 name_of M b \<in> fst ` set (p_globals (parts ! i))" if "i < T" for i
      using mem [OF that] ab e by simp
    ultimately show ?thesis using s by blast
  qed
  then have "\<forall>a b. partitionable M a \<and> partitionable M b \<and> a \<in> set (users_of M b) \<longrightarrow>
        (\<exists>i < T. name_of M a \<in> fst ` set (p_globals (parts ! i)) \<and>
                 name_of M b \<in> fst ` set (p_globals (parts ! i))) \<and>
        (\<forall>i < T. name_of M a \<in> fst ` set (p_globals (parts ! i)) \<longleftrightarrow>
                 name_of M b \<in> fst ` set (p_globals (parts ! i)))"
    by (intro allI impI)
  with v(1) show ?thesis by (intro exI conjI)
qed

lemma index_map_table:
  assumes "distinct F"
  shows "index_map F 0 Map.empty g = Some k \<longleftrightarrow> k < length F \<and> F ! k = g"
  using index_map_iff [OF assms, of 0 Map.empty g k] by auto

text \<open>
  Claim C3. For each of the two index tables, of size \<open>N\<close>, whose entries are pairwise
  different definitions that can be partitioned: every flat id below \<open>N\<close> is recorded
  in the sub-table of exactly one partition; every recorded pair is the name of the
  table's entry at that id together with the id, so the ids are the original ones; and
  no sub-table holds an id twice.
\<close>

theorem flat_ids_once:
  assumes wf: "wf_module M" and T: "0 < T"
    and tf: "wf_table M (jl_fvars M)" and tg: "wf_table M (jl_gvars M)"
  shows "\<exists>M' parts F G. partitionModule M T = Inr (M', parts) \<and>
     jl_fvars M = Some F \<and> jl_gvars M = Some G \<and>
     (\<forall>k < length F. \<exists>!i. i < T \<and> k \<in> snd ` set (p_fvars (parts ! i))) \<and>
     (\<forall>k < length G. \<exists>!i. i < T \<and> k \<in> snd ` set (p_gvars (parts ! i))) \<and>
     (\<forall>i < T. \<forall>x \<in> set (p_fvars (parts ! i)). snd x < length F \<and> fst x = name_of M (F ! snd x)) \<and>
     (\<forall>i < T. \<forall>x \<in> set (p_gvars (parts ! i)). snd x < length G \<and> fst x = name_of M (G ! snd x)) \<and>
     (\<forall>i < T. distinct (map snd (p_fvars (parts ! i))) \<and> distinct (map snd (p_gvars (parts ! i))))"
proof -
  from partition_view [OF wf T]
  obtain M2 parts shard F G where pr: "partition_result M T M2 parts shard F G" by blast
  note v = partition_resultD(1) [OF pr] partition_resultD(4) [OF pr] partition_resultD(5) [OF pr] partition_resultD(6) [OF pr] partition_resultD(8) [OF pr] partition_resultD(9) [OF pr] partition_resultD(13) [OF pr]
  have main: "(\<forall>k < length X. \<exists>!i. i < T \<and> k \<in> snd ` set (tab (parts ! i))) \<and>
     (\<forall>i < T. \<forall>x \<in> set (tab (parts ! i)). snd x < length X \<and> fst x = name_of M (X ! snd x)) \<and>
     (\<forall>i < T. distinct (map snd (tab (parts ! i))))"
    if X: "distinct X" "\<forall>g \<in> set X. partitionable M g"
      and tab: "\<forall>p < T. set (tab (parts ! p)) =
         {(name_of M g, k) | g k. partitionable M g \<and> shard g = p \<and>
            index_map X 0 Map.empty g = Some k}"
      and dk: "\<forall>p < T. distinct (map fst (tab (parts ! p)))"
    for X :: "nat list" and tab :: "Partition \<Rightarrow> nat StringMap"
  proof -
    note im = index_map_table [OF X(1)]
    have ent: "x \<in> set (tab (parts ! p)) \<longleftrightarrow>
        snd x < length X \<and> fst x = name_of M (X ! snd x) \<and> shard (X ! snd x) = p"
      if "p < T" for p x
    proof
      assume "x \<in> set (tab (parts ! p))"
      with tab that obtain g k where "x = (name_of M g, k)" "shard g = p"
        "index_map X 0 Map.empty g = Some k" by auto
      then show "snd x < length X \<and> fst x = name_of M (X ! snd x) \<and> shard (X ! snd x) = p"
        by (auto simp: im)
    next
      assume a: "snd x < length X \<and> fst x = name_of M (X ! snd x) \<and> shard (X ! snd x) = p"
      then have "partitionable M (X ! snd x)" using X(2) by simp
      moreover have "index_map X 0 Map.empty (X ! snd x) = Some (snd x)" using a by (simp add: im)
      ultimately have "(name_of M (X ! snd x), snd x) \<in> set (tab (parts ! p))"
        using tab that a by auto
      with a show "x \<in> set (tab (parts ! p))" by (cases x) simp
    qed
    have ids: "k \<in> snd ` set (tab (parts ! p)) \<longleftrightarrow> k < length X \<and> shard (X ! k) = p"
      if "p < T" for p k
    proof
      assume "k \<in> snd ` set (tab (parts ! p))"
      then obtain x where "x \<in> set (tab (parts ! p))" "k = snd x" by auto
      with ent [OF that] show "k < length X \<and> shard (X ! k) = p" by simp
    next
      assume "k < length X \<and> shard (X ! k) = p"
      then have "(name_of M (X ! k), k) \<in> set (tab (parts ! p))" using ent [OF that] by simp
      then show "k \<in> snd ` set (tab (parts ! p))" by force
    qed
    have 1: "\<forall>k < length X. \<exists>!i. i < T \<and> k \<in> snd ` set (tab (parts ! i))"
    proof (intro allI impI)
      fix k assume k: "k < length X"
      with X(2) v(4) have s: "shard (X ! k) < T" by simp
      show "\<exists>!i. i < T \<and> k \<in> snd ` set (tab (parts ! i))"
      proof (rule ex1I [of _ "shard (X ! k)"])
        show "shard (X ! k) < T \<and> k \<in> snd ` set (tab (parts ! shard (X ! k)))"
          using s k ids [OF s] by simp
      next
        fix i assume "i < T \<and> k \<in> snd ` set (tab (parts ! i))"
        with ids [of i k] show "i = shard (X ! k)" by simp
      qed
    qed
    have 2: "\<forall>i < T. \<forall>x \<in> set (tab (parts ! i)). snd x < length X \<and> fst x = name_of M (X ! snd x)"
      using ent by blast
    have 3: "\<forall>i < T. distinct (map snd (tab (parts ! i)))"
    proof (intro allI impI)
      fix i assume i: "i < T"
      have "inj_on snd (set (tab (parts ! i)))"
      proof (rule inj_onI)
        fix x y assume "x \<in> set (tab (parts ! i))" "y \<in> set (tab (parts ! i))" "snd x = snd y"
        with ent [OF i] have "fst x = fst y" by simp
        with \<open>snd x = snd y\<close> show "x = y" by (simp add: prod_eq_iff)
      qed
      moreover from dk i have "distinct (tab (parts ! i))" by (simp add: distinct_map)
      ultimately show "distinct (map snd (tab (parts ! i)))" by (simp add: distinct_map)
    qed
    show ?thesis using 1 2 3 by blast
  qed
  from tf v(2) have F: "distinct F" "\<forall>g \<in> set F. partitionable M g" by (simp_all add: wf_table_def)
  from tg v(3) have G: "distinct G" "\<forall>g \<in> set G. partitionable M g" by (simp_all add: wf_table_def)
  from v(7) have d: "\<forall>p < T. distinct (map fst (p_fvars (parts ! p)))"
    "\<forall>p < T. distinct (map fst (p_gvars (parts ! p)))" by simp_all
  note mf = main [OF F v(5) d(1)]
  note mg = main [OF G v(6) d(2)]
  note f1 = mf [THEN conjunct1] and f2 = mf [THEN conjunct2, THEN conjunct1]
    and f3 = mf [THEN conjunct2, THEN conjunct2]
  note g1 = mg [THEN conjunct1] and g2 = mg [THEN conjunct2, THEN conjunct1]
    and g3 = mg [THEN conjunct2, THEN conjunct2]
  have c8: "\<forall>i < T. distinct (map snd (p_fvars (parts ! i))) \<and> distinct (map snd (p_gvars (parts ! i)))"
    using f3 g3 by simp
  show ?thesis
    by (intro exI conjI, rule v(1), rule v(2), rule v(3), rule f1, rule g1, rule f2, rule g2,
        rule c8)
qed

section \<open>The greedy assignment\<close>

lemma setup_facts:
  assumes wf: "wf_module M"
  shows "\<exists>M2 fvars gvars ns0. partition_setup M = Inr (M2, fvars, gvars, ns0) \<and>
     same_shape M M2 \<and> minv ns0 \<and> inj_on (node_name M2 ns0) {..< length ns0}"
proof -
  from partition_setup_correct [OF wf]
  obtain M2 fvars gvars ns0 F G where s: "partition_setup M = Inr (M2, fvars, gvars, ns0)"
    "same_shape M M2" "minv ns0" "n_GV ` set ns0 = set (partitionable_ids M)"
    "inj_on (\<lambda>j. n_GV (ns0 ! j)) {..< length ns0}"
    by blast
  let ?n = "length ns0"
  let ?gv = "\<lambda>j. n_GV (ns0 ! j)"
  have nn: "node_name M2 ns0 j = name_of M (?gv j)" for j
    by (simp add: node_name_def same_shape_name_of [OF s(2)])
  have pg: "partitionable M (?gv j)" if "j < ?n" for j
    using s(4) that by (metis image_eqI nth_mem partitionable_ids_iff)
  have dn: "inj_on (name_of M) (set (partitionable_ids M))"
    using wf by (simp add: wf_module_def distinct_map)
  have inj: "inj_on (node_name M2 ns0) {..< ?n}"
  proof (rule inj_onI)
    fix a b assume ab: "a \<in> {..< ?n}" "b \<in> {..< ?n}" "node_name M2 ns0 a = node_name M2 ns0 b"
    then have "name_of M (?gv a) = name_of M (?gv b)" by (simp add: nn)
    moreover have "?gv a \<in> set (partitionable_ids M)" "?gv b \<in> set (partitionable_ids M)"
      using ab pg by (simp_all add: partitionable_ids_iff)
    ultimately have "?gv a = ?gv b" using dn by (auto dest: inj_onD)
    with s(5) ab show "a = b" by (auto dest: inj_onD)
  qed
  show ?thesis by (intro exI conjI, rule s(1), rule s(2), rule s(3), rule inj)
qed

text \<open>
  Claim C4. For every number \<open>T \<ge> 1\<close> of partitions and every well-formed module: the
  loop takes every node once, in the order \<open>sorted_idxs\<close>; the roots among them come in
  descending order of \<open>comp_weight\<close>, the sum of the weights of the nodes of their
  connected component, which is the weight the merging has left in the root. At its
  iteration \<open>k\<close> the loop has run through the first \<open>k\<close> nodes and holds the partitions
  \<open>parts\<close>. If the node of this iteration is a root, a partition \<open>p\<close> whose weight is least
  among all \<open>T\<close> partitions in \<open>parts\<close> gains the weight of the component, no other
  partition changes, and every node of the component is named in partition \<open>p\<close> of the
  result of \<open>partitionModule\<close>. If it is not a root, no partition changes its weight.
\<close>

theorem greedy_assignment:
  assumes wf: "wf_module M" and T: "0 < T"
  shows "\<exists>M2 fvars gvars ns0 final.
     partition_setup M = Inr (M2, fvars, gvars, ns0) \<and>
     partitionModule M T = Inr (M2, final) \<and>
     distinct (sorted_idxs ns0) \<and> set (sorted_idxs ns0) = {..< length ns0} \<and>
     sorted_wrt (\<lambda>a b. comp_weight M ns0 b \<le> comp_weight M ns0 a)
       (filter (\<lambda>i. root_of ns0 i i) (sorted_idxs ns0)) \<and>
     (\<forall>r. root_of ns0 r r \<longrightarrow> n_weight (ns0 ! r) = comp_weight M ns0 r) \<and>
     (\<forall>k < length ns0.
        \<exists>ns parts pq ns' parts' pq'.
          assign_all M2 fvars gvars (take k (sorted_idxs ns0)) (assign_init ns0 T) =
            Inr (ns, parts, pq) \<and>
          assign_step M2 fvars gvars (sorted_idxs ns0 ! k) (ns, parts, pq) =
            Inr (ns', parts', pq') \<and>
          (if root_of ns0 (sorted_idxs ns0 ! k) (sorted_idxs ns0 ! k) then
             \<exists>p < T. (\<forall>q < T. p_weight (parts ! p) \<le> p_weight (parts ! q)) \<and>
               p_weight (parts' ! p) =
                 p_weight (parts ! p) + comp_weight M ns0 (sorted_idxs ns0 ! k) \<and>
               (\<forall>q < T. q \<noteq> p \<longrightarrow> parts' ! q = parts ! q) \<and>
               (\<forall>j. root_of ns0 j (sorted_idxs ns0 ! k) \<longrightarrow>
                  (name_of M (n_GV (ns0 ! j)), True) \<in> set (p_globals (final ! p)))
           else \<forall>q < T. p_weight (parts' ! q) = p_weight (parts ! q)))"
proof -
  from setup_facts [OF wf]
  obtain M2 fvars gvars ns0 where s: "partition_setup M = Inr (M2, fvars, gvars, ns0)"
    "same_shape M M2" "minv ns0" "inj_on (node_name M2 ns0) {..< length ns0}"
    by blast
  have A: "\<forall>r. root_of ns0 r r \<longrightarrow> n_weight (ns0 ! r) = comp_weight M ns0 r"
    using partition_setup_weights [OF wf s(1)] by (simp add: sum_inv_def)
  have nn: "node_name M2 ns0 j = name_of M (n_GV (ns0 ! j))" for j
    by (simp add: node_name_def same_shape_name_of [OF s(2)])
  have "sorted_wrt (\<lambda>a b. n_weight (ns0 ! b) \<le> n_weight (ns0 ! a))
      (filter (\<lambda>i. root_of ns0 i i) (sorted_idxs ns0))"
    using sorted_idxs_sorted by (rule sorted_wrt_filter)
  then have B: "sorted_wrt (\<lambda>a b. comp_weight M ns0 b \<le> comp_weight M ns0 a)
      (filter (\<lambda>i. root_of ns0 i i) (sorted_idxs ns0))"
  proof (rule sorted_wrt_mono_rel [rotated])
    fix a b
    assume "a \<in> set (filter (\<lambda>i. root_of ns0 i i) (sorted_idxs ns0))"
      "b \<in> set (filter (\<lambda>i. root_of ns0 i i) (sorted_idxs ns0))"
      "n_weight (ns0 ! b) \<le> n_weight (ns0 ! a)"
    with A show "comp_weight M ns0 b \<le> comp_weight M ns0 a" by simp
  qed
  from assign_phase_correct [OF s(3) T s(4), of fvars gvars]
  obtain nsF final pqF where full: "assign_all M2 fvars gvars (sorted_idxs ns0)
             (ns0, replicate T empty_partition, [0 ..< T]) = Inr (nsF, final, pqF)" by blast
  have pm: "partitionModule M T = Inr (M2, final)"
    using s(1) full by (simp add: partitionModule_def assign_init_def)
  have C: "\<forall>k < length ns0.
        \<exists>ns parts pq ns' parts' pq'.
          assign_all M2 fvars gvars (take k (sorted_idxs ns0)) (assign_init ns0 T) =
            Inr (ns, parts, pq) \<and>
          assign_step M2 fvars gvars (sorted_idxs ns0 ! k) (ns, parts, pq) =
            Inr (ns', parts', pq') \<and>
          (if root_of ns0 (sorted_idxs ns0 ! k) (sorted_idxs ns0 ! k) then
             \<exists>p < T. (\<forall>q < T. p_weight (parts ! p) \<le> p_weight (parts ! q)) \<and>
               p_weight (parts' ! p) =
                 p_weight (parts ! p) + comp_weight M ns0 (sorted_idxs ns0 ! k) \<and>
               (\<forall>q < T. q \<noteq> p \<longrightarrow> parts' ! q = parts ! q) \<and>
               (\<forall>j. root_of ns0 j (sorted_idxs ns0 ! k) \<longrightarrow>
                  (name_of M (n_GV (ns0 ! j)), True) \<in> set (p_globals (final ! p)))
           else \<forall>q < T. p_weight (parts' ! q) = p_weight (parts ! q))"
  proof (intro allI impI)
    fix k assume k: "k < length ns0"
    define i where "i = sorted_idxs ns0 ! k"
    from assign_prefix_step [OF s(3) T s(4) k, of fvars gvars, folded i_def]
    obtain ns parts pq ns' parts' pq' nsf fin pqf where st:
      "assign_all M2 fvars gvars (take k (sorted_idxs ns0)) (assign_init ns0 T) = Inr (ns, parts, pq)"
      "assign_step M2 fvars gvars i (ns, parts, pq) = Inr (ns', parts', pq')"
      "assign_all M2 fvars gvars (sorted_idxs ns0) (assign_init ns0 T) = Inr (nsf, fin, pqf)"
      "if root_of ns0 i i then
         \<exists>p < T. (\<forall>q < T. p_weight (parts ! p) \<le> p_weight (parts ! q)) \<and>
           p_weight (parts' ! p) = p_weight (parts ! p) + n_weight (ns0 ! i) \<and>
           (\<forall>q < T. q \<noteq> p \<longrightarrow> parts' ! q = parts ! q) \<and>
           (\<forall>j. root_of ns0 j i \<longrightarrow> (node_name M2 ns0 j, True) \<in> set (p_globals (fin ! p)))
       else \<forall>q < T. p_weight (parts' ! q) = p_weight (parts ! q)"
      by (elim exE conjE)
    from st(3) full have fin: "fin = final" by (simp add: assign_init_def)
    have c: "if root_of ns0 i i then
             \<exists>p < T. (\<forall>q < T. p_weight (parts ! p) \<le> p_weight (parts ! q)) \<and>
               p_weight (parts' ! p) = p_weight (parts ! p) + comp_weight M ns0 i \<and>
               (\<forall>q < T. q \<noteq> p \<longrightarrow> parts' ! q = parts ! q) \<and>
               (\<forall>j. root_of ns0 j i \<longrightarrow>
                  (name_of M (n_GV (ns0 ! j)), True) \<in> set (p_globals (final ! p)))
           else \<forall>q < T. p_weight (parts' ! q) = p_weight (parts ! q)"
    proof (cases "root_of ns0 i i")
      case False
      with st(4) show ?thesis by (simp only: if_False)
    next
      case True
      with A have w: "n_weight (ns0 ! i) = comp_weight M ns0 i" by simp
      from st(4) obtain p where p: "p < T" "\<forall>q < T. p_weight (parts ! p) \<le> p_weight (parts ! q)"
        "p_weight (parts' ! p) = p_weight (parts ! p) + n_weight (ns0 ! i)"
        "\<forall>q < T. q \<noteq> p \<longrightarrow> parts' ! q = parts ! q"
        "\<forall>j. root_of ns0 j i \<longrightarrow> (node_name M2 ns0 j, True) \<in> set (p_globals (fin ! p))"
        unfolding if_P [OF True] by blast
      have p3: "p_weight (parts' ! p) = p_weight (parts ! p) + comp_weight M ns0 i"
        using p(3) w by simp
      have p5: "\<forall>j. root_of ns0 j i \<longrightarrow>
          (name_of M (n_GV (ns0 ! j)), True) \<in> set (p_globals (final ! p))"
        using p(5) by (simp add: nn fin)
      have "\<exists>p < T. (\<forall>q < T. p_weight (parts ! p) \<le> p_weight (parts ! q)) \<and>
               p_weight (parts' ! p) = p_weight (parts ! p) + comp_weight M ns0 i \<and>
               (\<forall>q < T. q \<noteq> p \<longrightarrow> parts' ! q = parts ! q) \<and>
               (\<forall>j. root_of ns0 j i \<longrightarrow>
                  (name_of M (n_GV (ns0 ! j)), True) \<in> set (p_globals (final ! p)))"
        using p(1,2) p3 p(4) p5 by blast
      with True show ?thesis by (simp only: if_True)
    qed
    show "\<exists>ns parts pq ns' parts' pq'.
          assign_all M2 fvars gvars (take k (sorted_idxs ns0)) (assign_init ns0 T) =
            Inr (ns, parts, pq) \<and>
          assign_step M2 fvars gvars (sorted_idxs ns0 ! k) (ns, parts, pq) =
            Inr (ns', parts', pq') \<and>
          (if root_of ns0 (sorted_idxs ns0 ! k) (sorted_idxs ns0 ! k) then
             \<exists>p < T. (\<forall>q < T. p_weight (parts ! p) \<le> p_weight (parts ! q)) \<and>
               p_weight (parts' ! p) =
                 p_weight (parts ! p) + comp_weight M ns0 (sorted_idxs ns0 ! k) \<and>
               (\<forall>q < T. q \<noteq> p \<longrightarrow> parts' ! q = parts ! q) \<and>
               (\<forall>j. root_of ns0 j (sorted_idxs ns0 ! k) \<longrightarrow>
                  (name_of M (n_GV (ns0 ! j)), True) \<in> set (p_globals (final ! p)))
           else \<forall>q < T. p_weight (parts' ! q) = p_weight (parts ! q))"
      unfolding i_def [symmetric] by (intro exI conjI, rule st(1), rule st(2), rule c)
  qed
  show ?thesis
    by (intro exI conjI, rule s(1), rule pm, rule sorted_idxs_distinct, rule sorted_idxs_set,
        rule B, rule A, rule C)
qed

section \<open>The aliases of a materialized partition\<close>

text \<open>
  Claim C7. For a well-formed module, \<open>T \<ge> 1\<close> partitions and a partition \<open>p\<close>:
  \<open>materializePreserved\<close> returns on the module \<open>partitionModule\<close> has left and on
  partition \<open>p\<close>, and for every alias \<open>a\<close> of that module whose name is not in the
  partition: the alias is erased; there is one replacement \<open>repl a\<close>, a value that was
  not in the module before, which carries the name of the alias, is not an alias, and is
  a declaration with no block, no initializer and no operand; no value of the result
  refers to the alias; and wherever a value \<open>v\<close> referred to the alias, as its operand
  number \<open>k\<close>, then in the result either \<open>v\<close> is itself an alias that has been erased, or
  \<open>v\<close> has been stripped to a declaration without operands, or operand number \<open>k\<close> of
  \<open>v\<close> is \<open>repl a\<close>.
\<close>

theorem alias_materialization:
  assumes wf: "wf_module M" and T: "0 < T" and p: "p < T"
  shows "\<exists>M2 parts M3 repl.
     partitionModule M T = Inr (M2, parts) \<and>
     materializePreserved M2 (parts ! p) = Inr M3 \<and>
     (\<forall>a A. value_at M2 a = Some A \<and> gv_kind A = GlobalAliasVal \<and>
         gv_name A \<notin> fst ` set (p_globals (parts ! p)) \<longrightarrow>
        value_at M3 a = None \<and> length (m_values M2) \<le> repl a \<and>
        (\<exists>R. value_at M3 (repl a) = Some R \<and> gv_name R = gv_name A \<and>
           gv_kind R \<noteq> GlobalAliasVal \<and> isDeclaration R \<and> gv_blocks R = [] \<and>
           \<not> gv_initializer R \<and> gv_operands R = []) \<and>
        (\<forall>v V'. value_at M3 v = Some V' \<longrightarrow> a \<notin> set (gv_operands V')) \<and>
        (\<forall>v V k. value_at M2 v = Some V \<and> k < length (gv_operands V) \<and> gv_operands V ! k = a \<longrightarrow>
           (value_at M3 v = None \<and> gv_kind V = GlobalAliasVal) \<or>
           (\<exists>V'. value_at M3 v = Some V' \<and>
              ((gv_operands V' = [] \<and> isDeclaration V') \<or>
               (length (gv_operands V') = length (gv_operands V) \<and>
                gv_operands V' ! k = repl a)))))"
proof -
  from partition_view [OF wf T]
  obtain M2 parts shard F G where pr: "partition_result M T M2 parts shard F G" by blast
  note v = partition_resultD(1) [OF pr] partition_resultD(3) [OF pr] partition_resultD(7) [OF pr]
    partition_resultD(11) [OF pr]
  from v(3) p have "set (p_globals (parts ! p)) =
      (\<lambda>g. (name_of M g, True)) ` {g. partitionable M g \<and> shard g = p}" by simp
  then have flags: "\<forall>x \<in> set (p_globals (parts ! p)). snd x" by auto
  have ext: "\<forall>a A. value_at M2 a = Some A \<longrightarrow> gv_kind A = GlobalAliasVal \<longrightarrow> \<not> hasLocalLinkage A"
  proof (intro allI impI)
    fix a A assume a: "value_at M2 a = Some A" "gv_kind A = GlobalAliasVal"
    then have "partitionable M2 a"
      by (simp add: partitionable_def isDeclaration_def canPartition_def)
    then have "partitionable M a" by (simp add: same_shape_partitionable [OF v(2)])
    with v(4) obtain G' where "value_at M2 a = Some G'" "gv_linkage G' = ExternalLinkage" by blast
    with a(1) show "\<not> hasLocalLinkage A" by (simp add: hasLocalLinkage_def)
  qed
  from materialize_aliases [OF flags ext] obtain M3 repl where
    m: "materializePreserved M2 (parts ! p) = Inr M3"
    "\<forall>a A. value_at M2 a = Some A \<and> gv_kind A = GlobalAliasVal \<and>
         gv_name A \<notin> fst ` set (p_globals (parts ! p)) \<longrightarrow>
        value_at M3 a = None \<and> length (m_values M2) \<le> repl a \<and>
        (\<exists>R. value_at M3 (repl a) = Some R \<and> gv_name R = gv_name A \<and>
           gv_kind R \<noteq> GlobalAliasVal \<and> isDeclaration R \<and> gv_blocks R = [] \<and>
           \<not> gv_initializer R \<and> gv_operands R = []) \<and>
        (\<forall>v V'. value_at M3 v = Some V' \<longrightarrow> a \<notin> set (gv_operands V')) \<and>
        (\<forall>v V k. value_at M2 v = Some V \<and> k < length (gv_operands V) \<and> gv_operands V ! k = a \<longrightarrow>
           (value_at M3 v = None \<and> gv_kind V = GlobalAliasVal) \<or>
           (\<exists>V'. value_at M3 v = Some V' \<and>
              ((gv_operands V' = [] \<and> isDeclaration V') \<or>
               (length (gv_operands V') = length (gv_operands V) \<and>
                gv_operands V' ! k = repl a))))"
    by (elim exE conjE)
  show ?thesis by (intro exI conjI, rule v(1), rule m(1), rule m(2))
qed

subsection \<open>The concrete module\<close>

lemma wf_mod_ex: "wf_module mod_ex"
  by code_simp

lemma wf_tables_ex: "wf_table mod_ex (jl_fvars mod_ex)" "wf_table mod_ex (jl_gvars mod_ex)"
  by code_simp+

lemma partitionModule_ex:
  "map p_globals (snd (projr (partitionModule mod_ex 2))) =
     [[(''f'', True)], [(''g'', True), (''h'', True)]]"
  "map p_fvars (snd (projr (partitionModule mod_ex 2))) = [[(''f'', 0)], []]"
  "map p_gvars (snd (projr (partitionModule mod_ex 2))) = [[], [(''g'', 1), (''h'', 0)]]"
  by code_simp+

theorem partition_covers_once_witness:
  "wf_module mod_ex \<and> (0 :: nat) < 2 \<and>
   map p_globals (snd (projr (partitionModule mod_ex 2))) =
     [[(''f'', True)], [(''g'', True), (''h'', True)]] \<and>
   (\<exists>M' parts. partitionModule mod_ex 2 = Inr (M', parts) \<and> length parts = 2 \<and>
     (\<Union>P \<in> set parts. fst ` set (p_globals P)) = name_of mod_ex ` {g. partitionable mod_ex g} \<and>
     (\<forall>g. partitionable mod_ex g \<longrightarrow>
        (\<exists>!i. i < 2 \<and> name_of mod_ex g \<in> fst ` set (p_globals (parts ! i)))) \<and>
     (\<forall>i < 2. distinct (map fst (p_globals (parts ! i)))))"
proof -
  have T: "(0 :: nat) < 2" by simp
  from partition_covers_once [OF wf_mod_ex T] wf_mod_ex T partitionModule_ex(1)
  show ?thesis by (intro conjI)
qed

theorem users_colocated_witness:
  "wf_module mod_ex \<and> (0 :: nat) < 2 \<and>
   partitionable mod_ex 2 \<and> partitionable mod_ex 1 \<and> 2 \<in> set (users_of mod_ex 1) \<and>
   (\<exists>M' parts. partitionModule mod_ex 2 = Inr (M', parts) \<and>
     (\<forall>a b. partitionable mod_ex a \<and> partitionable mod_ex b \<and> a \<in> set (users_of mod_ex b) \<longrightarrow>
        (\<exists>i < 2. name_of mod_ex a \<in> fst ` set (p_globals (parts ! i)) \<and>
                 name_of mod_ex b \<in> fst ` set (p_globals (parts ! i))) \<and>
        (\<forall>i < 2. name_of mod_ex a \<in> fst ` set (p_globals (parts ! i)) \<longleftrightarrow>
                 name_of mod_ex b \<in> fst ` set (p_globals (parts ! i)))))"
proof -
  have T: "(0 :: nat) < 2" by simp
  have p: "partitionable mod_ex 2" "partitionable mod_ex 1" "2 \<in> set (users_of mod_ex 1)"
    by code_simp+
  from users_colocated [OF wf_mod_ex T] wf_mod_ex T p
  show ?thesis by (intro conjI)
qed

theorem flat_ids_once_witness:
  "wf_module mod_ex \<and> (0 :: nat) < 2 \<and>
   wf_table mod_ex (jl_fvars mod_ex) \<and> wf_table mod_ex (jl_gvars mod_ex) \<and>
   map p_fvars (snd (projr (partitionModule mod_ex 2))) = [[(''f'', 0)], []] \<and>
   map p_gvars (snd (projr (partitionModule mod_ex 2))) = [[], [(''g'', 1), (''h'', 0)]] \<and>
   (\<exists>M' parts F G. partitionModule mod_ex 2 = Inr (M', parts) \<and>
     jl_fvars mod_ex = Some F \<and> jl_gvars mod_ex = Some G \<and>
     (\<forall>k < length F. \<exists>!i. i < 2 \<and> k \<in> snd ` set (p_fvars (parts ! i))) \<and>
     (\<forall>k < length G. \<exists>!i. i < 2 \<and> k \<in> snd ` set (p_gvars (parts ! i))) \<and>
     (\<forall>i < 2. \<forall>x \<in> set (p_fvars (parts ! i)).
        snd x < length F \<and> fst x = name_of mod_ex (F ! snd x)) \<and>
     (\<forall>i < 2. \<forall>x \<in> set (p_gvars (parts ! i)).
        snd x < length G \<and> fst x = name_of mod_ex (G ! snd x)) \<and>
     (\<forall>i < 2. distinct (map snd (p_fvars (parts ! i))) \<and>
        distinct (map snd (p_gvars (parts ! i)))))"
proof -
  have T: "(0 :: nat) < 2" by simp
  from flat_ids_once [OF wf_mod_ex T wf_tables_ex] wf_mod_ex T wf_tables_ex partitionModule_ex(2,3)
  show ?thesis by (intro conjI)
qed

text \<open>
  The claim as the specification states it is about every reference of a definition to
  another. In \<open>mod_al\<close> the body of the function \<open>f\<close> refers to the alias \<open>af\<close>, both can
  be partitioned, and \<open>ConstantUses\<close> reports no user of \<open>af\<close>: a reference from an
  instruction is not a use by a global value. With two partitions \<open>f\<close> is alone in the
  first and \<open>af\<close> is in the second.
\<close>

theorem reference_split_counterexample:
  "partitionable mod_al 0 \<and> partitionable mod_al 2 \<and>
   name_of mod_al 0 = ''f'' \<and> name_of mod_al 2 = ''af'' \<and>
   map_option gv_operands (value_at mod_al 0) = Some [2, 4] \<and>
   users_of mod_al 2 = [] \<and>
   \<not> isl (partitionModule mod_al 2) \<and>
   map (map fst) (map p_globals (snd (projr (partitionModule mod_al 2)))) =
     [[''f''], [''g'', ''v'', ''av'', ''af'', ''w'']]"
  by code_simp

lemma greedy_ex:
  "map n_weight (snd (snd (snd (projr (partition_setup mod_ex))))) = [24, 2, 1]"
  "sorted_idxs (snd (snd (snd (projr (partition_setup mod_ex))))) = [0, 1, 2]"
  "map p_weight (snd (projr (partitionModule mod_ex 2))) = [24, 2]"
  by code_simp+

theorem greedy_assignment_witness:
  "wf_module mod_ex \<and> (0 :: nat) < 2 \<and>
   map n_weight (snd (snd (snd (projr (partition_setup mod_ex))))) = [24, 2, 1] \<and>
   sorted_idxs (snd (snd (snd (projr (partition_setup mod_ex))))) = [0, 1, 2] \<and>
   map p_weight (snd (projr (partitionModule mod_ex 2))) = [24, 2] \<and>
   (\<exists>M2 fvars gvars ns0 final.
     partition_setup mod_ex = Inr (M2, fvars, gvars, ns0) \<and>
     partitionModule mod_ex 2 = Inr (M2, final) \<and>
     distinct (sorted_idxs ns0) \<and> set (sorted_idxs ns0) = {..< length ns0} \<and>
     sorted_wrt (\<lambda>a b. comp_weight mod_ex ns0 b \<le> comp_weight mod_ex ns0 a)
       (filter (\<lambda>i. root_of ns0 i i) (sorted_idxs ns0)) \<and>
     (\<forall>r. root_of ns0 r r \<longrightarrow> n_weight (ns0 ! r) = comp_weight mod_ex ns0 r) \<and>
     (\<forall>k < length ns0.
        \<exists>ns parts pq ns' parts' pq'.
          assign_all M2 fvars gvars (take k (sorted_idxs ns0)) (assign_init ns0 2) =
            Inr (ns, parts, pq) \<and>
          assign_step M2 fvars gvars (sorted_idxs ns0 ! k) (ns, parts, pq) =
            Inr (ns', parts', pq') \<and>
          (if root_of ns0 (sorted_idxs ns0 ! k) (sorted_idxs ns0 ! k) then
             \<exists>p < 2. (\<forall>q < 2. p_weight (parts ! p) \<le> p_weight (parts ! q)) \<and>
               p_weight (parts' ! p) =
                 p_weight (parts ! p) + comp_weight mod_ex ns0 (sorted_idxs ns0 ! k) \<and>
               (\<forall>q < 2. q \<noteq> p \<longrightarrow> parts' ! q = parts ! q) \<and>
               (\<forall>j. root_of ns0 j (sorted_idxs ns0 ! k) \<longrightarrow>
                  (name_of mod_ex (n_GV (ns0 ! j)), True) \<in> set (p_globals (final ! p)))
           else \<forall>q < 2. p_weight (parts' ! q) = p_weight (parts ! q))))"
proof -
  have T: "(0 :: nat) < 2" by simp
  from greedy_assignment [OF wf_mod_ex T] wf_mod_ex T greedy_ex
  show ?thesis by (intro conjI)
qed

lemma wf_mod_al: "wf_module mod_al"
  by code_simp

lemma materialize_ex:
  "map p_globals (snd (projr (partitionModule mod_al 2))) =
     [[(''f'', True)], [(''g'', True), (''v'', True), (''av'', True), (''af'', True), (''w'', True)]]"
  "map (map_option (\<lambda>G. (gv_kind G, gv_name G, gv_blocks G, gv_initializer G, gv_operands G)))
     (m_values (projr (materializePreserved (fst (projr (partitionModule mod_al 2)))
        (snd (projr (partitionModule mod_al 2)) ! 0)))) =
     [Some (FunctionVal, ''f'', [3, 2], False, [6, 7]),
      Some (FunctionVal, ''g'', [], False, []), None,
      Some (GlobalVariableVal, ''v'', [], False, []), None,
      Some (GlobalVariableVal, ''w'', [], False, []),
      Some (FunctionVal, ''af'', [], False, []),
      Some (GlobalVariableVal, ''av'', [], False, [])]"
  by code_simp+

theorem alias_materialization_witness:
  "wf_module mod_al \<and> (0 :: nat) < 2 \<and> (0 :: nat) < 2 \<and>
   map p_globals (snd (projr (partitionModule mod_al 2))) =
     [[(''f'', True)], [(''g'', True), (''v'', True), (''av'', True), (''af'', True), (''w'', True)]] \<and>
   map (map_option (\<lambda>G. (gv_kind G, gv_name G, gv_blocks G, gv_initializer G, gv_operands G)))
     (m_values (projr (materializePreserved (fst (projr (partitionModule mod_al 2)))
        (snd (projr (partitionModule mod_al 2)) ! 0)))) =
     [Some (FunctionVal, ''f'', [3, 2], False, [6, 7]),
      Some (FunctionVal, ''g'', [], False, []), None,
      Some (GlobalVariableVal, ''v'', [], False, []), None,
      Some (GlobalVariableVal, ''w'', [], False, []),
      Some (FunctionVal, ''af'', [], False, []),
      Some (GlobalVariableVal, ''av'', [], False, [])] \<and>
   (\<exists>M2 parts M3 repl.
     partitionModule mod_al 2 = Inr (M2, parts) \<and>
     materializePreserved M2 (parts ! 0) = Inr M3 \<and>
     (\<forall>a A. value_at M2 a = Some A \<and> gv_kind A = GlobalAliasVal \<and>
         gv_name A \<notin> fst ` set (p_globals (parts ! 0)) \<longrightarrow>
        value_at M3 a = None \<and> length (m_values M2) \<le> repl a \<and>
        (\<exists>R. value_at M3 (repl a) = Some R \<and> gv_name R = gv_name A \<and>
           gv_kind R \<noteq> GlobalAliasVal \<and> isDeclaration R \<and> gv_blocks R = [] \<and>
           \<not> gv_initializer R \<and> gv_operands R = []) \<and>
        (\<forall>v V'. value_at M3 v = Some V' \<longrightarrow> a \<notin> set (gv_operands V')) \<and>
        (\<forall>v V k. value_at M2 v = Some V \<and> k < length (gv_operands V) \<and> gv_operands V ! k = a \<longrightarrow>
           (value_at M3 v = None \<and> gv_kind V = GlobalAliasVal) \<or>
           (\<exists>V'. value_at M3 v = Some V' \<and>
              ((gv_operands V' = [] \<and> isDeclaration V') \<or>
               (length (gv_operands V') = length (gv_operands V) \<and>
                gv_operands V' ! k = repl a))))))"
proof -
  have T: "(0 :: nat) < 2" by simp
  from alias_materialization [OF wf_mod_al T T] wf_mod_al T materialize_ex
  show ?thesis by (intro conjI)
qed

end
